(* ===== verification/Prelude.thy ===== *)
theory Prelude
  imports Main
    "HOL-Library.Word"
    "HOL-Library.Sublist"
    "HOL-Library.AList"
    "HOL-Library.Char_ord"
    "HOL-Library.List_Lexorder"
begin

text \<open>
  The shared layer of the development: bounded arithmetic on \<open>u64\<close> values
  (natural numbers with their bound written out), the result monad in which
  Rust's \<open>?\<close> operator is expressed, the string operations of the standard
  library that the storage keys use (prefix and suffix stripping, splitting at
  a separator, zero-padded decimal printing and parsing), and little-endian
  byte encodings.  Every component theory builds on it.
\<close>

named_theorems u64_simps "evaluation of the checked u64 operations"
named_theorems result_simps "evaluation of the result monad"

section \<open>Machine integers\<close>

type_synonym byte = "8 word"
type_synonym bytes = "byte list"
type_synonym checksum = "bytes \<Rightarrow> 32 word"

definition u64_max :: nat where
  "u64_max = 2 ^ 64 - 1"

definition is_u64 :: "nat \<Rightarrow> bool" where
  "is_u64 n \<longleftrightarrow> n \<le> u64_max"

definition checked_add :: "nat \<Rightarrow> nat \<Rightarrow> nat option" where
  "checked_add a b = (if a + b \<le> u64_max then Some (a + b) else None)"

definition saturating_add :: "nat \<Rightarrow> nat \<Rightarrow> nat" where
  "saturating_add a b = min (a + b) u64_max"

definition checked_sub :: "nat \<Rightarrow> nat \<Rightarrow> nat option" where
  "checked_sub a b = (if b \<le> a then Some (a - b) else None)"

definition checked_mul :: "nat \<Rightarrow> nat \<Rightarrow> nat option" where
  "checked_mul a b = (if a * b \<le> u64_max then Some (a * b) else None)"

lemma checked_add_Some_iff [u64_simps]:
  "checked_add a b = Some c \<longleftrightarrow> c = a + b \<and> a + b \<le> u64_max"
  by (auto simp: checked_add_def)

lemma checked_add_None_iff [u64_simps]:
  "checked_add a b = None \<longleftrightarrow> u64_max < a + b"
  by (auto simp: checked_add_def)

lemma checked_sub_Some_iff [u64_simps]:
  "checked_sub a b = Some c \<longleftrightarrow> b \<le> a \<and> c = a - b"
  by (auto simp: checked_sub_def)

lemma saturating_add_le: "saturating_add a b \<le> u64_max"
  by (simp add: saturating_add_def)

lemma u64_max_less: "n \<le> u64_max \<longleftrightarrow> n < 2 ^ 64"
  by (auto simp: u64_max_def)

section \<open>Results\<close>

text \<open>A fallible computation is a sum whose left side is the error; a fallible
  computation with effects also threads a state.  \<open>bindE\<close> and \<open>bindSE\<close> are the
  two readings of \<open>?\<close>: the error returns at once, with the state it was
  reached in.\<close>

type_synonym ('e, 'a) result = "'e + 'a"
type_synonym ('s, 'e, 'a) effect = "'s \<Rightarrow> ('e + 'a) \<times> 's"

definition bindE :: "('e, 'a) result \<Rightarrow> ('a \<Rightarrow> ('e, 'b) result) \<Rightarrow> ('e, 'b) result" where
  "bindE m f = (case m of Inl e \<Rightarrow> Inl e | Inr a \<Rightarrow> f a)"

definition returnSE :: "'a \<Rightarrow> ('s, 'e, 'a) effect" where
  "returnSE a = (\<lambda>s. (Inr a, s))"

definition throwSE :: "'e \<Rightarrow> ('s, 'e, 'a) effect" where
  "throwSE e = (\<lambda>s. (Inl e, s))"

definition liftSE :: "('e, 'a) result \<Rightarrow> ('s, 'e, 'a) effect" where
  "liftSE r = (\<lambda>s. (r, s))"

definition bindSE ::
  "('s, 'e, 'a) effect \<Rightarrow> ('a \<Rightarrow> ('s, 'e, 'b) effect) \<Rightarrow> ('s, 'e, 'b) effect" where
  "bindSE m f = (\<lambda>s. case m s of (Inl e, s') \<Rightarrow> (Inl e, s') | (Inr a, s') \<Rightarrow> f a s')"

definition map_errSE :: "('e \<Rightarrow> 'f) \<Rightarrow> ('s, 'e, 'a) effect \<Rightarrow> ('s, 'f, 'a) effect" where
  "map_errSE g m = (\<lambda>s. case m s of (Inl e, s') \<Rightarrow> (Inl (g e), s') | (Inr a, s') \<Rightarrow> (Inr a, s'))"

lemma bindE_simps [simp, result_simps]:
  "bindE (Inl e) f = Inl e"
  "bindE (Inr a) f = f a"
  by (simp_all add: bindE_def)

lemma bindE_Inr_iff [result_simps]:
  "bindE m f = Inr b \<longleftrightarrow> (\<exists>a. m = Inr a \<and> f a = Inr b)"
  by (cases m) auto

lemma bindSE_Inr_iff [result_simps]:
  "bindSE m f s = (Inr b, t) \<longleftrightarrow> (\<exists>a u. m s = (Inr a, u) \<and> f a u = (Inr b, t))"
  by (auto simp: bindSE_def split: prod.splits sum.splits)

lemma bindSE_Inl_iff [result_simps]:
  "bindSE m f s = (Inl e, t) \<longleftrightarrow>
     m s = (Inl e, t) \<or> (\<exists>a u. m s = (Inr a, u) \<and> f a u = (Inl e, t))"
  by (auto simp: bindSE_def split: prod.splits sum.splits)

lemma effect_simps [simp, result_simps]:
  "returnSE a s = (Inr a, s)"
  "throwSE e s = (Inl e, s)"
  "liftSE r s = (r, s)"
  by (simp_all add: returnSE_def throwSE_def liftSE_def)

lemma map_errSE_iff [result_simps]:
  "map_errSE g m s = (Inr a, t) \<longleftrightarrow> m s = (Inr a, t)"
  "map_errSE g m s = (Inl f, t) \<longleftrightarrow> (\<exists>e. m s = (Inl e, t) \<and> f = g e)"
  by (auto simp: map_errSE_def split: prod.splits sum.splits)

lemma bindSE_cases:
  assumes "bindSE m f s = (r, t)"
  obtains (failed) e where "m s = (Inl e, t)" "r = Inl e"
  | (passed) a u where "m s = (Inr a, u)" "f a u = (r, t)"
  using assms by (auto simp: bindSE_def split: prod.splits sum.splits)

definition of_option :: "'e \<Rightarrow> 'a option \<Rightarrow> ('e, 'a) result" where
  "of_option e x = (case x of None \<Rightarrow> Inl e | Some a \<Rightarrow> Inr a)"

definition guardE :: "bool \<Rightarrow> 'e \<Rightarrow> ('e, unit) result" where
  "guardE b e = (if b then Inr () else Inl e)"

lemma of_option_Inr_iff [simp]: "of_option e x = Inr a \<longleftrightarrow> x = Some a"
  by (cases x) (auto simp: of_option_def)

lemma guardE_Inr_iff [simp]: "guardE b e = Inr u \<longleftrightarrow> b"
  by (simp add: guardE_def)

lemma of_option_Some [simp]: "of_option e (Some a) = Inr a"
  by (simp add: of_option_def)

lemma guardE_True: "b \<Longrightarrow> guardE b e = Inr ()"
  by (simp add: guardE_def)

definition map_errE :: "('e \<Rightarrow> 'f) \<Rightarrow> ('e, 'a) result \<Rightarrow> ('f, 'a) result" where
  "map_errE g r = (case r of Inl e \<Rightarrow> Inl (g e) | Inr a \<Rightarrow> Inr a)"

lemma map_errE_simps [simp, result_simps]:
  "map_errE g (Inr a) = Inr a" "map_errE g (Inl e) = Inl (g e)"
  by (simp_all add: map_errE_def)

lemma map_errE_iff [simp, result_simps]:
  "map_errE g r = Inr a \<longleftrightarrow> r = Inr a"
  "map_errE g r = Inl f \<longleftrightarrow> (\<exists>e. r = Inl e \<and> f = g e)"
  by (auto simp: map_errE_def split: sum.splits)

section \<open>Strings\<close>

definition strip_prefix :: "string \<Rightarrow> string \<Rightarrow> string option" where
  "strip_prefix p s = (if prefix p s then Some (drop (length p) s) else None)"

definition strip_suffix :: "string \<Rightarrow> string \<Rightarrow> string option" where
  "strip_suffix p s = (if suffix p s then Some (take (length s - length p) s) else None)"

fun split_on :: "char \<Rightarrow> string \<Rightarrow> string list" where
  "split_on c [] = [[]]"
| "split_on c (x # xs) =
     (if x = c then [] # split_on c xs
      else (case split_on c xs of [] \<Rightarrow> [[x]] | y # ys \<Rightarrow> (x # y) # ys))"

fun join_with :: "char \<Rightarrow> string list \<Rightarrow> string" where
  "join_with c [] = []"
| "join_with c [x] = x"
| "join_with c (x # y # ys) = x @ c # join_with c (y # ys)"

lemma strip_prefix_Some_iff: "strip_prefix p s = Some t \<longleftrightarrow> s = p @ t"
  by (auto simp: strip_prefix_def prefix_def)

lemma strip_prefix_append [simp]: "strip_prefix p (p @ t) = Some t"
  by (simp add: strip_prefix_Some_iff)

lemma strip_suffix_Some_iff: "strip_suffix p s = Some t \<longleftrightarrow> s = t @ p"
  by (auto simp: strip_suffix_def suffix_def)

lemma strip_suffix_append [simp]: "strip_suffix p (t @ p) = Some t"
  by (simp add: strip_suffix_Some_iff)

lemma split_on_not_Nil [simp]: "split_on c s \<noteq> []"
  by (induction s) (auto split: list.splits)

lemma join_split_on [simp]: "join_with c (split_on c s) = s"
proof (induction s)
  case (Cons x xs)
  obtain y ys where y: "split_on c xs = y # ys"
    using split_on_not_Nil [of c xs] by (cases "split_on c xs") auto
  with Cons show ?case by (cases ys) auto
qed simp

lemma split_on_no_sep: "c \<notin> set x \<Longrightarrow> split_on c x = [x]"
  by (induction x) auto

lemma split_on_append_sep:
  "c \<notin> set x \<Longrightarrow> split_on c (x @ c # s) = x # split_on c s"
  by (induction x) auto

lemma split_join_with:
  "xs \<noteq> [] \<Longrightarrow> \<forall>x\<in>set xs. c \<notin> set x \<Longrightarrow> split_on c (join_with c xs) = xs"
  by (induction c xs rule: join_with.induct) (auto simp: split_on_no_sep split_on_append_sep)

lemma split_on_no_sep_in: "x \<in> set (split_on c s) \<Longrightarrow> c \<notin> set x"
proof (induction s arbitrary: x)
  case (Cons a s)
  obtain y ys where "split_on c s = y # ys"
    using split_on_not_Nil [of c s] by (cases "split_on c s") auto
  with Cons show ?case by (auto split: if_splits)
qed simp

lemma split_on_inject: "split_on c s = split_on c t \<longleftrightarrow> s = t"
  by (metis join_split_on)

lemma split_on_append_sep_gen:
  "split_on c (s @ c # t) = split_on c s @ split_on c t"
proof (induction s)
  case (Cons a s)
  obtain y ys where "split_on c s = y # ys"
    using split_on_not_Nil [of c s] by (cases "split_on c s") auto
  with Cons show ?case by auto
qed simp

lemma join_with_append:
  "xs \<noteq> [] \<Longrightarrow> ys \<noteq> [] \<Longrightarrow> join_with c (xs @ ys) = join_with c xs @ c # join_with c ys"
  by (induction c xs rule: join_with.induct) (auto simp: neq_Nil_conv)

section \<open>Decimal numerals\<close>

text \<open>Rust prints \<open>{n:020}\<close> as the decimal digits of \<open>n\<close>, padded on the left
  with zeros to twenty places, and \<open>str::parse::<u64>\<close> accepts an optional plus
  sign followed by at least one digit whose value fits.\<close>

definition digit_char :: "nat \<Rightarrow> char" where
  "digit_char d = char_of (48 + d)"

definition is_ascii_digit :: "char \<Rightarrow> bool" where
  "is_ascii_digit c \<longleftrightarrow> 48 \<le> (of_char c :: nat) \<and> (of_char c :: nat) \<le> 57"

definition digit_val :: "char \<Rightarrow> nat" where
  "digit_val c = of_char c - 48"

fun dec :: "nat \<Rightarrow> string" where
  "dec n = (if n < 10 then [digit_char n] else dec (n div 10) @ [digit_char (n mod 10)])"

declare dec.simps [simp del]

definition digits_val :: "string \<Rightarrow> nat" where
  "digits_val s = foldl (\<lambda>a c. 10 * a + digit_val c) 0 s"

definition fmt020 :: "nat \<Rightarrow> string" where
  "fmt020 n = replicate (20 - length (dec n)) (CHR ''0'') @ dec n"

definition parse_u64 :: "string \<Rightarrow> nat option" where
  "parse_u64 s =
     (let ds = (case s of [] \<Rightarrow> [] | c # cs \<Rightarrow> if c = CHR ''+'' then cs else s) in
      if ds = [] \<or> \<not> list_all is_ascii_digit ds then None
      else if digits_val ds \<le> u64_max then Some (digits_val ds) else None)"

lemma of_digit_char: "d < 10 \<Longrightarrow> (of_char (digit_char d) :: nat) = 48 + d"
  by (simp add: digit_char_def of_char_of)

lemma digit_char_is_digit: "d < 10 \<Longrightarrow> is_ascii_digit (digit_char d)"
  by (simp add: is_ascii_digit_def of_digit_char)

lemma digit_val_digit_char: "d < 10 \<Longrightarrow> digit_val (digit_char d) = d"
  by (simp add: digit_val_def of_digit_char)

lemma digits_val_snoc: "digits_val (s @ [c]) = 10 * digits_val s + digit_val c"
  by (simp add: digits_val_def)

lemma digits_val_zeros: "digits_val (replicate k (CHR ''0'') @ s) = digits_val s"
proof (induction k)
  case (Suc k)
  then show ?case by (simp add: digits_val_def digit_val_def)
qed simp

lemma digits_val_dec: "digits_val (dec n) = n"
proof (induction n rule: dec.induct)
  case (1 n)
  show ?case
  proof (cases "n < 10")
    case True
    then show ?thesis
      by (subst dec.simps) (simp add: digits_val_def digit_val_digit_char)
  next
    case False
    then show ?thesis
      using 1 by (subst dec.simps) (simp add: digits_val_snoc digit_val_digit_char)
  qed
qed

lemma dec_digits: "list_all is_ascii_digit (dec n)"
proof (induction n rule: dec.induct)
  case (1 n)
  then show ?case by (subst dec.simps) (auto simp: digit_char_is_digit)
qed

lemma dec_not_Nil [simp]: "dec n \<noteq> []"
  by (subst dec.simps) simp

lemma dec_length: "n < 10 ^ Suc k \<Longrightarrow> length (dec n) \<le> Suc k"
proof (induction n arbitrary: k rule: dec.induct)
  case (1 n)
  show ?case
  proof (cases "n < 10")
    case True
    then show ?thesis by (subst dec.simps) simp
  next
    case False
    with 1(2) obtain j where j: "k = Suc j" by (cases k) auto
    have "n div 10 < 10 ^ Suc j" using 1(2) j by (simp add: less_mult_imp_div_less)
    with 1(1) [OF False, of j] show ?thesis
      using False j by (subst dec.simps) simp
  qed
qed

lemma fmt020_length: "is_u64 n \<Longrightarrow> length (fmt020 n) = 20"
  using dec_length [of n 19] by (simp add: fmt020_def is_u64_def u64_max_def)

lemma fmt020_digits: "list_all is_ascii_digit (fmt020 n)"
  by (simp add: fmt020_def dec_digits list_all_iff is_ascii_digit_def)
    (use dec_digits in \<open>auto simp: list_all_iff is_ascii_digit_def\<close>)

lemma digits_val_fmt020: "digits_val (fmt020 n) = n"
  by (simp add: fmt020_def digits_val_zeros digits_val_dec)

lemma fmt020_not_Nil [simp]: "fmt020 n \<noteq> []"
  by (simp add: fmt020_def)

lemma fmt020_inject: "fmt020 m = fmt020 n \<longleftrightarrow> m = n"
  by (metis digits_val_fmt020)

lemma no_plus_digits: "list_all is_ascii_digit s \<Longrightarrow> s \<noteq> [] \<Longrightarrow> hd s \<noteq> CHR ''+''"
  by (cases s) (auto simp: is_ascii_digit_def)

lemma parse_u64_digits:
  "s \<noteq> [] \<Longrightarrow> list_all is_ascii_digit s \<Longrightarrow>
     parse_u64 s = (if digits_val s \<le> u64_max then Some (digits_val s) else None)"
  using no_plus_digits [of s] by (auto simp: parse_u64_def split: list.splits)

lemma parse_u64_fmt020: "is_u64 n \<Longrightarrow> parse_u64 (fmt020 n) = Some n"
  by (simp add: parse_u64_digits fmt020_digits digits_val_fmt020 is_u64_def)

lemma parse_u64_bound: "parse_u64 s = Some n \<Longrightarrow> is_u64 n"
  by (auto simp: parse_u64_def is_u64_def Let_def split: if_splits)

lemma not_digit_in_fmt020: "\<not> is_ascii_digit c \<Longrightarrow> c \<notin> set (fmt020 n)"
  using fmt020_digits [of n] by (auto simp: list_all_iff)

lemma digits_val_Cons:
  "digits_val (c # s) = digit_val c * 10 ^ length s + digits_val s"
proof (induction s rule: rev_induct)
  case Nil
  then show ?case by (simp add: digits_val_def)
next
  case (snoc d s)
  have "digits_val (c # s @ [d]) = 10 * digits_val (c # s) + digit_val d"
    using digits_val_snoc [of "c # s" d] by simp
  then show ?case using snoc by (simp add: digits_val_snoc algebra_simps)
qed

lemma digit_val_less: "is_ascii_digit c \<Longrightarrow> digit_val c < 10"
  by (auto simp: is_ascii_digit_def digit_val_def)

lemma digit_val_inject:
  "is_ascii_digit c \<Longrightarrow> is_ascii_digit d \<Longrightarrow> digit_val c = digit_val d \<Longrightarrow> c = d"
  by (auto simp: is_ascii_digit_def digit_val_def eq_diff_iff)

lemma digits_val_less: "list_all is_ascii_digit s \<Longrightarrow> digits_val s < 10 ^ length s"
proof (induction s)
  case (Cons c s)
  then have "digit_val c \<le> 9" using digit_val_less [of c] by simp
  then have "digit_val c * 10 ^ length s \<le> 9 * 10 ^ length s" by (rule mult_le_mono1)
  moreover have "digits_val s < 10 ^ length s" using Cons by simp
  ultimately have "digit_val c * 10 ^ length s + digits_val s < 9 * 10 ^ length s + 10 ^ length s"
    by (rule add_le_less_mono)
  then show ?case by (simp add: digits_val_Cons)
qed (simp add: digits_val_def)

lemma digits_val_inject:
  "length s = length t \<Longrightarrow> list_all is_ascii_digit s \<Longrightarrow> list_all is_ascii_digit t \<Longrightarrow>
   digits_val s = digits_val t \<Longrightarrow> s = t"
proof (induction s t rule: list_induct2)
  case (Cons c s d t)
  let ?B = "10 ^ length s :: nat"
  have "digits_val s < ?B" "digits_val t < ?B"
    using Cons digits_val_less [of s] digits_val_less [of t] by auto
  moreover have e: "digit_val c * ?B + digits_val s = digit_val d * ?B + digits_val t"
    using Cons by (simp add: digits_val_Cons)
  ultimately have "digit_val c = digit_val d"
    by (metis add.commute div_less div_mult_self3 less_nat_zero_code add_0_right)
  then show ?case using Cons e digit_val_inject [of c d] by simp
qed simp

lemma fmt020_unique:
  "length s = 20 \<Longrightarrow> list_all is_ascii_digit s \<Longrightarrow> parse_u64 s = Some n \<Longrightarrow> s = fmt020 n"
proof -
  assume s: "length s = 20" "list_all is_ascii_digit s" "parse_u64 s = Some n"
  have "s \<noteq> []" using s(1) by auto
  then have "digits_val s = n" using s parse_u64_digits [of s] by (simp split: if_splits)
  then show ?thesis
    using digits_val_inject [of s "fmt020 n"] fmt020_length [of n] parse_u64_bound [OF s(3)] s
    by (simp add: fmt020_digits digits_val_fmt020)
qed

section \<open>Little-endian encodings\<close>

fun le_bytes :: "nat \<Rightarrow> nat \<Rightarrow> bytes" where
  "le_bytes 0 n = []"
| "le_bytes (Suc k) n = word_of_nat (n mod 256) # le_bytes k (n div 256)"

fun from_le :: "bytes \<Rightarrow> nat" where
  "from_le [] = 0"
| "from_le (b # bs) = unat b + 256 * from_le bs"

lemma length_le_bytes [simp]: "length (le_bytes k n) = k"
  by (induction k arbitrary: n) auto

lemma from_le_bytes: "from_le (le_bytes k n) = n mod 256 ^ k"
proof (induction k arbitrary: n)
  case (Suc k)
  have "unat (word_of_nat (n mod 256) :: byte) = n mod 256"
    by (simp add: unat_of_nat)
  then show ?case using Suc by (simp add: mod_mult2_eq)
qed simp

lemma from_le_bytes_id: "n < 256 ^ k \<Longrightarrow> from_le (le_bytes k n) = n"
  by (simp add: from_le_bytes)

lemma unat_byte_less: "unat (b :: byte) < 256"
  using unsigned_less [of b] by simp

lemma from_le_less: "from_le bs < 256 ^ length bs"
proof (induction bs)
  case (Cons b bs)
  have "unat b < 256" by (rule unat_byte_less)
  with Cons show ?case by simp
qed simp

lemma le_bytes_from_le: "le_bytes (length bs) (from_le bs) = bs"
proof (induction bs)
  case (Cons b bs)
  have "unat b < 256" by (rule unat_byte_less)
  then show ?case using Cons by simp
qed simp

lemma le_bytes_inject:
  "m < 256 ^ k \<Longrightarrow> n < 256 ^ k \<Longrightarrow> le_bytes k m = le_bytes k n \<longleftrightarrow> m = n"
  by (metis from_le_bytes_id)

end
