(* ===== verification/LifecycleCoordination.thy ===== *)
theory LifecycleCoordination
  imports Prelude
begin

text \<open>
  Admission control between transaction preparation and lifecycle execution
  (\<open>crates/txn/src/lifecycle_coordination.rs\<close>).  The coordinator's mutex-protected
  state is a record and every critical section is one operation on it.  A step
  relation interleaves any number of threads through those sections; a thread
  that finds its guard closed goes to sleep on the condition variable and is
  woken by \<open>notify_all\<close> or spuriously.
\<close>

section \<open>Model\<close>

record coord =
  waiting_executors :: nat
  active_preparations :: nat
  executor_active :: bool

definition initial_coord :: coord where
  "initial_coord = \<lparr> waiting_executors = 0, active_preparations = 0, executor_active = False \<rparr>"

text \<open>The loop guards of the two acquisitions: a closed gate means another wait.\<close>

definition preparation_blocked :: "coord \<Rightarrow> bool" where
  "preparation_blocked st \<longleftrightarrow> executor_active st \<or> waiting_executors st > 0"

definition exclusive_blocked :: "coord \<Rightarrow> bool" where
  "exclusive_blocked st \<longleftrightarrow> executor_active st \<or> active_preparations st > 0"

text \<open>The body of \<open>acquire_preparation\<close> after its loop.  \<open>None\<close> is the failed assertion.\<close>

definition admit_preparation :: "coord \<Rightarrow> coord option" where
  "admit_preparation st =
     (if active_preparations st < u64_max
      then Some (st\<lparr> active_preparations := active_preparations st + 1 \<rparr>) else None)"

text \<open>\<open>acquire_exclusive\<close> before and after its loop.\<close>

definition queue_executor :: "coord \<Rightarrow> coord option" where
  "queue_executor st =
     (if waiting_executors st < u64_max
      then Some (st\<lparr> waiting_executors := waiting_executors st + 1 \<rparr>) else None)"

definition admit_executor :: "coord \<Rightarrow> coord" where
  "admit_executor st =
     st\<lparr> waiting_executors := waiting_executors st - 1, executor_active := True \<rparr>"

text \<open>The two \<open>Drop\<close> implementations; the flag says whether \<open>notify_all\<close> is called.\<close>

definition drop_preparation :: "coord \<Rightarrow> (coord \<times> bool) option" where
  "drop_preparation st =
     (if active_preparations st > 0
      then let st' = st\<lparr> active_preparations := active_preparations st - 1 \<rparr>
           in Some (st', active_preparations st' = 0)
      else None)"

definition drop_exclusive :: "coord \<Rightarrow> (coord \<times> bool) option" where
  "drop_exclusive st =
     (if executor_active st then Some (st\<lparr> executor_active := False \<rparr>, True) else None)"

text \<open>Where a thread stands.  The two \<open>Check\<close> phases are about to take the mutex
  and evaluate their guard; the two \<open>Asleep\<close> phases wait on the condition variable.\<close>

datatype phase =
    Idle
  | PrepCheck | PrepAsleep | Preparing
  | ExecEnter | ExecCheck | ExecAsleep | Executing

definition wake :: "phase \<Rightarrow> phase" where
  "wake p = (case p of PrepAsleep \<Rightarrow> PrepCheck | ExecAsleep \<Rightarrow> ExecCheck | _ \<Rightarrow> p)"

definition notify_all :: "bool \<Rightarrow> phase list \<Rightarrow> phase list" where
  "notify_all b ps = (if b then map wake ps else ps)"

record system =
  coord_of :: coord
  threads :: "phase list"

definition initial_system :: "nat \<Rightarrow> system" where
  "initial_system n = \<lparr> coord_of = initial_coord, threads = replicate n Idle \<rparr>"

inductive step :: "system \<Rightarrow> system \<Rightarrow> bool" where
  call_prepare:
    "i < length ps \<Longrightarrow> ps ! i = Idle \<Longrightarrow>
     step \<lparr> coord_of = st, threads = ps \<rparr> \<lparr> coord_of = st, threads = ps[i := PrepCheck] \<rparr>"
| prepare_sleeps:
    "i < length ps \<Longrightarrow> ps ! i = PrepCheck \<Longrightarrow> preparation_blocked st \<Longrightarrow>
     step \<lparr> coord_of = st, threads = ps \<rparr> \<lparr> coord_of = st, threads = ps[i := PrepAsleep] \<rparr>"
| prepare_admitted:
    "i < length ps \<Longrightarrow> ps ! i = PrepCheck \<Longrightarrow> \<not> preparation_blocked st \<Longrightarrow>
     admit_preparation st = Some st' \<Longrightarrow>
     step \<lparr> coord_of = st, threads = ps \<rparr> \<lparr> coord_of = st', threads = ps[i := Preparing] \<rparr>"
| prepare_dropped:
    "i < length ps \<Longrightarrow> ps ! i = Preparing \<Longrightarrow> drop_preparation st = Some (st', notify) \<Longrightarrow>
     step \<lparr> coord_of = st, threads = ps \<rparr>
          \<lparr> coord_of = st', threads = notify_all notify (ps[i := Idle]) \<rparr>"
| call_exclusive:
    "i < length ps \<Longrightarrow> ps ! i = Idle \<Longrightarrow>
     step \<lparr> coord_of = st, threads = ps \<rparr> \<lparr> coord_of = st, threads = ps[i := ExecEnter] \<rparr>"
| exclusive_queues_and_sleeps:
    "i < length ps \<Longrightarrow> ps ! i = ExecEnter \<Longrightarrow> queue_executor st = Some st' \<Longrightarrow>
     exclusive_blocked st' \<Longrightarrow>
     step \<lparr> coord_of = st, threads = ps \<rparr> \<lparr> coord_of = st', threads = ps[i := ExecAsleep] \<rparr>"
| exclusive_queues_and_enters:
    "i < length ps \<Longrightarrow> ps ! i = ExecEnter \<Longrightarrow> queue_executor st = Some st' \<Longrightarrow>
     \<not> exclusive_blocked st' \<Longrightarrow>
     step \<lparr> coord_of = st, threads = ps \<rparr>
          \<lparr> coord_of = admit_executor st', threads = ps[i := Executing] \<rparr>"
| exclusive_sleeps:
    "i < length ps \<Longrightarrow> ps ! i = ExecCheck \<Longrightarrow> exclusive_blocked st \<Longrightarrow>
     step \<lparr> coord_of = st, threads = ps \<rparr> \<lparr> coord_of = st, threads = ps[i := ExecAsleep] \<rparr>"
| exclusive_enters:
    "i < length ps \<Longrightarrow> ps ! i = ExecCheck \<Longrightarrow> \<not> exclusive_blocked st \<Longrightarrow>
     step \<lparr> coord_of = st, threads = ps \<rparr>
          \<lparr> coord_of = admit_executor st, threads = ps[i := Executing] \<rparr>"
| exclusive_dropped:
    "i < length ps \<Longrightarrow> ps ! i = Executing \<Longrightarrow> drop_exclusive st = Some (st', notify) \<Longrightarrow>
     step \<lparr> coord_of = st, threads = ps \<rparr>
          \<lparr> coord_of = st', threads = notify_all notify (ps[i := Idle]) \<rparr>"
| spurious_wakeup:
    "i < length ps \<Longrightarrow>
     step \<lparr> coord_of = st, threads = ps \<rparr> \<lparr> coord_of = st, threads = ps[i := wake (ps ! i)] \<rparr>"

inductive reachable :: "nat \<Rightarrow> system \<Rightarrow> bool" for n where
  start: "reachable n (initial_system n)"
| next_step: "reachable n s \<Longrightarrow> step s t \<Longrightarrow> reachable n t"

section \<open>Counting threads\<close>

definition num :: "(phase \<Rightarrow> bool) \<Rightarrow> phase list \<Rightarrow> nat" where
  "num P ps = length (filter P ps)"

definition queued :: "phase \<Rightarrow> bool" where
  "queued p \<longleftrightarrow> p = ExecCheck \<or> p = ExecAsleep"

lemma queued_simps [simp]:
  "queued ExecCheck" "queued ExecAsleep" "\<not> queued Idle" "\<not> queued PrepCheck"
  "\<not> queued PrepAsleep" "\<not> queued Preparing" "\<not> queued ExecEnter" "\<not> queued Executing"
  by (simp_all add: queued_def)

lemma num_Cons: "num P (p # ps) = (if P p then 1 else 0) + num P ps"
  by (simp add: num_def)

lemma num_update_sum:
  "i < length ps \<Longrightarrow>
   num P (ps[i := p]) + (if P (ps ! i) then 1 else 0) = num P ps + (if P p then 1 else 0)"
proof (induction ps arbitrary: i)
  case (Cons q qs)
  show ?case
  proof (cases i)
    case (Suc j)
    then show ?thesis using Cons.IH [of j] Cons.prems by (simp add: num_Cons)
  qed (simp add: num_Cons)
qed simp

lemma num_update:
  "i < length ps \<Longrightarrow>
   num P (ps[i := p]) = num P ps + (if P p then 1 else 0) - (if P (ps ! i) then 1 else 0)"
  using num_update_sum [of i ps P p] by simp

lemma num_map_wake:
  "(\<And>p. P (wake p) \<longleftrightarrow> P p) \<Longrightarrow> num P (map wake ps) = num P ps"
  by (induction ps) (auto simp: num_def)

lemma num_notify_all:
  "(\<And>p. P (wake p) \<longleftrightarrow> P p) \<Longrightarrow> num P (notify_all b ps) = num P ps"
  by (simp add: notify_all_def num_map_wake)

lemma num_pos: "i < length ps \<Longrightarrow> P (ps ! i) \<Longrightarrow> num P ps > 0"
  by (auto simp: num_def filter_empty_conv intro!: bexI [of _ "ps ! i"])

lemma num_le_length: "num P ps \<le> length ps"
  by (simp add: num_def)

lemma num_less_length: "i < length ps \<Longrightarrow> \<not> P (ps ! i) \<Longrightarrow> num P ps < length ps"
  using length_filter_less [of "ps ! i" ps P] by (simp add: num_def)

lemma num_zero_iff: "num P ps = 0 \<longleftrightarrow> (\<forall>p\<in>set ps. \<not> P p)"
  by (simp add: num_def filter_empty_conv)

lemma wake_cases [simp]:
  "wake p = Preparing \<longleftrightarrow> p = Preparing"
  "wake p = Executing \<longleftrightarrow> p = Executing"
  "wake p \<noteq> PrepAsleep"
  "wake p \<noteq> ExecAsleep"
  "queued (wake p) \<longleftrightarrow> queued p"
  "PrepAsleep \<noteq> wake p"
  "ExecAsleep \<noteq> wake p"
  "(Preparing = wake p) = (Preparing = p)"
  "(Executing = wake p) = (Executing = p)"
  by (cases p; simp add: wake_def)+

lemma length_notify_all [simp]: "length (notify_all b ps) = length ps"
  by (simp add: notify_all_def)

lemma asleep_notify_all:
  "p \<in> set (notify_all b ps) \<Longrightarrow> p = PrepAsleep \<or> p = ExecAsleep \<Longrightarrow> \<not> b \<and> p \<in> set ps"
  by (auto simp: notify_all_def split: if_splits)

section \<open>The invariant\<close>

definition counts_agree :: "system \<Rightarrow> bool" where
  "counts_agree s \<longleftrightarrow>
     active_preparations (coord_of s) = num ((=) Preparing) (threads s) \<and>
     waiting_executors (coord_of s) = num queued (threads s) \<and>
     num ((=) Executing) (threads s) = (if executor_active (coord_of s) then 1 else 0)"

definition exclusive :: "system \<Rightarrow> bool" where
  "exclusive s \<longleftrightarrow> \<not> (executor_active (coord_of s) \<and> active_preparations (coord_of s) > 0)"

definition sleepers_blocked :: "system \<Rightarrow> bool" where
  "sleepers_blocked s \<longleftrightarrow>
     (PrepAsleep \<in> set (threads s) \<longrightarrow> preparation_blocked (coord_of s)) \<and>
     (ExecAsleep \<in> set (threads s) \<longrightarrow> exclusive_blocked (coord_of s))"

definition coord_inv :: "system \<Rightarrow> bool" where
  "coord_inv s \<longleftrightarrow> counts_agree s \<and> exclusive s \<and> sleepers_blocked s"

lemmas coord_defs =
  preparation_blocked_def exclusive_blocked_def admit_preparation_def queue_executor_def
  admit_executor_def drop_preparation_def drop_exclusive_def

lemma num_notify_phases:
  "num ((=) Preparing) (notify_all b ps) = num ((=) Preparing) ps"
  "num ((=) Executing) (notify_all b ps) = num ((=) Executing) ps"
  "num queued (notify_all b ps) = num queued ps"
  by (simp_all add: num_notify_all)

lemma step_counts_agree: "step s t \<Longrightarrow> counts_agree s \<Longrightarrow> counts_agree t"
proof (induction rule: step.induct)
  case (prepare_dropped i ps st st' notify)
  then show ?case using num_pos [of i ps "(=) Preparing"]
    by (auto simp: counts_agree_def coord_defs num_notify_phases num_update Let_def split: if_splits)
next
  case (exclusive_dropped i ps st st' notify)
  then show ?case using num_pos [of i ps "(=) Executing"]
    by (auto simp: counts_agree_def coord_defs num_notify_phases num_update split: if_splits)
next
  case (exclusive_enters i ps st)
  then show ?case using num_pos [of i ps queued]
    by (auto simp: counts_agree_def coord_defs num_update split: if_splits)
next
  case (spurious_wakeup i ps st)
  then show ?case
    using num_pos [of i ps "(=) Preparing"] num_pos [of i ps queued] num_pos [of i ps "(=) Executing"]
    by (simp add: counts_agree_def num_update)
qed (auto simp: counts_agree_def coord_defs num_update split: if_splits)

lemma step_exclusive: "step s t \<Longrightarrow> exclusive s \<Longrightarrow> exclusive t"
  by (induction rule: step.induct)
    (auto simp: exclusive_def coord_defs Let_def split: if_splits)

lemma in_set_update: "x \<in> set (ps[i := p]) \<Longrightarrow> x = p \<or> x \<in> set ps"
  using set_update_subset_insert [of ps i p] by auto

lemma step_sleepers_blocked:
  "step s t \<Longrightarrow> counts_agree s \<Longrightarrow> sleepers_blocked s \<Longrightarrow> sleepers_blocked t"
proof (induction rule: step.induct)
  case (prepare_dropped i ps st st' notify)
  then show ?case
    by (auto simp: sleepers_blocked_def coord_defs Let_def
        dest!: asleep_notify_all in_set_update split: if_splits)
next
  case (exclusive_dropped i ps st st' notify)
  then show ?case
    by (auto simp: sleepers_blocked_def coord_defs dest!: asleep_notify_all split: if_splits)
qed (auto simp: sleepers_blocked_def coord_defs dest!: in_set_update split: if_splits)

lemma reachable_inv: "reachable n s \<Longrightarrow> coord_inv s \<and> length (threads s) = n"
proof (induction rule: reachable.induct)
  case start
  then show ?case
    by (simp add: coord_inv_def counts_agree_def exclusive_def sleepers_blocked_def
        initial_system_def initial_coord_def num_def)
next
  case (next_step s t)
  then have "length (threads t) = length (threads s)" by (auto elim!: step.cases)
  with next_step show ?case
    unfolding coord_inv_def
    using step_counts_agree step_exclusive step_sleepers_blocked by metis
qed

section \<open>The contract of the coordinator\<close>

text \<open>What a client of an admission controller may rely on: shared leases and
  the exclusive guard never overlap, at most one guard is out, and nobody sleeps
  behind an open gate.\<close>

locale admission_control =
  fixes valid :: "'sys \<Rightarrow> bool"
    and shared_holders :: "'sys \<Rightarrow> nat"
    and exclusive_holders :: "'sys \<Rightarrow> nat"
    and sleeping :: "'sys \<Rightarrow> bool"
    and waiting_exclusive :: "'sys \<Rightarrow> nat"
  assumes one_executor: "valid s \<Longrightarrow> exclusive_holders s \<le> 1"
    and no_overlap: "valid s \<Longrightarrow> exclusive_holders s > 0 \<Longrightarrow> shared_holders s = 0"
    and sleep_behind_gate:
      "valid s \<Longrightarrow> sleeping s \<Longrightarrow>
       shared_holders s > 0 \<or> exclusive_holders s > 0 \<or> waiting_exclusive s > 0"
begin

lemma holders_exclude: "valid s \<Longrightarrow> shared_holders s > 0 \<Longrightarrow> exclusive_holders s = 0"
  using no_overlap [of s] by (cases "exclusive_holders s") auto

lemma holders_bounded: "valid s \<Longrightarrow> min (shared_holders s) 1 + exclusive_holders s \<le> 1"
  using one_executor [of s] no_overlap [of s] by (cases "exclusive_holders s") auto

end

interpretation coordinator: admission_control
  "reachable n" "\<lambda>s. num ((=) Preparing) (threads s)" "\<lambda>s. num ((=) Executing) (threads s)"
  "\<lambda>s. PrepAsleep \<in> set (threads s) \<or> ExecAsleep \<in> set (threads s)"
  "\<lambda>s. num queued (threads s)" for n
proof (unfold_locales, goal_cases)
  case (1 s)
  then show ?case by (auto dest!: reachable_inv simp: coord_inv_def counts_agree_def)
next
  case (2 s)
  then show ?case
    by (auto dest!: reachable_inv simp: coord_inv_def counts_agree_def exclusive_def split: if_splits)
next
  case (3 s)
  then show ?case
    by (auto dest!: reachable_inv simp: coord_inv_def counts_agree_def sleepers_blocked_def
        preparation_blocked_def exclusive_blocked_def)
qed

text \<open>A reachable state with a running executor, a preparation asleep behind it and a
  second executor queued.\<close>

definition executor_and_sleeper :: system where
  "executor_and_sleeper =
     \<lparr> coord_of = \<lparr> waiting_executors = 1, active_preparations = 0, executor_active = True \<rparr>,
       threads = [Executing, PrepAsleep, ExecAsleep] \<rparr>"

lemma executor_and_sleeper_reachable: "reachable 3 executor_and_sleeper"
proof -
  let ?c = "\<lparr> waiting_executors = 0, active_preparations = 0, executor_active = True \<rparr>"
  have "reachable 3 \<lparr> coord_of = initial_coord, threads = [Idle, Idle, Idle] \<rparr>"
    using start [of 3] by (simp add: initial_system_def numeral_3_eq_3)
  then have "reachable 3 \<lparr> coord_of = initial_coord, threads = [ExecEnter, Idle, Idle] \<rparr>"
    by (rule next_step) (use call_exclusive [of 0 "[Idle, Idle, Idle]"] in simp)
  then have "reachable 3 \<lparr> coord_of = ?c, threads = [Executing, Idle, Idle] \<rparr>"
    by (rule next_step)
      (use exclusive_queues_and_enters [of 0 "[ExecEnter, Idle, Idle]" initial_coord] in
        \<open>simp add: coord_defs initial_coord_def u64_max_def\<close>)
  then have "reachable 3 \<lparr> coord_of = ?c, threads = [Executing, PrepCheck, Idle] \<rparr>"
    by (rule next_step) (use call_prepare [of 1 "[Executing, Idle, Idle]"] in simp)
  then have "reachable 3 \<lparr> coord_of = ?c, threads = [Executing, PrepAsleep, Idle] \<rparr>"
    by (rule next_step)
      (use prepare_sleeps [of 1 "[Executing, PrepCheck, Idle]" ?c] in \<open>simp add: coord_defs\<close>)
  then have "reachable 3 \<lparr> coord_of = ?c, threads = [Executing, PrepAsleep, ExecEnter] \<rparr>"
    by (rule next_step) (use call_exclusive [of 2 "[Executing, PrepAsleep, Idle]"] in simp)
  then show ?thesis
    by (rule next_step)
      (use exclusive_queues_and_sleeps [of 2 "[Executing, PrepAsleep, ExecEnter]" ?c] in
        \<open>simp add: coord_defs u64_max_def executor_and_sleeper_def\<close>)
qed

section \<open>Properties\<close>

text \<open>C16: In every state that any number of threads can reach through the coordinator, a
  thread that holds the exclusive lifecycle guard is the only one that does, and no
  thread holds a preparation lease at the same time; the coordinator's counters are
  exactly the numbers of admitted preparations and queued executors.\<close>

theorem mutual_exclusion:
  assumes "reachable n s"
  shows "num ((=) Executing) (threads s) + min (num ((=) Preparing) (threads s)) 1 \<le> 1 \<and>
    active_preparations (coord_of s) = num ((=) Preparing) (threads s) \<and>
    waiting_executors (coord_of s) = num queued (threads s) \<and>
    executor_active (coord_of s) = (num ((=) Executing) (threads s) = 1)"
  using coordinator.holders_bounded [OF assms] reachable_inv [OF assms]
  by (auto simp: coord_inv_def counts_agree_def add.commute)

theorem mutual_exclusion_witness:
  "let s = executor_and_sleeper in num ((=) Executing) (threads s) + min (num ((=) Preparing) (threads s)) 1 \<le> 1"
  unfolding Let_def using mutual_exclusion [OF executor_and_sleeper_reachable] by blast

text \<open>C17: No wake-up is lost.  Whenever a thread sleeps on the condition variable its gate is
  still closed, and so some other thread holds a lease, holds the guard, or is an
  executor that is already awake and about to look; if every lease and guard has been
  dropped and every thread is idle or asleep, nobody is asleep.\<close>

theorem no_lost_wakeup:
  assumes "reachable n s" and "i < n" "threads s ! i = PrepAsleep \<or> threads s ! i = ExecAsleep"
  shows "\<exists>j<n. j \<noteq> i \<and> threads s ! j \<in> {Preparing, Executing, ExecCheck}"
proof -
  note inv = reachable_inv [OF assms(1)]
  have gate: "sleepers_blocked s" "counts_agree s" "length (threads s) = n"
    using inv by (auto simp: coord_inv_def)
  have busy: "\<exists>p\<in>set (threads s). p = Preparing \<or> p = Executing \<or> p = ExecCheck"
  proof (rule ccontr)
    assume "\<not> ?thesis"
    then have none: "num ((=) Preparing) (threads s) = 0" "num ((=) Executing) (threads s) = 0"
      and nc: "ExecCheck \<notin> set (threads s)"
      by (auto simp: num_zero_iff)
    then have open_gate: "active_preparations (coord_of s) = 0" "\<not> executor_active (coord_of s)"
      using gate(2) by (auto simp: counts_agree_def split: if_splits)
    then have "ExecAsleep \<notin> set (threads s)"
      using gate(1) by (auto simp: sleepers_blocked_def exclusive_blocked_def)
    moreover from this have "waiting_executors (coord_of s) = 0"
      using nc gate(2) by (auto simp: counts_agree_def num_zero_iff queued_def)
    then have "PrepAsleep \<notin> set (threads s)"
      using gate(1) open_gate by (auto simp: sleepers_blocked_def preparation_blocked_def)
    ultimately show False using assms(2,3) gate(3) nth_mem [of i "threads s"] by metis
  qed
  then obtain j where "j < n" "threads s ! j \<in> {Preparing, Executing, ExecCheck}"
    using gate(3) by (auto simp: in_set_conv_nth)
  then show ?thesis using assms(3) by (intro exI [of _ j]) auto
qed

theorem no_lost_wakeup_witness:
  "\<exists>j<3. j \<noteq> 1 \<and> threads executor_and_sleeper ! j \<in> {Preparing, Executing, ExecCheck}"
  by (rule no_lost_wakeup [OF executor_and_sleeper_reachable])
    (simp_all add: executor_and_sleeper_def)

text \<open>C18: Queued executors have preference and no assertion of the coordinator can fail.  From a
  reachable state of at most \<open>usize::MAX\<close> threads, no step admits a further preparation
  while an executor is queued; admission and queueing never hit their overflow assertion;
  and both drops find the lease or guard they release.\<close>

theorem writer_preference_and_assertions:
  assumes "reachable n s" "n \<le> u64_max"
  shows "(\<forall>t. step s t \<and> waiting_executors (coord_of s) > 0 \<longrightarrow>
            num ((=) Preparing) (threads t) \<le> num ((=) Preparing) (threads s)) \<and>
    (\<forall>i<n. (threads s ! i = PrepCheck \<longrightarrow> admit_preparation (coord_of s) \<noteq> None) \<and>
           (threads s ! i = ExecEnter \<longrightarrow> queue_executor (coord_of s) \<noteq> None) \<and>
           (threads s ! i = Preparing \<longrightarrow> drop_preparation (coord_of s) \<noteq> None) \<and>
           (threads s ! i = Executing \<longrightarrow> drop_exclusive (coord_of s) \<noteq> None))"
proof (intro conjI allI impI)
  note inv = reachable_inv [OF assms(1)]
  have agree: "counts_agree s" and len: "length (threads s) = n"
    using inv by (auto simp: coord_inv_def)
  fix t assume t: "step s t \<and> waiting_executors (coord_of s) > 0"
  have "active_preparations (coord_of t) \<le> active_preparations (coord_of s)"
    using t by (auto elim!: step.cases simp: coord_defs Let_def split: if_splits)
  moreover have "counts_agree t" using step_counts_agree t agree by blast
  ultimately show "num ((=) Preparing) (threads t) \<le> num ((=) Preparing) (threads s)"
    using agree by (simp add: counts_agree_def)
next
  note inv = reachable_inv [OF assms(1)]
  have agree: "counts_agree s" and len: "length (threads s) = n"
    using inv by (auto simp: coord_inv_def)
  fix i assume i: "i < n"
  show "threads s ! i = PrepCheck \<Longrightarrow> admit_preparation (coord_of s) \<noteq> None"
    using num_less_length [of i "threads s" "(=) Preparing"] i len agree assms(2)
    by (simp add: admit_preparation_def counts_agree_def)
  show "threads s ! i = ExecEnter \<Longrightarrow> queue_executor (coord_of s) \<noteq> None"
    using num_less_length [of i "threads s" queued] i len agree assms(2)
    by (simp add: queue_executor_def counts_agree_def)
  show "threads s ! i = Preparing \<Longrightarrow> drop_preparation (coord_of s) \<noteq> None"
    using num_pos [of i "threads s" "(=) Preparing"] i len agree
    by (simp add: drop_preparation_def counts_agree_def)
  show "threads s ! i = Executing \<Longrightarrow> drop_exclusive (coord_of s) \<noteq> None"
    using num_pos [of i "threads s" "(=) Executing"] i len agree
    by (auto simp: drop_exclusive_def counts_agree_def split: if_splits)
qed

theorem writer_preference_and_assertions_witness:
  "drop_exclusive (coord_of executor_and_sleeper) \<noteq> None"
proof -
  have "threads executor_and_sleeper ! 0 = Executing" by (simp add: executor_and_sleeper_def)
  moreover have "(3 :: nat) \<le> u64_max" "(0 :: nat) < 3" by (simp_all add: u64_max_def)
  ultimately show ?thesis
    using writer_preference_and_assertions [OF executor_and_sleeper_reachable] by blast
qed

end
