(* ===== verification/Stats.thy ===== *)
theory Stats
  imports Prelude
begin

text \<open>
  Scalar values and per-column file statistics (\<open>crates/storage/src/stats.rs\<close>).
  A 64-bit float is its bit pattern, with the IEEE comparison of Rust's operators and
  the total order of \<open>total_cmp\<close> defined on it.  The aggregate and comparison kernels
  belong to the Arrow library: they are a record of functions, and what the code relies
  on from their documentation is the predicate \<open>arrow_spec\<close>.
\<close>

section \<open>Floats\<close>

type_synonym f64 = "64 word"

definition f64_mag :: "f64 \<Rightarrow> nat" where
  "f64_mag b = unat b mod 2 ^ 63"

definition f64_neg :: "f64 \<Rightarrow> bool" where
  "f64_neg b \<longleftrightarrow> 2 ^ 63 \<le> unat b"

definition f64_is_nan :: "f64 \<Rightarrow> bool" where
  "f64_is_nan b \<longleftrightarrow> f64_mag b > 0x7FF0000000000000"

text \<open>The sign-magnitude key orders all values that are not NaN as IEEE does; both zeros
  have key 0.  The total-order key separates the zeros and places the NaNs outside.\<close>

definition f64_key :: "f64 \<Rightarrow> int" where
  "f64_key b = (if f64_neg b then - int (f64_mag b) else int (f64_mag b))"

definition f64_total :: "f64 \<Rightarrow> int" where
  "f64_total b = (if f64_neg b then - int (f64_mag b) - 1 else int (f64_mag b))"

datatype ordering = Less | Equal | Greater

definition ord_of :: "'a :: linorder \<Rightarrow> 'a \<Rightarrow> ordering" where
  "ord_of a b = (if a < b then Less else if a = b then Equal else Greater)"

text \<open>Single-precision floats have the same layout at 32 bits.\<close>

type_synonym f32 = "32 word"

definition f32_mag :: "f32 \<Rightarrow> nat" where
  "f32_mag b = unat b mod 2 ^ 31"

definition f32_neg :: "f32 \<Rightarrow> bool" where
  "f32_neg b \<longleftrightarrow> 2 ^ 31 \<le> unat b"

definition f32_is_nan :: "f32 \<Rightarrow> bool" where
  "f32_is_nan b \<longleftrightarrow> f32_mag b > 0x7F800000"

definition f32_is_finite :: "f32 \<Rightarrow> bool" where
  "f32_is_finite b \<longleftrightarrow> f32_mag b < 0x7F800000"

definition f32_key :: "f32 \<Rightarrow> int" where
  "f32_key b = (if f32_neg b then - int (f32_mag b) else int (f32_mag b))"

definition f32_total :: "f32 \<Rightarrow> int" where
  "f32_total b = (if f32_neg b then - int (f32_mag b) - 1 else int (f32_mag b))"

definition f32_total_cmp :: "f32 \<Rightarrow> f32 \<Rightarrow> ordering" where
  "f32_total_cmp a b = ord_of (f32_total a) (f32_total b)"

definition f32_lt :: "f32 \<Rightarrow> f32 \<Rightarrow> bool" where
  "f32_lt a b \<longleftrightarrow> \<not> f32_is_nan a \<and> \<not> f32_is_nan b \<and> f32_key a < f32_key b"

definition f64_partial_cmp :: "f64 \<Rightarrow> f64 \<Rightarrow> ordering option" where
  "f64_partial_cmp a b =
     (if f64_is_nan a \<or> f64_is_nan b then None else Some (ord_of (f64_key a) (f64_key b)))"

definition f64_total_cmp :: "f64 \<Rightarrow> f64 \<Rightarrow> ordering" where
  "f64_total_cmp a b = ord_of (f64_total a) (f64_total b)"

section \<open>Values\<close>

datatype val = Int64 int | Float64 f64 | Utf8 string

fun val_discriminant :: "val \<Rightarrow> nat" where
  "val_discriminant (Int64 _) = 0"
| "val_discriminant (Float64 _) = 1"
| "val_discriminant (Utf8 _) = 2"

text \<open>The derived \<open>PartialOrd\<close>: the variant first, then the payload.\<close>

fun val_partial_cmp :: "val \<Rightarrow> val \<Rightarrow> ordering option" where
  "val_partial_cmp (Int64 a) (Int64 b) = Some (ord_of a b)"
| "val_partial_cmp (Float64 a) (Float64 b) = f64_partial_cmp a b"
| "val_partial_cmp (Utf8 a) (Utf8 b) = Some (ord_of a b)"
| "val_partial_cmp a b = Some (ord_of (val_discriminant a) (val_discriminant b))"

definition val_lt :: "val \<Rightarrow> val \<Rightarrow> bool" where
  "val_lt a b \<longleftrightarrow> val_partial_cmp a b = Some Less"

definition val_le :: "val \<Rightarrow> val \<Rightarrow> bool" where
  "val_le a b \<longleftrightarrow> val_partial_cmp a b \<in> {Some Less, Some Equal}"

definition val_gt :: "val \<Rightarrow> val \<Rightarrow> bool" where
  "val_gt a b \<longleftrightarrow> val_partial_cmp a b = Some Greater"

definition val_ge :: "val \<Rightarrow> val \<Rightarrow> bool" where
  "val_ge a b \<longleftrightarrow> val_partial_cmp a b \<in> {Some Greater, Some Equal}"

record column_stats =
  min_v :: val
  max_v :: val

section \<open>Arrays and kernels\<close>

text \<open>A column of a record batch.  A float column keeps its value buffer, which has an entry
  under a null slot too.  A vector column is a fixed-size list of single-precision floats; the
  flag says whether its child field is nullable.  Columns of other types carry no statistics.\<close>

datatype column =
    Int64Col "int option list"
  | Float64Col "(bool \<times> f64) list"
  | Utf8Col "string option list"
  | BooleanCol "bool option list"
  | UInt64Col "nat option list"
  | VectorCol bool "f32 list option list"
  | OtherCol nat

type_synonym batch = "(string \<times> column) list"

definition valid_f64 :: "(bool \<times> f64) list \<Rightarrow> f64 option list" where
  "valid_f64 xs = map (\<lambda>(valid, v). if valid then Some v else None) xs"

datatype cmp_op = OpEq | OpLt | OpLtEq | OpGt | OpGtEq

record arrow_kernels =
  k_min_i64 :: "int option list \<Rightarrow> int option"
  k_max_i64 :: "int option list \<Rightarrow> int option"
  k_min_f64 :: "f64 option list \<Rightarrow> f64 option"
  k_max_f64 :: "f64 option list \<Rightarrow> f64 option"
  k_min_utf8 :: "string option list \<Rightarrow> string option"
  k_max_utf8 :: "string option list \<Rightarrow> string option"
  k_compare :: "cmp_op \<Rightarrow> column \<Rightarrow> val \<Rightarrow> bool option list option"
  k_and_kleene :: "bool option list \<Rightarrow> bool option list \<Rightarrow> bool option list"
  k_or_kleene :: "bool option list \<Rightarrow> bool option list \<Rightarrow> bool option list"

definition is_least :: "('a \<Rightarrow> 'a \<Rightarrow> bool) \<Rightarrow> 'a option list \<Rightarrow> 'a option \<Rightarrow> bool" where
  "is_least le xs r \<longleftrightarrow>
     (case r of
        None \<Rightarrow> \<forall>x. Some x \<notin> set xs
      | Some m \<Rightarrow> Some m \<in> set xs \<and> (\<forall>x. Some x \<in> set xs \<longrightarrow> le m x))"

text \<open>Natural order with every NaN above every other value, as the aggregate kernels document.\<close>

definition f64_nan_high_le :: "f64 \<Rightarrow> f64 \<Rightarrow> bool" where
  "f64_nan_high_le a b \<longleftrightarrow> f64_is_nan b \<or> (\<not> f64_is_nan a \<and> f64_key a \<le> f64_key b)"

definition cmp_holds :: "cmp_op \<Rightarrow> ordering \<Rightarrow> bool" where
  "cmp_holds oper r =
     (case oper of OpEq \<Rightarrow> r = Equal | OpLt \<Rightarrow> r = Less | OpLtEq \<Rightarrow> r \<noteq> Greater
      | OpGt \<Rightarrow> r = Greater | OpGtEq \<Rightarrow> r \<noteq> Less)"

text \<open>The comparison kernels: a null slot gives null, floats are compared by the IEEE total
  order, and a literal of another type than the column is refused.\<close>

fun kernel_compare :: "cmp_op \<Rightarrow> column \<Rightarrow> val \<Rightarrow> bool option list option" where
  "kernel_compare oper (Int64Col xs) (Int64 v) = Some (map (map_option (\<lambda>x. cmp_holds oper (ord_of x v))) xs)"
| "kernel_compare oper (Float64Col xs) (Float64 v) =
     Some (map (map_option (\<lambda>x. cmp_holds oper (f64_total_cmp x v))) (valid_f64 xs))"
| "kernel_compare oper (Utf8Col xs) (Utf8 v) = Some (map (map_option (\<lambda>x. cmp_holds oper (ord_of x v))) xs)"
| "kernel_compare oper c v = None"

fun kleene_and :: "bool option \<Rightarrow> bool option \<Rightarrow> bool option" where
  "kleene_and (Some False) _ = Some False"
| "kleene_and _ (Some False) = Some False"
| "kleene_and (Some True) (Some True) = Some True"
| "kleene_and _ _ = None"

fun kleene_or :: "bool option \<Rightarrow> bool option \<Rightarrow> bool option" where
  "kleene_or (Some True) _ = Some True"
| "kleene_or _ (Some True) = Some True"
| "kleene_or (Some False) (Some False) = Some False"
| "kleene_or _ _ = None"

definition arrow_spec :: "arrow_kernels \<Rightarrow> bool" where
  "arrow_spec K \<longleftrightarrow>
     (\<forall>xs. is_least (\<le>) xs (k_min_i64 K xs)) \<and> (\<forall>xs. is_least (\<ge>) xs (k_max_i64 K xs)) \<and>
     (\<forall>xs. is_least f64_nan_high_le xs (k_min_f64 K xs)) \<and>
     (\<forall>xs. is_least (\<lambda>a b. f64_nan_high_le b a) xs (k_max_f64 K xs)) \<and>
     (\<forall>xs. is_least (\<le>) xs (k_min_utf8 K xs)) \<and> (\<forall>xs. is_least (\<ge>) xs (k_max_utf8 K xs)) \<and>
     (\<forall>oper c v. k_compare K oper c v = kernel_compare oper c v) \<and>
     (\<forall>xs ys. length xs = length ys \<longrightarrow>
        k_and_kleene K xs ys = map2 kleene_and xs ys \<and> k_or_kleene K xs ys = map2 kleene_or xs ys)"

section \<open>Statistics\<close>

definition bound_step :: "(f64 \<times> f64) option \<Rightarrow> f64 \<Rightarrow> (f64 \<times> f64) option" where
  "bound_step bounds v =
     (if f64_is_nan v then bounds
      else Some (case bounds of
          None \<Rightarrow> (v, v)
        | Some (mn, mx) \<Rightarrow>
            (if f64_partial_cmp v mn = Some Less then v else mn,
             if f64_partial_cmp v mx = Some Greater then v else mx)))"

definition float64_bounds_ignoring_nan :: "f64 list \<Rightarrow> (f64 \<times> f64) option" where
  "float64_bounds_ignoring_nan xs = foldl bound_step None xs"

definition pair_stats :: "('a \<Rightarrow> val) \<Rightarrow> 'a option \<Rightarrow> 'a option \<Rightarrow> column_stats option" where
  "pair_stats C mn mx =
     (case (mn, mx) of (Some a, Some b) \<Rightarrow> Some \<lparr> min_v = C a, max_v = C b \<rparr> | _ \<Rightarrow> None)"

fun column_entry :: "arrow_kernels \<Rightarrow> column \<Rightarrow> column_stats option" where
  "column_entry K (Int64Col xs) = pair_stats Int64 (k_min_i64 K xs) (k_max_i64 K xs)"
| "column_entry K (Float64Col xs) =
     (case k_max_f64 K (valid_f64 xs) of
        None \<Rightarrow> None
      | Some mx \<Rightarrow>
          if f64_is_nan mx
          then (case float64_bounds_ignoring_nan (map snd xs) of
                  None \<Rightarrow> None
                | Some (a, b) \<Rightarrow> Some \<lparr> min_v = Float64 a, max_v = Float64 b \<rparr>)
          else (case k_min_f64 K (valid_f64 xs) of
                  None \<Rightarrow> None
                | Some mn \<Rightarrow> Some \<lparr> min_v = Float64 mn, max_v = Float64 mx \<rparr>))"
| "column_entry K (Utf8Col xs) = pair_stats Utf8 (k_min_utf8 K xs) (k_max_utf8 K xs)"
| "column_entry K _ = None"

type_synonym stats = "string \<rightharpoonup> column_stats"

definition compute_stats :: "arrow_kernels \<Rightarrow> batch \<Rightarrow> stats" where
  "compute_stats K b =
     foldl (\<lambda>st (name, col). case column_entry K col of None \<Rightarrow> st | Some e \<Rightarrow> st(name \<mapsto> e)) Map.empty b"

section \<open>Comparisons\<close>

lemma ord_of_simps [simp]:
  "ord_of a b = Less \<longleftrightarrow> a < b" "ord_of a b = Equal \<longleftrightarrow> a = b" "ord_of a b = Greater \<longleftrightarrow> b < a"
  by (auto simp: ord_of_def)

lemma f64_partial_cmp_iff:
  "f64_partial_cmp a b = Some Less \<longleftrightarrow> \<not> f64_is_nan a \<and> \<not> f64_is_nan b \<and> f64_key a < f64_key b"
  "f64_partial_cmp a b = Some Greater \<longleftrightarrow> \<not> f64_is_nan a \<and> \<not> f64_is_nan b \<and> f64_key b < f64_key a"
  "f64_partial_cmp a b = Some Equal \<longleftrightarrow> \<not> f64_is_nan a \<and> \<not> f64_is_nan b \<and> f64_key a = f64_key b"
  by (auto simp: f64_partial_cmp_def)

lemma kleene_and_True: "kleene_and a b = Some True \<longleftrightarrow> a = Some True \<and> b = Some True"
  by (cases "(a, b)" rule: kleene_and.cases) auto

lemma kleene_or_True: "kleene_or a b = Some True \<longleftrightarrow> a = Some True \<or> b = Some True"
  by (cases "(a, b)" rule: kleene_or.cases) auto

text \<open>The bounds a column's statistics promise: every present value lies between them under
  the comparison operators of the language, NaN apart.\<close>

definition bounds_ok :: "column_stats \<Rightarrow> column \<Rightarrow> bool" where
  "bounds_ok e c \<longleftrightarrow>
     (case c of
        Int64Col xs \<Rightarrow> \<exists>a b. min_v e = Int64 a \<and> max_v e = Int64 b \<and>
          (\<forall>x. Some x \<in> set xs \<longrightarrow> a \<le> x \<and> x \<le> b)
      | Float64Col xs \<Rightarrow> \<exists>a b. min_v e = Float64 a \<and> max_v e = Float64 b \<and>
          \<not> f64_is_nan a \<and> \<not> f64_is_nan b \<and>
          (\<forall>x. Some x \<in> set (valid_f64 xs) \<longrightarrow> \<not> f64_is_nan x \<longrightarrow> f64_key a \<le> f64_key x \<and> f64_key x \<le> f64_key b)
      | Utf8Col xs \<Rightarrow> \<exists>a b. min_v e = Utf8 a \<and> max_v e = Utf8 b \<and>
          (\<forall>x. Some x \<in> set xs \<longrightarrow> a \<le> x \<and> x \<le> b)
      | _ \<Rightarrow> False)"

definition bound_inv :: "(f64 \<times> f64) option \<Rightarrow> f64 set \<Rightarrow> bool" where
  "bound_inv r S \<longleftrightarrow>
     (case r of
        None \<Rightarrow> \<forall>x\<in>S. f64_is_nan x
      | Some (a, b) \<Rightarrow> \<not> f64_is_nan a \<and> \<not> f64_is_nan b \<and>
          (\<forall>x\<in>S. \<not> f64_is_nan x \<longrightarrow> f64_key a \<le> f64_key x \<and> f64_key x \<le> f64_key b))"

lemma bound_step_inv:
  assumes "bound_inv r S"
  shows "bound_inv (bound_step r v) (insert v S)"
proof (cases "f64_is_nan v")
  case True
  then show ?thesis using assms by (auto simp: bound_step_def bound_inv_def split: option.splits)
next
  case False
  show ?thesis
  proof (cases r)
    case None
    then show ?thesis using assms False by (simp add: bound_step_def bound_inv_def)
  next
    case (Some ab)
    obtain a b where ab: "r = Some (a, b)" using Some by (cases ab) auto
    then have i: "\<not> f64_is_nan a" "\<not> f64_is_nan b"
      "\<And>x. x \<in> S \<Longrightarrow> \<not> f64_is_nan x \<Longrightarrow> f64_key a \<le> f64_key x \<and> f64_key x \<le> f64_key b"
      using assms by (auto simp: bound_inv_def)
    let ?a = "if f64_partial_cmp v a = Some Less then v else a"
    let ?b = "if f64_partial_cmp v b = Some Greater then v else b"
    have "f64_key ?a \<le> f64_key a" "f64_key ?a \<le> f64_key v" "f64_key b \<le> f64_key ?b"
      "f64_key v \<le> f64_key ?b" "\<not> f64_is_nan ?a" "\<not> f64_is_nan ?b"
      using i False by (auto simp: f64_partial_cmp_iff)
    then have "bound_inv (Some (?a, ?b)) (insert v S)"
      using i(3) by (auto simp: bound_inv_def dest: order_trans simp del: if_split)
        (meson order_trans)+
    then show ?thesis using ab False by (simp add: bound_step_def)
  qed
qed

lemma bounds_ignoring_nan_inv: "bound_inv (float64_bounds_ignoring_nan xs) (set xs)"
proof -
  have "bound_inv r S \<Longrightarrow> bound_inv (foldl bound_step r xs) (S \<union> set xs)" for r S
    by (induction xs arbitrary: r S) (simp, metis Un_insert_left Un_insert_right bound_step_inv foldl_Cons list.simps(15))
  from this [of None "{}"] show ?thesis
    by (simp add: float64_bounds_ignoring_nan_def bound_inv_def)
qed

lemma valid_f64_buffer: "Some x \<in> set (valid_f64 xs) \<Longrightarrow> x \<in> set (map snd xs)"
  by (force simp: valid_f64_def split: if_splits)

lemma pair_stats_Some:
  "pair_stats C mn mx = Some e \<longleftrightarrow> (\<exists>a b. mn = Some a \<and> mx = Some b \<and> e = \<lparr> min_v = C a, max_v = C b \<rparr>)"
  by (auto simp: pair_stats_def split: option.splits)

lemma arrow_specD:
  assumes "arrow_spec K"
  shows "is_least (\<le>) xs (k_min_i64 K xs)" "is_least (\<ge>) xs (k_max_i64 K xs)"
    "is_least f64_nan_high_le fs (k_min_f64 K fs)" "is_least (\<lambda>a b. f64_nan_high_le b a) fs (k_max_f64 K fs)"
    "is_least (\<le>) ss (k_min_utf8 K ss)" "is_least (\<ge>) ss (k_max_utf8 K ss)"
    "k_compare K oper c v = kernel_compare oper c v"
    "length ps = length qs \<Longrightarrow> k_and_kleene K ps qs = map2 kleene_and ps qs"
    "length ps = length qs \<Longrightarrow> k_or_kleene K ps qs = map2 kleene_or ps qs"
  using assms by (simp_all add: arrow_spec_def)

lemma column_entry_bounds:
  assumes K: "arrow_spec K" and e: "column_entry K c = Some e"
  shows "bounds_ok e c"
proof (cases c)
  case (Int64Col xs)
  then obtain a b where ab: "k_min_i64 K xs = Some a" "k_max_i64 K xs = Some b"
    "e = \<lparr> min_v = Int64 a, max_v = Int64 b \<rparr>"
    using e by (auto simp: pair_stats_Some)
  have "a \<le> x \<and> x \<le> b" if "Some x \<in> set xs" for x
    using that arrow_specD(1,2) [OF K, of xs] ab by (simp add: is_least_def)
  then show ?thesis using Int64Col ab by (simp add: bounds_ok_def)
next
  case (Utf8Col xs)
  then obtain a b where ab: "k_min_utf8 K xs = Some a" "k_max_utf8 K xs = Some b"
    "e = \<lparr> min_v = Utf8 a, max_v = Utf8 b \<rparr>"
    using e by (auto simp: pair_stats_Some)
  have "a \<le> x \<and> x \<le> b" if "Some x \<in> set xs" for x
    using that arrow_specD(5,6) [OF K, of xs] ab by (simp add: is_least_def)
  then show ?thesis using Utf8Col ab by (simp add: bounds_ok_def)
next
  case (Float64Col xs)
  obtain mx where mx: "k_max_f64 K (valid_f64 xs) = Some mx"
    using e Float64Col by (auto split: option.splits)
  have hi: "f64_nan_high_le x mx" if "Some x \<in> set (valid_f64 xs)" for x
    using that arrow_specD(4) [OF K, of "valid_f64 xs"] mx by (simp add: is_least_def)
  show ?thesis
  proof (cases "f64_is_nan mx")
    case True
    then obtain a b where ab: "float64_bounds_ignoring_nan (map snd xs) = Some (a, b)"
      "e = \<lparr> min_v = Float64 a, max_v = Float64 b \<rparr>"
      using e Float64Col mx by (auto split: option.splits)
    then show ?thesis
      using bounds_ignoring_nan_inv [of "map snd xs"] Float64Col valid_f64_buffer [of _ xs]
      by (auto simp: bounds_ok_def bound_inv_def)
  next
    case False
    then obtain mn where mn: "k_min_f64 K (valid_f64 xs) = Some mn"
      "e = \<lparr> min_v = Float64 mn, max_v = Float64 mx \<rparr>"
      using e Float64Col mx by (auto split: option.splits)
    have lo: "f64_nan_high_le mn x" if "Some x \<in> set (valid_f64 xs)" for x
      using that arrow_specD(3) [OF K, of "valid_f64 xs"] mn(1) by (simp add: is_least_def)
    have "Some mx \<in> set (valid_f64 xs)"
      using arrow_specD(4) [OF K, of "valid_f64 xs"] mx by (simp add: is_least_def)
    then have "\<not> f64_is_nan mn" using lo False by (auto simp: f64_nan_high_le_def)
    then show ?thesis using Float64Col mn(2) False hi lo
      by (auto simp: bounds_ok_def f64_nan_high_le_def)
  qed
qed (use e in auto)

lemma compute_stats_entry:
  assumes "distinct (map fst b)" "compute_stats K b name = Some e"
  shows "\<exists>c. (name, c) \<in> set b \<and> column_entry K c = Some e"
proof -
  have "foldl (\<lambda>st (name, col). case column_entry K col of None \<Rightarrow> st | Some e \<Rightarrow> st(name \<mapsto> e)) m b name = Some e
    \<Longrightarrow> m name = Some e \<or> (\<exists>c. (name, c) \<in> set b \<and> column_entry K c = Some e)" for m
  proof (induction b arbitrary: m)
    case (Cons x b)
    then show ?case by (cases x) (fastforce split: option.splits if_splits)
  qed simp
  from this [of Map.empty] assms(2) show ?thesis by (simp add: compute_stats_def)
qed

text \<open>Statistics computed from a batch bound every column they mention.\<close>

definition stats_ok :: "stats \<Rightarrow> batch \<Rightarrow> bool" where
  "stats_ok st b \<longleftrightarrow> (\<forall>name e c. st name = Some e \<longrightarrow> map_of b name = Some c \<longrightarrow> bounds_ok e c)"

lemma compute_stats_ok:
  assumes "arrow_spec K" "distinct (map fst b)"
  shows "stats_ok (compute_stats K b) b"
proof -
  have "bounds_ok e c" if s: "compute_stats K b name = Some e" and c: "map_of b name = Some c" for name e c
  proof -
    obtain c' where "(name, c') \<in> set b" "column_entry K c' = Some e"
      using compute_stats_entry [OF assms(2) s] by blast
    then show ?thesis using c assms column_entry_bounds by (simp add: map_of_eq_Some_iff)
  qed
  then show ?thesis by (simp add: stats_ok_def)
qed

end
