(* ===== verification/FloatArith.thy ===== *)
theory FloatArith
  imports Stats
    "HOL-Library.Log_Nat"
begin

text \<open>
  Double-precision arithmetic on bit patterns, as the language defines it: the exact rational
  result rounded to nearest, ties to even.  Used by the aggregates (\<open>+\<close>, \<open>*\<close>, \<open>/\<close>,
  \<open>min\<close>, \<open>max\<close>, integer conversion) and by the conversion of JSON integers to floats.
  An operation that yields NaN yields the canonical quiet one.
\<close>

definition F64_INFINITY_MAG :: nat where
  "F64_INFINITY_MAG = 0x7FF0000000000000"

definition F64_NAN :: f64 where
  "F64_NAN = 0x7FF8000000000000"

definition f64_is_inf :: "f64 \<Rightarrow> bool" where
  "f64_is_inf b \<longleftrightarrow> f64_mag b = F64_INFINITY_MAG"

definition f64_is_finite :: "f64 \<Rightarrow> bool" where
  "f64_is_finite b \<longleftrightarrow> f64_mag b < F64_INFINITY_MAG"

definition f64_bits :: "bool \<Rightarrow> nat \<Rightarrow> f64" where
  "f64_bits negative mag = word_of_nat ((if negative then 2 ^ 63 else 0) + mag)"

text \<open>Significand and binary exponent of a finite value.\<close>

definition f64_significand :: "f64 \<Rightarrow> nat" where
  "f64_significand b =
     (let f = f64_mag b mod 2 ^ 52 in if f64_mag b div 2 ^ 52 = 0 then f else f + 2 ^ 52)"

definition f64_exponent :: "f64 \<Rightarrow> int" where
  "f64_exponent b = max 1 (int (f64_mag b div 2 ^ 52)) - 1075"

text \<open>The magnitude bits of the double nearest to the positive ratio \<open>p / q\<close>.\<close>

definition f64_round :: "nat \<Rightarrow> nat \<Rightarrow> nat" where
  "f64_round p q =
     (let l = int (floorlog 2 p) - int (floorlog 2 q);
          lg = (if q * 2 ^ nat l \<le> p * 2 ^ nat (- l) then l else l - 1);
          e = max (- 1074) (lg - 52);
          num = p * 2 ^ nat (- e);
          den = q * 2 ^ nat e;
          d = num div den;
          r = num mod den;
          m = (if den < 2 * r \<or> (2 * r = den \<and> odd d) then d + 1 else d)
      in min F64_INFINITY_MAG (nat (e + 1074) * 2 ^ 52 + m))"

definition f64_of_ratio :: "bool \<Rightarrow> nat \<Rightarrow> nat \<Rightarrow> f64" where
  "f64_of_ratio negative p q = f64_bits negative (if p = 0 then 0 else f64_round p q)"

definition f64_of_int :: "int \<Rightarrow> f64" where
  "f64_of_int i = f64_of_ratio (i < 0) (nat \<bar>i\<bar>) 1"

definition f64_add :: "f64 \<Rightarrow> f64 \<Rightarrow> f64" where
  "f64_add a b =
     (if f64_is_nan a \<or> f64_is_nan b then F64_NAN
      else if f64_is_inf a then (if f64_is_inf b \<and> f64_neg a \<noteq> f64_neg b then F64_NAN else a)
      else if f64_is_inf b then b
      else let e = min (f64_exponent a) (f64_exponent b);
               x = int (f64_significand a) * 2 ^ nat (f64_exponent a - e);
               y = int (f64_significand b) * 2 ^ nat (f64_exponent b - e);
               s = (if f64_neg a then - x else x) + (if f64_neg b then - y else y)
           in if s = 0 then f64_bits (f64_neg a \<and> f64_neg b) 0
              else f64_of_ratio (s < 0) (nat \<bar>s\<bar> * 2 ^ nat e) (2 ^ nat (- e)))"

definition f64_div :: "f64 \<Rightarrow> f64 \<Rightarrow> f64" where
  "f64_div a b =
     (let negative = (f64_neg a \<noteq> f64_neg b);
          e = f64_exponent a - f64_exponent b
      in if f64_is_nan a \<or> f64_is_nan b then F64_NAN
         else if f64_is_inf a then (if f64_is_inf b then F64_NAN else f64_bits negative F64_INFINITY_MAG)
         else if f64_is_inf b then f64_bits negative 0
         else if f64_mag b = 0
              then (if f64_mag a = 0 then F64_NAN else f64_bits negative F64_INFINITY_MAG)
         else f64_of_ratio negative (f64_significand a * 2 ^ nat e) (f64_significand b * 2 ^ nat (- e)))"

definition f64_mul :: "f64 \<Rightarrow> f64 \<Rightarrow> f64" where
  "f64_mul a b =
     (let negative = (f64_neg a \<noteq> f64_neg b);
          e = f64_exponent a + f64_exponent b
      in if f64_is_nan a \<or> f64_is_nan b then F64_NAN
         else if f64_is_inf a \<or> f64_is_inf b
              then (if f64_mag a = 0 \<or> f64_mag b = 0 then F64_NAN else f64_bits negative F64_INFINITY_MAG)
         else f64_of_ratio negative (f64_significand a * f64_significand b * 2 ^ nat e) (2 ^ nat (- e)))"

text \<open>\<open>ceil\<close> followed by the saturating conversion to an unsigned 64-bit integer.\<close>

definition f64_ceil_to_nat :: "f64 \<Rightarrow> nat" where
  "f64_ceil_to_nat b =
     (if f64_is_nan b \<or> f64_neg b then 0
      else if f64_is_inf b then u64_max
      else let d = 2 ^ nat (- f64_exponent b)
           in min u64_max ((f64_significand b * 2 ^ nat (f64_exponent b) + d - 1) div d))"

text \<open>\<open>f64::min\<close> and \<open>f64::max\<close>: the other operand when one is NaN.\<close>

definition f64_min :: "f64 \<Rightarrow> f64 \<Rightarrow> f64" where
  "f64_min a b = (if f64_is_nan a then b else if f64_is_nan b then a else if f64_key b < f64_key a then b else a)"

definition f64_max :: "f64 \<Rightarrow> f64 \<Rightarrow> f64" where
  "f64_max a b = (if f64_is_nan a then b else if f64_is_nan b then a else if f64_key a < f64_key b then b else a)"

lemma f64_bits_zero [simp]: "f64_bits False 0 = 0"
  by (simp add: f64_bits_def)

end
