(* ===== verification/Backend.thy ===== *)
theory Backend
  imports Prelude
begin

text \<open>
  The storage seam (\<open>crates/storage/src/backend/mod.rs\<close>, \<open>backend/owner.rs\<close> and
  \<open>error.rs\<close>): the error type, the \<open>Backend\<close> trait as a record of operations over
  an arbitrary state, the contract its implementations promise as a locale, and
  the \<open>StorageOwner\<close> that places a dataset's keys under a validated namespace
  prefix and again satisfies the contract.
\<close>

section \<open>Errors\<close>

datatype io_kind = NotFound | IoExists | InvalidInput | InvalidData | Unsupported | OtherIo

datatype storage_error =
    Io io_kind
  | Arrow
  | Serde
  | EmptyDataFile
  | CorruptManifest
  | LegacyFormatNeedsMigration
  | UnknownSchemaVersion nat
  | MigrationSourceVersion nat nat
  | MigrationUnsupportedDirection nat nat
  | MigrationUnsupported nat nat
  | MigrationIncompatibleType
  | MigrationLossyConversion
  | SchemaVersionChanged nat nat
  | MissingRowIdHighWater
  | CorruptDataFile
  | DurabilityUnsupported
  | AlreadyExists string
  | PublicationIndeterminate

section \<open>The trait\<close>

type_synonym object_meta = "string \<times> nat"

record 's backend =
  be_get :: "string \<Rightarrow> ('s, storage_error, bytes) effect"
  be_get_range :: "string \<Rightarrow> nat \<Rightarrow> nat \<Rightarrow> ('s, storage_error, bytes) effect"
  be_put :: "string \<Rightarrow> bytes \<Rightarrow> ('s, storage_error, unit) effect"
  be_put_if_absent :: "string \<Rightarrow> bytes \<Rightarrow> ('s, storage_error, unit) effect"
  be_list :: "string \<Rightarrow> ('s, storage_error, object_meta list) effect"
  be_delete :: "string \<Rightarrow> ('s, storage_error, unit) effect"

text \<open>Names an interrupted local write may leave behind: a last path segment that
  starts with \<open>.tmp-\<close>.\<close>

definition temporary :: "string \<Rightarrow> bool" where
  "temporary k \<longleftrightarrow> prefix ''.tmp-'' (last (split_on (CHR ''/'') k))"

section \<open>Keys\<close>

definition unsafe_segment :: "string \<Rightarrow> bool" where
  "unsafe_segment part \<longleftrightarrow> part = [] \<or> part = ''.'' \<or> part = ''..''"

definition validate_key_components :: "string \<Rightarrow> bool \<Rightarrow> (storage_error, unit) result" where
  "validate_key_components key allow_empty =
     (if (\<not> allow_empty \<and> key = []) \<or> prefix ''/'' key \<or> CHR 0x5C \<in> set key
      then Inl (Io InvalidInput)
      else if list_ex unsafe_segment (split_on (CHR ''/'') key) then Inl (Io InvalidInput)
      else Inr ())"

definition valid_key :: "string \<Rightarrow> bool" where
  "valid_key k \<longleftrightarrow> validate_key_components k False = Inr ()"

section \<open>The contract\<close>

text \<open>\<open>content s k\<close> is what a reader of state \<open>s\<close> would find under \<open>k\<close>.  Every
  operation may fail at any time; the laws say what is left behind.  A failed
  publication leaves either the old object or the complete new one.\<close>

locale backend_contract =
  fixes be :: "'s backend"
    and content :: "'s \<Rightarrow> string \<Rightarrow> bytes option"
    and good :: "'s \<Rightarrow> bool"
  assumes content_valid: "good s \<Longrightarrow> content s k \<noteq> None \<Longrightarrow> valid_key k"
    and get_frame: "good s \<Longrightarrow> be_get be k s = (r, t) \<Longrightarrow> good t \<and> content t = content s"
    and get_ok: "good s \<Longrightarrow> valid_key k \<Longrightarrow> be_get be k s = (Inr b, t) \<Longrightarrow> content s k = Some b"
    and get_range_frame: "good s \<Longrightarrow> be_get_range be k i j s = (r, t) \<Longrightarrow> good t \<and> content t = content s"
    and get_range_ok:
      "good s \<Longrightarrow> valid_key k \<Longrightarrow> be_get_range be k i j s = (Inr b, t) \<Longrightarrow>
       \<exists>w. content s k = Some w \<and> i \<le> j \<and> j \<le> length w \<and> b = take (j - i) (drop i w)"
    and list_frame: "good s \<Longrightarrow> be_list be p s = (rl, t) \<Longrightarrow> good t \<and> content t = content s"
    and list_sorted: "good s \<Longrightarrow> be_list be p s = (Inr ms, t) \<Longrightarrow> sorted (map fst ms) \<and> distinct (map fst ms)"
    and list_exact:
      "good s \<Longrightarrow> be_list be p s = (Inr ms, t) \<Longrightarrow>
       (k, n) \<in> set ms \<longleftrightarrow> prefix p k \<and> (\<exists>b. content s k = Some b \<and> n = length b)"
    and put_frame:
      "good s \<Longrightarrow> valid_key k \<Longrightarrow> \<not> temporary k \<Longrightarrow> be_put be k b s = (ru, t) \<Longrightarrow>
       good t \<and> (content t k = content s k \<or> content t k = Some b) \<and>
       (\<forall>k'. k' \<noteq> k \<longrightarrow> \<not> temporary k' \<longrightarrow> content t k' = content s k')"
    and put_ok:
      "good s \<Longrightarrow> valid_key k \<Longrightarrow> \<not> temporary k \<Longrightarrow> be_put be k b s = (Inr u, t) \<Longrightarrow> content t k = Some b"
    and put_if_absent_frame:
      "good s \<Longrightarrow> valid_key k \<Longrightarrow> \<not> temporary k \<Longrightarrow> be_put_if_absent be k b s = (ru, t) \<Longrightarrow>
       good t \<and> (content t k = content s k \<or> content s k = None \<and> content t k = Some b) \<and>
       (\<forall>k'. k' \<noteq> k \<longrightarrow> \<not> temporary k' \<longrightarrow> content t k' = content s k')"
    and put_if_absent_ok:
      "good s \<Longrightarrow> valid_key k \<Longrightarrow> \<not> temporary k \<Longrightarrow> be_put_if_absent be k b s = (Inr u, t) \<Longrightarrow>
       content s k = None \<and> content t k = Some b"
    and put_if_absent_exists:
      "good s \<Longrightarrow> valid_key k \<Longrightarrow> \<not> temporary k \<Longrightarrow>
       be_put_if_absent be k b s = (Inl (AlreadyExists x), t) \<Longrightarrow> content t k = content s k"
    and delete_frame:
      "good s \<Longrightarrow> valid_key k \<Longrightarrow> be_delete be k s = (ru, t) \<Longrightarrow>
       good t \<and> (content t k = content s k \<or> content t k = None) \<and>
       (\<forall>k'. k' \<noteq> k \<longrightarrow> content t k' = content s k')"
    and delete_ok:
      "good s \<Longrightarrow> valid_key k \<Longrightarrow> be_delete be k s = (Inr u, t) \<Longrightarrow>
       content s k \<noteq> None \<and> content t k = None"
begin

text \<open>An object published once is never replaced by a later publication under the
  same key, whatever fails.\<close>

lemma put_if_absent_immutable:
  assumes "good s" "valid_key k" "\<not> temporary k" "\<not> temporary k'" "content s k' = Some w"
    and "be_put_if_absent be k b s = (ru, t)"
  shows "content t k' = Some w"
  using put_if_absent_frame [OF assms(1-3) assms(6)] assms(4,5) by (cases "k' = k") auto

lemma list_keys:
  "good s \<Longrightarrow> be_list be p s = (Inr ms, t) \<Longrightarrow> k \<in> fst ` set ms \<longleftrightarrow> prefix p k \<and> content s k \<noteq> None"
proof -
  assume a: "good s" "be_list be p s = (Inr ms, t)"
  have "k \<in> fst ` set ms \<longleftrightarrow> (\<exists>n. (k, n) \<in> set ms)" by force
  also have "\<dots> \<longleftrightarrow> prefix p k \<and> content s k \<noteq> None"
    unfolding list_exact [OF a] by auto
  finally show ?thesis .
qed

end

section \<open>Owned keys\<close>

definition dataset_prefix_new :: "string \<Rightarrow> (storage_error, string) result" where
  "dataset_prefix_new p =
     (if p = [] then Inr p else bindE (validate_key_components p True) (\<lambda>_. Inr p))"

definition dataset_key_new :: "string \<Rightarrow> (storage_error, string) result" where
  "dataset_key_new k = bindE (validate_key_components k False) (\<lambda>_. Inr k)"

definition manifest_object_key :: "nat \<Rightarrow> string" where
  "manifest_object_key version = ''_versions/'' @ fmt020 version @ ''.manifest''"

definition data_object_key :: "string \<Rightarrow> (storage_error, string) result" where
  "data_object_key name = bindE (validate_key_components name False) (\<lambda>_. Inr (''data/'' @ name))"

definition row_id_high_water_key :: "nat \<Rightarrow> string" where
  "row_id_high_water_key end_id = ''_meta/row-id-high-water/'' @ fmt020 end_id @ ''.reservation''"

definition prefixed :: "string \<Rightarrow> string \<Rightarrow> string" where
  "prefixed pre sfx =
     (if pre = [] then sfx else if sfx = [] then pre else pre @ ''/'' @ sfx)"

fun strip_namespace :: "string \<Rightarrow> object_meta list \<Rightarrow> (storage_error, object_meta list) result" where
  "strip_namespace namespace [] = Inr []"
| "strip_namespace namespace ((k, n) # ms) =
     bindE (if namespace = [] then Inr k
            else case strip_prefix namespace k of
                   None \<Rightarrow> Inl (Io InvalidData)
                 | Some k' \<Rightarrow> (case strip_prefix ''/'' k' of
                                None \<Rightarrow> Inl (Io InvalidData)
                              | Some k'' \<Rightarrow> Inr k''))
       (\<lambda>key. bindE (strip_namespace namespace ms) (\<lambda>rest. Inr ((key, n) # rest)))"

definition owner_list ::
  "'s backend \<Rightarrow> string \<Rightarrow> string \<Rightarrow> ('s, storage_error, object_meta list) effect" where
  "owner_list be pre sfx =
     bindSE (liftSE (if sfx \<noteq> [] then validate_key_components sfx True else Inr ()))
       (\<lambda>_. bindSE (be_list be (prefixed pre sfx)) (\<lambda>ms. liftSE (strip_namespace pre ms)))"

text \<open>The owner's view of its backend, with the same operations again.\<close>

definition owned :: "'s backend \<Rightarrow> string \<Rightarrow> 's backend" where
  "owned be pre =
     \<lparr> be_get = (\<lambda>k. be_get be (prefixed pre k)),
       be_get_range = (\<lambda>k. be_get_range be (prefixed pre k)),
       be_put = (\<lambda>k. be_put be (prefixed pre k)),
       be_put_if_absent = (\<lambda>k. be_put_if_absent be (prefixed pre k)),
       be_list = owner_list be pre,
       be_delete = (\<lambda>k. be_delete be (prefixed pre k)) \<rparr>"

definition owned_content ::
  "('s \<Rightarrow> string \<Rightarrow> bytes option) \<Rightarrow> string \<Rightarrow> 's \<Rightarrow> string \<Rightarrow> bytes option" where
  "owned_content content pre s k = (if k = [] then None else content s (prefixed pre k))"

lemma valid_key_iff:
  "valid_key k \<longleftrightarrow> k \<noteq> [] \<and> CHR 0x5C \<notin> set k \<and> (\<forall>x\<in>set (split_on (CHR ''/'') k). \<not> unsafe_segment x)"
proof (cases k)
  case (Cons c cs)
  have "prefix ''/'' k \<Longrightarrow> [] \<in> set (split_on (CHR ''/'') k)"
    using Cons by (auto simp: prefix_def)
  then show ?thesis
    using Cons by (auto simp: valid_key_def validate_key_components_def list_ex_iff unsafe_segment_def)
qed (simp add: valid_key_def validate_key_components_def)

lemma valid_prefix_iff:
  "dataset_prefix_new p = Inr q \<longleftrightarrow> q = p \<and> (p = [] \<or> valid_key p)"
  by (auto simp: dataset_prefix_new_def valid_key_def validate_key_components_def result_simps split: if_splits)

lemma valid_key_join:
  "p \<noteq> [] \<Longrightarrow> k \<noteq> [] \<Longrightarrow> valid_key (p @ CHR ''/'' # k) \<longleftrightarrow> valid_key p \<and> valid_key k"
  by (auto simp: valid_key_iff split_on_append_sep_gen)

lemma prefixed_nonempty: "k \<noteq> [] \<Longrightarrow> prefixed pre k = (if pre = [] then k else pre @ CHR ''/'' # k)"
  by (simp add: prefixed_def)

lemma prefixed_inject: "j \<noteq> [] \<Longrightarrow> k \<noteq> [] \<Longrightarrow> prefixed pre j = prefixed pre k \<longleftrightarrow> j = k"
  by (simp add: prefixed_nonempty)

lemma temporary_prefixed: "k \<noteq> [] \<Longrightarrow> temporary (prefixed pre k) = temporary k"
  by (simp add: prefixed_nonempty temporary_def split_on_append_sep_gen)

lemma append_le_append: "xs @ ys \<le> xs @ zs \<longleftrightarrow> ys \<le> (zs :: 'a :: linorder list)"
  by (induction xs) auto

lemma strip_namespace_ok:
  "strip_namespace ns ms = Inr rs \<Longrightarrow> ns \<noteq> [] \<Longrightarrow> ms = map (\<lambda>(k, n). (ns @ CHR ''/'' # k, n)) rs"
  by (induction ns ms arbitrary: rs rule: strip_namespace.induct)
    (auto simp: result_simps strip_prefix_Some_iff split: option.splits if_splits)

lemma strip_namespace_empty: "strip_namespace [] ms = Inr ms"
  by (induction ms) auto

text \<open>A backend that keeps its contract keeps it again under every valid namespace.\<close>

locale owned_backend = backend_contract +
  fixes pre :: string
  assumes valid_prefix: "dataset_prefix_new pre = Inr pre"
begin

lemma pre_valid: "pre = [] \<or> valid_key pre"
  using valid_prefix by (simp add: valid_prefix_iff)

lemma valid_prefixed: "valid_key k \<Longrightarrow> valid_key (prefixed pre k)"
  using pre_valid valid_key_join [of pre k]
  by (cases "pre = []") (auto simp: prefixed_def valid_key_iff [of "[]"])

lemma valid_key_nonempty: "valid_key k \<Longrightarrow> k \<noteq> []"
  by (auto simp: valid_key_iff)

lemma owned_content_valid: "valid_key k \<Longrightarrow> owned_content content pre s k = content s (prefixed pre k)"
  by (auto simp: owned_content_def valid_key_iff)

lemma owner_list_ok:
  assumes "good s" "owner_list be pre sfx s = (Inr ms, t)"
  obtains ls where "be_list be (prefixed pre sfx) s = (Inr ls, t)"
    and "ls = map (\<lambda>(k, n). (if pre = [] then k else pre @ CHR ''/'' # k, n)) ms"
proof -
  obtain ls where l: "be_list be (prefixed pre sfx) s = (Inr ls, t)" "strip_namespace pre ls = Inr ms"
    using assms(2) by (auto simp: owner_list_def result_simps)
  show ?thesis
  proof (cases "pre = []")
    case True
    then have "ls = ms" using l(2) by (simp add: strip_namespace_empty)
    then show ?thesis using that [OF l(1)] True by simp
  next
    case False
    then show ?thesis using that [OF l(1)] strip_namespace_ok [OF l(2)] by simp
  qed
qed

lemma owner_list_frame:
  assumes "good s" "owner_list be pre sfx s = (rl, t)"
  shows "good t \<and> content t = content s"
proof -
  have "s = t \<or> (\<exists>r'. be_list be (prefixed pre sfx) s = (r', t))"
    using assms(2)
    by (auto simp: owner_list_def bindSE_def split: prod.splits sum.splits if_splits)
  then show ?thesis using list_frame [OF assms(1)] assms(1) by blast
qed

lemma owner_list_exact:
  assumes "good s" "owner_list be pre sfx s = (Inr ms, t)"
  shows "(k, n) \<in> set ms \<longleftrightarrow>
    prefix sfx k \<and> (\<exists>b. owned_content content pre s k = Some b \<and> n = length b)"
proof -
  obtain ls where l: "be_list be (prefixed pre sfx) s = (Inr ls, t)"
    and ls: "ls = map (\<lambda>(k, n). (if pre = [] then k else pre @ CHR ''/'' # k, n)) ms"
    by (rule owner_list_ok [OF assms])
  note exact = list_exact [OF assms(1) l]
  have pk: "prefixed pre k = (if pre = [] then k else pre @ CHR ''/'' # k)" if "k \<noteq> []"
    using that by (simp add: prefixed_def)
  show ?thesis
  proof (cases "k = []")
    case True
    have "([], n) \<notin> set ms"
    proof
      assume "([], n) \<in> set ms"
      then have "(if pre = [] then [] else pre @ ''/'', n) \<in> set ls" using ls by force
      then have "content s (if pre = [] then [] else pre @ ''/'') \<noteq> None" using exact by force
      then have "valid_key (if pre = [] then [] else pre @ ''/'')" by (rule content_valid [OF assms(1)])
      then show False
        using split_on_append_sep_gen [of "CHR ''/''" pre "[]"]
        by (auto simp: valid_key_iff unsafe_segment_def split: if_splits)
    qed
    then show ?thesis using True by (simp add: owned_content_def)
  next
    case False
    have "(k, n) \<in> set ms \<longleftrightarrow> (prefixed pre k, n) \<in> set ls"
      using ls pk [OF False] by (auto simp: image_iff split: if_splits intro!: bexI [of _ "(k, n)"])
    also have "\<dots> \<longleftrightarrow> prefix (prefixed pre sfx) (prefixed pre k) \<and>
        (\<exists>b. content s (prefixed pre k) = Some b \<and> n = length b)"
      by (rule exact)
    also have "prefix (prefixed pre sfx) (prefixed pre k) \<longleftrightarrow> prefix sfx k"
      using False by (auto simp: prefixed_def)
    finally show ?thesis using False by (simp add: owned_content_def)
  qed
qed

lemma owner_list_sorted:
  assumes "good s" "owner_list be pre sfx s = (Inr ms, t)"
  shows "sorted (map fst ms) \<and> distinct (map fst ms)"
proof -
  obtain ls where l: "be_list be (prefixed pre sfx) s = (Inr ls, t)"
    and ls: "ls = map (\<lambda>(k, n). (if pre = [] then k else pre @ CHR ''/'' # k, n)) ms"
    by (rule owner_list_ok [OF assms])
  have fst: "map fst ls = map (\<lambda>k. if pre = [] then k else pre @ CHR ''/'' # k) (map fst ms)"
    unfolding ls by (simp add: case_prod_unfold comp_def)
  note srt = list_sorted [OF assms(1) l, unfolded fst]
  show ?thesis
  proof (cases "pre = []")
    case True
    then show ?thesis using srt by simp
  next
    case False
    then show ?thesis
      using srt by (auto simp: distinct_map sorted_map append_le_append intro: inj_on_imageI2)
  qed
qed

end

sublocale owned_backend \<subseteq> own: backend_contract "owned be pre" "owned_content content pre" good
proof (unfold_locales, goal_cases)
  case (1 s k)
  then have "k \<noteq> []" "content s (prefixed pre k) \<noteq> None" by (auto simp: owned_content_def split: if_splits)
  then show ?case
    using content_valid [OF 1(1), of "prefixed pre k"] valid_key_join [of pre k]
    by (auto simp: prefixed_def split: if_splits)
next
  case (2 s k r t)
  then show ?case using get_frame [OF 2(1)] by (auto simp: owned_def owned_content_def fun_eq_iff)
next
  case (3 s k b t)
  then show ?case using get_ok [OF 3(1) valid_prefixed [OF 3(2)]]
    by (simp add: owned_def owned_content_valid)
next
  case (4 s k i j r t)
  then show ?case using get_range_frame [OF 4(1)] by (auto simp: owned_def owned_content_def fun_eq_iff)
next
  case (5 s k i j b t)
  then show ?case using get_range_ok [OF 5(1) valid_prefixed [OF 5(2)]]
    by (simp add: owned_def owned_content_valid)
next
  case (6 s p rl t)
  then show ?case using owner_list_frame [of s p rl t] by (auto simp: owned_def owned_content_def fun_eq_iff)
next
  case (7 s p ms t)
  then show ?case using owner_list_sorted [of s p ms t] by (simp add: owned_def)
next
  case (8 s p ms t k n)
  then show ?case using owner_list_exact [of s p ms t k n] by (simp add: owned_def)
next
  case (9 s k b ru t)
  then show ?case
    using put_frame [OF 9(1) valid_prefixed [OF 9(2)], of b ru t] valid_key_nonempty [OF 9(2)]
    by (auto simp: owned_def owned_content_def temporary_prefixed prefixed_inject)
next
  case (10 s k b u t)
  then show ?case
    using put_ok [OF 10(1) valid_prefixed [OF 10(2)], of b u t] valid_key_nonempty [OF 10(2)]
    by (auto simp: owned_def owned_content_def temporary_prefixed)
next
  case (11 s k b ru t)
  then show ?case
    using put_if_absent_frame [OF 11(1) valid_prefixed [OF 11(2)], of b ru t] valid_key_nonempty [OF 11(2)]
    by (auto simp: owned_def owned_content_def temporary_prefixed prefixed_inject)
next
  case (12 s k b u t)
  then show ?case
    using put_if_absent_ok [OF 12(1) valid_prefixed [OF 12(2)], of b u t] valid_key_nonempty [OF 12(2)]
    by (auto simp: owned_def owned_content_def temporary_prefixed)
next
  case (13 s k b x t)
  then show ?case
    using put_if_absent_exists [OF 13(1) valid_prefixed [OF 13(2)], of b x t] valid_key_nonempty [OF 13(2)]
    by (auto simp: owned_def owned_content_def temporary_prefixed)
next
  case (14 s k ru t)
  then show ?case
    using delete_frame [OF 14(1) valid_prefixed [OF 14(2)], of ru t] valid_key_nonempty [OF 14(2)]
    by (auto simp: owned_def owned_content_def prefixed_inject)
next
  case (15 s k u t)
  then show ?case
    using delete_ok [OF 15(1) valid_prefixed [OF 15(2)], of u t] valid_key_nonempty [OF 15(2)]
    by (auto simp: owned_def owned_content_def)
qed

end
