(* ===== verification/Json.thy ===== *)
theory Json
  imports FloatArith Backend
begin

text \<open>
  JSON trees and the bounds the manifest reader puts on them
  (\<open>crates/storage/src/manifest.rs\<close>: canonical form, depth and size limits, and the
  streaming preflight with its node budget).  The JSON library itself is a record of a parser
  and a printer; strings are their bytes.
\<close>

section \<open>Trees\<close>

datatype json_number = PosInt nat | NegInt int | JFloat f64

datatype json =
    JNull
  | JBool bool
  | JNum json_number
  | JStr string
  | JArr "json list"
  | JObj "(string \<times> json) list"

record json_codec =
  jc_parse :: "bytes \<Rightarrow> json option"
  jc_print :: "json \<Rightarrow> bytes"

text \<open>An object read into the library's map keeps one member per name, the last one, in name
  order; collecting members into a \<open>BTreeMap\<close> does the same.\<close>

definition json_map :: "(string \<times> 'a) list \<Rightarrow> (string \<times> 'a) list" where
  "json_map kvs = map (\<lambda>k. (k, the (map_of (rev kvs) k))) (sort (remdups (map fst kvs)))"

fun json_value :: "json \<Rightarrow> json" where
  "json_value (JArr xs) = JArr (map json_value xs)"
| "json_value (JObj kvs) = JObj (json_map (map (\<lambda>(k, v). (k, json_value v)) kvs))"
| "json_value j = j"

fun canonicalize_json :: "json \<Rightarrow> json" where
  "canonicalize_json (JArr xs) = JArr (map canonicalize_json xs)"
| "canonicalize_json (JObj kvs) = JObj (json_map (map (\<lambda>(k, v). (k, canonicalize_json v)) kvs))"
| "canonicalize_json j = j"

section \<open>Limits\<close>

definition MAX_MANIFEST_BYTES :: nat where
  "MAX_MANIFEST_BYTES = 64 * 1024 * 1024"

definition MAX_MANIFEST_JSON_DEPTH :: nat where
  "MAX_MANIFEST_JSON_DEPTH = 128"

definition MAX_MANIFEST_OBJECT_FIELDS :: nat where
  "MAX_MANIFEST_OBJECT_FIELDS = 4096"

definition MAX_MANIFEST_STRING_BYTES :: nat where
  "MAX_MANIFEST_STRING_BYTES = 1024 * 1024"

definition MAX_MANIFEST_ARRAY_ITEMS :: nat where
  "MAX_MANIFEST_ARRAY_ITEMS = 1000000"

definition MAX_MANIFEST_DATA_FILES :: nat where
  "MAX_MANIFEST_DATA_FILES = 900000"

definition MAX_MANIFEST_SEGMENTS :: nat where
  "MAX_MANIFEST_SEGMENTS = 1000000"

definition MAX_MANIFEST_TOMBSTONES :: nat where
  "MAX_MANIFEST_TOMBSTONES = 10000000"

definition MAX_MANIFEST_SCHEMA_IPC_BYTES :: nat where
  "MAX_MANIFEST_SCHEMA_IPC_BYTES = 16 * 1024 * 1024"

definition MAX_MANIFEST_PRE_PARSE_NODES :: nat where
  "MAX_MANIFEST_PRE_PARSE_NODES = 1000000"

definition child_array_limit :: "string \<Rightarrow> nat" where
  "child_array_limit key =
     (if key = ''tombstones'' then MAX_MANIFEST_TOMBSTONES
      else if key = ''schema_ipc'' then MAX_MANIFEST_SCHEMA_IPC_BYTES
      else if key = ''data_files'' then MAX_MANIFEST_DATA_FILES
      else if key = ''segments'' then MAX_MANIFEST_SEGMENTS
      else MAX_MANIFEST_ARRAY_ITEMS)"

text \<open>Every violation is the same error, so the checks are a predicate and its result.\<close>

fun json_within_limits :: "nat \<Rightarrow> nat \<Rightarrow> json \<Rightarrow> bool" where
  "json_within_limits depth array_limit j \<longleftrightarrow>
     depth \<le> MAX_MANIFEST_JSON_DEPTH \<and>
     (case j of
        JArr xs \<Rightarrow> length xs \<le> array_limit \<and> list_all (json_within_limits (depth + 1) array_limit) xs
      | JObj kvs \<Rightarrow>
          length kvs \<le> MAX_MANIFEST_OBJECT_FIELDS \<and>
          list_all (\<lambda>(key, v). length key \<le> MAX_MANIFEST_STRING_BYTES \<and>
            json_within_limits (depth + 1) (child_array_limit key) v) kvs
      | JStr s \<Rightarrow> length s \<le> MAX_MANIFEST_STRING_BYTES
      | _ \<Rightarrow> True)"

declare json_within_limits.simps [simp del]

definition validate_json_limits :: "json \<Rightarrow> nat \<Rightarrow> nat \<Rightarrow> (storage_error, unit) result" where
  "validate_json_limits j depth array_limit =
     (if json_within_limits depth array_limit j then Inr () else Inl CorruptManifest)"

section \<open>Preflight\<close>

text \<open>The visitor threads the number of values seen; \<open>None\<close> is its error.\<close>

definition visit :: "nat \<Rightarrow> nat option" where
  "visit nodes = (if nodes + 1 > MAX_MANIFEST_PRE_PARSE_NODES then None else Some (nodes + 1))"

fun preflight_node :: "nat \<Rightarrow> json \<Rightarrow> nat \<Rightarrow> nat option"
  and visit_seq :: "nat \<Rightarrow> nat \<Rightarrow> json list \<Rightarrow> nat \<Rightarrow> nat option"
  and visit_map :: "nat \<Rightarrow> (string \<times> json) list \<Rightarrow> nat \<Rightarrow> nat option" where
  "preflight_node array_limit (JArr xs) nodes =
     (case visit nodes of None \<Rightarrow> None | Some n \<Rightarrow> visit_seq array_limit 0 xs n)"
| "preflight_node array_limit (JObj kvs) nodes =
     (case visit nodes of None \<Rightarrow> None | Some n \<Rightarrow> visit_map 0 kvs n)"
| "preflight_node array_limit (JStr s) nodes =
     (case visit nodes of None \<Rightarrow> None
      | Some n \<Rightarrow> if length s > MAX_MANIFEST_STRING_BYTES then None else Some n)"
| "preflight_node array_limit JNull nodes = visit nodes"
| "preflight_node array_limit (JBool b) nodes = visit nodes"
| "preflight_node array_limit (JNum x) nodes = visit nodes"
| "visit_seq array_limit items [] nodes = Some nodes"
| "visit_seq array_limit items (x # xs) nodes =
     (case preflight_node array_limit x nodes of None \<Rightarrow> None
      | Some n \<Rightarrow> if items + 1 > array_limit then None else visit_seq array_limit (items + 1) xs n)"
| "visit_map seen [] nodes = Some nodes"
| "visit_map seen ((key, v) # kvs) nodes =
     (if seen + 1 > MAX_MANIFEST_OBJECT_FIELDS then None
      else if length key > MAX_MANIFEST_STRING_BYTES then None
      else case preflight_node (child_array_limit key) v nodes of None \<Rightarrow> None
      | Some n \<Rightarrow> visit_map (seen + 1) kvs n)"

definition preflight_manifest_json :: "json_codec \<Rightarrow> bytes \<Rightarrow> (storage_error, unit) result" where
  "preflight_manifest_json C b =
     (case jc_parse C b of
        None \<Rightarrow> Inl CorruptManifest
      | Some j \<Rightarrow> (case preflight_node MAX_MANIFEST_ARRAY_ITEMS j 0 of None \<Rightarrow> Inl CorruptManifest | Some _ \<Rightarrow> Inr ()))"

section \<open>Maps\<close>

lemma map_of_tabulate: "k \<in> set ks \<Longrightarrow> map_of (map (\<lambda>k. (k, f k)) ks) k = Some (f k)"
  by (induction ks) auto

lemma map_of_tabulate_None: "k \<notin> set ks \<Longrightarrow> map_of (map (\<lambda>k. (k, f k)) ks) k = None"
  by (induction ks) auto

lemma map_of_json_map: "map_of (json_map kvs) k = map_of (rev kvs) k"
proof (cases "k \<in> fst ` set kvs")
  case True
  then obtain v where "map_of (rev kvs) k = Some v"
    by (metis map_of_eq_None_iff not_None_eq set_rev)
  then show ?thesis using True by (simp add: json_map_def map_of_tabulate)
next
  case False
  then have "map_of (rev kvs) k = None" by (simp add: map_of_eq_None_iff)
  then show ?thesis using False by (simp add: json_map_def map_of_tabulate_None)
qed

lemma map_of_json_map_distinct: "distinct (map fst kvs) \<Longrightarrow> map_of (json_map kvs) k = map_of kvs k"
  by (metis distinct_rev map_of_eqI map_of_eq_Some_iff map_of_json_map not_Some_eq rev_map set_rev)

lemma keys_json_map [simp]: "map fst (json_map kvs) = sort (remdups (map fst kvs))"
  by (simp add: json_map_def comp_def)

lemma distinct_keys_json_map: "distinct (map fst (json_map kvs))"
  by simp

lemma set_keys_json_map [simp]: "fst ` set (json_map kvs) = fst ` set kvs"
  by (metis keys_json_map list.set_map set_remdups set_sort)

lemma length_json_map: "length (json_map kvs) \<le> length kvs"
  by (metis keys_json_map length_map length_remdups_leq length_sort)

lemma length_json_map_distinct: "distinct (map fst kvs) \<Longrightarrow> length (json_map kvs) = length kvs"
  by (metis distinct_remdups_id keys_json_map length_map length_sort)

lemma set_json_map_distinct: "distinct (map fst kvs) \<Longrightarrow> set (json_map kvs) = set kvs"
  by (metis distinct_keys_json_map map_of_json_map_distinct map_of_eq_Some_iff not_Some_eq subsetI subset_antisym
      surj_pair)

text \<open>Equal association lists with the same ordered names are equal; a list already in name
  order is kept.\<close>

lemma map_of_nth: "distinct (map fst zs) \<Longrightarrow> i < length zs \<Longrightarrow> map_of zs (fst (zs ! i)) = Some (snd (zs ! i))"
  by (rule map_of_is_SomeI) simp_all

lemma assoc_tabulate: "distinct (map fst zs) \<Longrightarrow> zs = map (\<lambda>k. (k, the (map_of zs k))) (map fst zs)"
  by (intro nth_equalityI) (auto simp: prod_eq_iff map_of_nth)

lemma assoc_eqI:
  assumes "map fst xs = map fst ys" "distinct (map fst xs)" "\<And>k. map_of xs k = map_of ys k"
  shows "xs = ys"
proof -
  have "map_of xs = map_of ys" using assms(3) by blast
  then show ?thesis
    using assoc_tabulate [of xs] assoc_tabulate [of ys] assms(1,2) by simp
qed

lemma json_map_sorted: "sorted (map fst kvs) \<Longrightarrow> distinct (map fst kvs) \<Longrightarrow> json_map kvs = kvs"
  by (rule assoc_eqI) (simp_all add: map_of_json_map_distinct sort_key_id_if_sorted distinct_remdups_id sorted_sort_id)

lemma set_json_map_subset: "set (json_map kvs) \<subseteq> set kvs"
proof
  fix x assume x: "x \<in> set (json_map kvs)"
  then have "map_of (json_map kvs) (fst x) = Some (snd x)"
    using distinct_keys_json_map by (intro map_of_is_SomeI) simp_all
  then have "map_of (rev kvs) (fst x) = Some (snd x)" by (simp add: map_of_json_map)
  then show "x \<in> set kvs" by (metis map_of_SomeD prod.collapse set_rev)
qed

lemma map_of_rev_key: "k \<in> fst ` set kvs \<Longrightarrow> \<exists>v. map_of (rev kvs) k = Some v"
  by (metis map_of_eq_None_iff not_None_eq set_rev)

lemma map_of_image: "map_of (map (\<lambda>(k, v). (k, f v)) kvs) k = map_option f (map_of kvs k)"
  by (induction kvs) auto

lemma json_map_image:
  "json_map (map (\<lambda>(k, v). (k, f v)) kvs) = map (\<lambda>(k, v). (k, f v)) (json_map kvs)"
proof -
  have keys: "map fst (map (\<lambda>(k, v). (k, f v)) kvs) = map fst kvs" by (induction kvs) auto
  have "the (map_of (rev (map (\<lambda>(k, v). (k, f v)) kvs)) k) = f (the (map_of (rev kvs) k))"
    if "k \<in> set (sort (remdups (map fst kvs)))" for k
    using that map_of_rev_key [of k kvs] by (auto simp: rev_map map_of_image)
  then show ?thesis unfolding json_map_def keys by simp
qed

lemma json_map_idem [simp]: "json_map (json_map kvs) = json_map kvs"
  by (rule json_map_sorted) simp_all

text \<open>Reading into the library's value and canonicalizing are the same operation, so a second
  pass changes nothing: the checksummed form of a document is stable.\<close>

lemma canonicalize_is_value: "canonicalize_json j = json_value j"
proof (induction j rule: json_value.induct)
  case (2 kvs)
  then have "map (\<lambda>(k, v). (k, canonicalize_json v)) kvs = map (\<lambda>(k, v). (k, json_value v)) kvs" by auto
  then show ?case by (simp only: canonicalize_json.simps json_value.simps)
qed auto

lemma json_value_idem [simp]: "json_value (json_value j) = json_value j"
proof (induction j)
  case (JObj kvs)
  have "map (\<lambda>(k, v). (k, json_value v)) (map (\<lambda>(k, v). (k, json_value v)) kvs) = map (\<lambda>(k, v). (k, json_value v)) kvs"
    using JObj by (auto simp: comp_def case_prod_beta)
  then have "json_map (map (\<lambda>(k, v). (k, json_value v)) (json_map (map (\<lambda>(k, v). (k, json_value v)) kvs))) =
    json_map (map (\<lambda>(k, v). (k, json_value v)) kvs)"
    by (metis json_map_image json_map_idem)
  then show ?case by simp
qed (auto simp: comp_def)

section \<open>What the limits mean\<close>

fun json_nodes :: "json \<Rightarrow> nat" where
  "json_nodes (JArr xs) = 1 + sum_list (map json_nodes xs)"
| "json_nodes (JObj kvs) = 1 + sum_list (map (\<lambda>(k, v). json_nodes v) kvs)"
| "json_nodes j = 1"

fun json_sizes_ok :: "nat \<Rightarrow> json \<Rightarrow> bool" where
  "json_sizes_ok limit (JArr xs) \<longleftrightarrow> length xs \<le> limit \<and> list_all (json_sizes_ok limit) xs"
| "json_sizes_ok limit (JObj kvs) \<longleftrightarrow> length kvs \<le> MAX_MANIFEST_OBJECT_FIELDS \<and>
     list_all (\<lambda>(k, v). length k \<le> MAX_MANIFEST_STRING_BYTES \<and> json_sizes_ok (child_array_limit k) v) kvs"
| "json_sizes_ok limit (JStr s) \<longleftrightarrow> length s \<le> MAX_MANIFEST_STRING_BYTES"
| "json_sizes_ok limit j \<longleftrightarrow> True"

fun json_depth :: "json \<Rightarrow> nat" where
  "json_depth (JArr xs) = Suc (fold max (map json_depth xs) 0)"
| "json_depth (JObj kvs) = Suc (fold max (map (\<lambda>(k, v). json_depth v) kvs) 0)"
| "json_depth j = 0"

lemma json_nodes_pos: "0 < json_nodes j"
  by (cases j) auto

lemma preflight_exact:
  "nodes \<le> MAX_MANIFEST_PRE_PARSE_NODES \<Longrightarrow>
     preflight_node limit j nodes =
       (if json_sizes_ok limit j \<and> nodes + json_nodes j \<le> MAX_MANIFEST_PRE_PARSE_NODES
        then Some (nodes + json_nodes j) else None)"
  "nodes \<le> MAX_MANIFEST_PRE_PARSE_NODES \<Longrightarrow> items \<le> limit \<Longrightarrow>
     visit_seq limit items xs nodes =
       (if items + length xs \<le> limit \<and> list_all (json_sizes_ok limit) xs \<and>
           nodes + sum_list (map json_nodes xs) \<le> MAX_MANIFEST_PRE_PARSE_NODES
        then Some (nodes + sum_list (map json_nodes xs)) else None)"
  "nodes \<le> MAX_MANIFEST_PRE_PARSE_NODES \<Longrightarrow> seen \<le> MAX_MANIFEST_OBJECT_FIELDS \<Longrightarrow>
     visit_map seen kvs nodes =
       (if seen + length kvs \<le> MAX_MANIFEST_OBJECT_FIELDS \<and>
           list_all (\<lambda>(k, v). length k \<le> MAX_MANIFEST_STRING_BYTES \<and> json_sizes_ok (child_array_limit k) v) kvs \<and>
           nodes + sum_list (map (\<lambda>(k, v). json_nodes v) kvs) \<le> MAX_MANIFEST_PRE_PARSE_NODES
        then Some (nodes + sum_list (map (\<lambda>(k, v). json_nodes v) kvs)) else None)"
proof (induction limit j nodes and limit items xs nodes and seen kvs nodes
    rule: preflight_node_visit_seq_visit_map.induct)
  case (8 limit items x xs nodes)
  show ?case
  proof (cases "json_sizes_ok limit x \<and> nodes + json_nodes x \<le> MAX_MANIFEST_PRE_PARSE_NODES")
    case True
    then show ?thesis using 8 by auto
  next
    case False
    then show ?thesis using 8(1,3) by auto
  qed
next
  case (10 seen key v kvs nodes)
  show ?case
  proof (cases "seen + 1 \<le> MAX_MANIFEST_OBJECT_FIELDS \<and> length key \<le> MAX_MANIFEST_STRING_BYTES \<and>
      json_sizes_ok (child_array_limit key) v \<and> nodes + json_nodes v \<le> MAX_MANIFEST_PRE_PARSE_NODES")
    case True
    then show ?thesis using 10 by auto
  next
    case False
    then show ?thesis using 10(1,3,4) by auto
  qed
qed (auto simp: visit_def)

lemma json_within_sizes: "json_within_limits depth limit j \<Longrightarrow> json_sizes_ok limit j"
  by (induction depth limit j rule: json_within_limits.induct)
    (subst (asm) (2) json_within_limits.simps, auto simp: list_all_iff split: json.splits)

lemma sum_list_json_map_le: "sum_list (map f (json_map kvs)) \<le> sum_list (map (f :: _ \<Rightarrow> nat) kvs)"
proof -
  have d: "distinct (json_map kvs)" using distinct_keys_json_map [of kvs] unfolding distinct_map by blast
  have "sum_list (map f (json_map kvs)) = sum f (set (json_map kvs))"
    using d by (rule sum_list_distinct_conv_sum_set)
  also have "\<dots> \<le> sum f (set kvs)" using set_json_map_subset by (intro sum_mono2) auto
  also have "\<dots> \<le> sum_list (map f kvs)" by (induction kvs) (auto simp: sum.insert_if)
  finally show ?thesis .
qed

lemma json_nodes_value: "json_nodes (json_value j) \<le> json_nodes j"
proof (induction j)
  case (JArr xs)
  then show ?case by (simp add: comp_def sum_list_mono)
next
  case (JObj kvs)
  have "sum_list (map (\<lambda>(k, v). json_nodes v) (json_map (map (\<lambda>(k, v). (k, json_value v)) kvs)))
      \<le> sum_list (map (\<lambda>(k, v). json_nodes v) (map (\<lambda>(k, v). (k, json_value v)) kvs))"
    by (rule sum_list_json_map_le)
  also have "\<dots> \<le> sum_list (map (\<lambda>(k, v). json_nodes v) kvs)"
    using JObj by (force simp: comp_def case_prod_beta intro: sum_list_mono)
  finally show ?case by simp
qed simp_all

lemma json_within_value: "json_within_limits d l j \<Longrightarrow> json_within_limits d l (json_value j)"
proof (induction d l j rule: json_within_limits.induct)
  case (1 d l j)
  show ?case
  proof (cases j)
    case (JArr xs)
    then show ?thesis using 1 by (simp add: json_within_limits.simps [of d l] list_all_iff)
  next
    case (JObj kvs)
    let ?kvs = "map (\<lambda>(k, v). (k, json_value v)) kvs"
    have "length (json_map ?kvs) \<le> MAX_MANIFEST_OBJECT_FIELDS"
      using 1(3) JObj length_json_map [of ?kvs] by (simp add: json_within_limits.simps [of d l])
    moreover have "length key \<le> MAX_MANIFEST_STRING_BYTES \<and> json_within_limits (d + 1) (child_array_limit key) v"
      if "(key, v) \<in> set (json_map ?kvs)" for key v
    proof -
      have "(key, v) \<in> set ?kvs" using that set_json_map_subset by blast
      then obtain w where w: "(key, w) \<in> set kvs" "v = json_value w" by auto
      then have "length key \<le> MAX_MANIFEST_STRING_BYTES" "json_within_limits (d + 1) (child_array_limit key) w"
        using 1(3) JObj by (auto simp: json_within_limits.simps [of d l] list_all_iff)
      then show ?thesis using 1(2) [OF JObj w(1) refl] w(2) by simp
    qed
    moreover have "d \<le> MAX_MANIFEST_JSON_DEPTH" using 1(3) by (simp add: json_within_limits.simps [of d l])
    ultimately show ?thesis using JObj by (auto simp: json_within_limits.simps [of d l] list_all_iff)
  qed (use 1(3) in \<open>simp_all add: json_within_limits.simps [of d l]\<close>)
qed

section \<open>The library\<close>

text \<open>What is used of the JSON library: printing a tree and parsing the text gives the tree
  again, for nesting below its recursion limit and numbers it represents exactly.  \<open>exact\<close>
  holds of the floats that survive: by its documentation not every float does.\<close>

fun json_printable :: "(f64 \<Rightarrow> bool) \<Rightarrow> json \<Rightarrow> bool" where
  "json_printable exact (JArr xs) = list_all (json_printable exact) xs"
| "json_printable exact (JObj kvs) = list_all (\<lambda>(k, v). json_printable exact v) kvs"
| "json_printable exact (JNum (PosInt n)) = (n < 2 ^ 64)"
| "json_printable exact (JNum (NegInt i)) = (- (2 ^ 63) \<le> i \<and> i < 0)"
| "json_printable exact (JNum (JFloat f)) = (f64_is_finite f \<and> exact f)"
| "json_printable exact j = True"

definition json_spec :: "json_codec \<Rightarrow> (f64 \<Rightarrow> bool) \<Rightarrow> bool" where
  "json_spec C exact \<longleftrightarrow>
     (\<forall>j. json_depth j < 128 \<and> json_printable exact j \<longrightarrow> jc_parse C (jc_print C j) = Some j)"

end
