(* ===== verification/Schema.thy ===== *)
theory Schema
  imports Backend
begin

text \<open>
  Arrow schemas as the engine sees them and the schema catalog with its migrations
  (\<open>crates/storage/src/schema.rs\<close>).
\<close>

section \<open>Arrow schemas\<close>

text \<open>The column types the engine distinguishes; a vector is a fixed-size list of 32-bit floats
  with its child's nullability and its length, a dictionary has 32-bit keys and the type of its
  values, every other type is named.\<close>

datatype data_type =
    DTBoolean
  | DTInt64
  | DTUInt64
  | DTFloat64
  | DTUtf8
  | DTTimestampMicros
  | DTVector bool nat
  | DTDictionary data_type
  | DTOther string

record field =
  fd_name :: string
  fd_type :: data_type
  fd_nullable :: bool
  fd_metadata :: "(string \<times> string) list"

record arrow_schema =
  sch_fields :: "field list"
  sch_metadata :: "(string \<times> string) list"

definition schema_empty :: arrow_schema where
  "schema_empty = \<lparr> sch_fields = [], sch_metadata = [] \<rparr>"

text \<open>The IPC encoding of a schema belongs to the Arrow library.\<close>

record schema_codec =
  sc_encode :: "arrow_schema \<Rightarrow> bytes"
  sc_decode :: "bytes \<Rightarrow> arrow_schema option"

definition schema_codec_spec :: "schema_codec \<Rightarrow> bool" where
  "schema_codec_spec S \<longleftrightarrow> (\<forall>sch. sc_decode S (sc_encode S sch) = Some sch \<and> sc_encode S sch \<noteq> [])"

section \<open>Catalog versions\<close>

definition INITIAL_SCHEMA_VERSION :: nat where
  "INITIAL_SCHEMA_VERSION = 1"

definition ADD_NULLABLE_COLUMN_SCHEMA_VERSION :: nat where
  "ADD_NULLABLE_COLUMN_SCHEMA_VERSION = 2"

definition validate_schema_version :: "nat \<Rightarrow> (storage_error, unit) result" where
  "validate_schema_version v =
     (if v = INITIAL_SCHEMA_VERSION \<or> v = ADD_NULLABLE_COLUMN_SCHEMA_VERSION then Inr ()
      else Inl (UnknownSchemaVersion v))"

section \<open>Migrations\<close>

datatype schema_migration =
    AddNullableColumn nat nat field
  | ChangeColumnType nat nat string data_type

fun source_version :: "schema_migration \<Rightarrow> nat" where
  "source_version (AddNullableColumn s _ _) = s"
| "source_version (ChangeColumnType s _ _ _) = s"

fun target_version :: "schema_migration \<Rightarrow> nat" where
  "target_version (AddNullableColumn _ t _) = t"
| "target_version (ChangeColumnType _ t _ _) = t"

fun added_nullable_column :: "schema_migration \<Rightarrow> field option" where
  "added_nullable_column (AddNullableColumn _ _ c) = Some c"
| "added_nullable_column (ChangeColumnType _ _ _ _) = None"

definition target_schema :: "schema_migration \<Rightarrow> nat \<Rightarrow> arrow_schema \<Rightarrow> (storage_error, arrow_schema) result" where
  "target_schema mig current_version current_schema =
     bindE (validate_schema_version current_version) (\<lambda>_.
       if source_version mig \<noteq> current_version
       then Inl (MigrationSourceVersion current_version (source_version mig))
       else if target_version mig \<le> source_version mig
       then Inl (MigrationUnsupportedDirection (source_version mig) (target_version mig))
       else case mig of
         AddNullableColumn s t column \<Rightarrow>
           if s \<noteq> INITIAL_SCHEMA_VERSION \<or> t \<noteq> ADD_NULLABLE_COLUMN_SCHEMA_VERSION
           then Inl (MigrationUnsupported s t)
           else if \<not> fd_nullable column then Inl MigrationIncompatibleType
           else if list_ex (\<lambda>f. fd_name f = fd_name column) (sch_fields current_schema)
           then Inl MigrationIncompatibleType
           else Inr (current_schema\<lparr> sch_fields := sch_fields current_schema @ [column] \<rparr>)
       | ChangeColumnType _ _ _ _ \<Rightarrow> Inl MigrationLossyConversion)"

record schema_migration_result =
  mr_source_schema_version :: nat
  mr_target_schema_version :: nat
  mr_manifest_version :: nat

definition migration_result :: "schema_migration \<Rightarrow> nat \<Rightarrow> schema_migration_result" where
  "migration_result mig manifest_version =
     \<lparr> mr_source_schema_version = source_version mig, mr_target_schema_version = target_version mig,
       mr_manifest_version = manifest_version \<rparr>"

text \<open>C22: The catalog accepts exactly one migration, the addition of a fresh nullable column
  from version 1 to version 2, and its target keeps every existing field in place, all
  metadata, and distinct names; in particular no accepted target can be migrated again.\<close>

theorem target_schema_exact:
  "(target_schema mig v sch = Inr tgt \<longleftrightarrow>
     (\<exists>column. mig = AddNullableColumn 1 2 column \<and> v = 1 \<and> fd_nullable column \<and>
        fd_name column \<notin> set (map fd_name (sch_fields sch)) \<and>
        tgt = sch\<lparr> sch_fields := sch_fields sch @ [column] \<rparr>)) \<and>
   (distinct (map fd_name (sch_fields sch)) \<and> target_schema mig v sch = Inr tgt \<longrightarrow>
     distinct (map fd_name (sch_fields tgt)) \<and>
     (\<forall>mig' tgt'. target_schema mig' (target_version mig) tgt \<noteq> Inr tgt'))"
proof -
  have taken: "list_ex (\<lambda>f. fd_name f = n) fs \<longleftrightarrow> n \<in> set (map fd_name fs)" for n and fs :: "field list"
    by (force simp: list_ex_iff)
  have exact: "target_schema m w s = Inr t \<longleftrightarrow>
     (\<exists>column. m = AddNullableColumn 1 2 column \<and> w = 1 \<and> fd_nullable column \<and>
        fd_name column \<notin> set (map fd_name (sch_fields s)) \<and>
        t = s\<lparr> sch_fields := sch_fields s @ [column] \<rparr>)" for m w s t
    by (cases m) (auto simp: target_schema_def bindE_def validate_schema_version_def
        INITIAL_SCHEMA_VERSION_def ADD_NULLABLE_COLUMN_SCHEMA_VERSION_def taken)
  show ?thesis by (auto simp: exact)
qed

theorem target_schema_exact_witness:
  "\<exists>tgt. target_schema (AddNullableColumn 1 2 \<lparr> fd_name = ''b'', fd_type = DTInt64, fd_nullable = True, fd_metadata = [] \<rparr>) 1
      \<lparr> sch_fields = [\<lparr> fd_name = ''a'', fd_type = DTUtf8, fd_nullable = False, fd_metadata = [] \<rparr>], sch_metadata = [] \<rparr> = Inr tgt \<and>
    distinct (map fd_name (sch_fields tgt))"
  using target_schema_exact
    [of "AddNullableColumn 1 2 \<lparr> fd_name = ''b'', fd_type = DTInt64, fd_nullable = True, fd_metadata = [] \<rparr>" 1
      "\<lparr> sch_fields = [\<lparr> fd_name = ''a'', fd_type = DTUtf8, fd_nullable = False, fd_metadata = [] \<rparr>], sch_metadata = [] \<rparr>"]
  by auto

end
