(* ===== verification/Manifest.thy ===== *)
theory Manifest
  imports Json Schema
    "HOL-Library.Monad_Syntax"
    "HOL-Library.Countable"
begin

text \<open>
  The manifest and its envelope (\<open>crates/storage/src/manifest.rs\<close>): the records, their
  JSON form as the serialization attributes define it, the checksummed envelope, and the bounded
  decoder.  A hash map of statistics is its list of entries in key order, and 32-bit and 64-bit
  unsigned fields are natural numbers with their bounds in \<open>manifest_ok\<close>.
\<close>

section \<open>Records\<close>

record data_file_entry =
  df_name :: string
  df_byte_len :: nat
  df_crc32c :: nat
  df_row_count :: nat
  df_row_id_range :: "(nat \<times> nat) option"
  df_stats :: "(string \<times> column_stats) list"

record segment_entry =
  sg_name :: string
  sg_format_version :: nat
  sg_vector_count :: nat
  sg_dimension :: nat
  sg_row_id_min :: nat
  sg_row_id_max :: nat
  sg_byte_len :: nat
  sg_zone_map :: "(string \<times> column_stats) list"

record manifest =
  mf_version :: nat
  mf_schema_version :: "nat option"
  mf_schema_ipc :: bytes
  mf_data_files :: "data_file_entry list"
  mf_next_row_id :: nat
  mf_tombstones :: "nat list"
  mf_next_attempt_id :: nat
  mf_commit_time_high_water :: int
  mf_committed_at_us :: int
  mf_segments :: "segment_entry list"

record manifest_envelope =
  ev_format_version :: nat
  ev_manifest :: manifest
  ev_checksum :: nat

definition MANIFEST_FORMAT_VERSION :: nat where
  "MANIFEST_FORMAT_VERSION = 1"

definition empty_with_schema :: "schema_codec \<Rightarrow> arrow_schema \<Rightarrow> manifest" where
  "empty_with_schema S sch =
     \<lparr> mf_version = 0, mf_schema_version = Some INITIAL_SCHEMA_VERSION, mf_schema_ipc = sc_encode S sch,
       mf_data_files = [], mf_next_row_id = 0, mf_tombstones = [], mf_next_attempt_id = 0,
       mf_commit_time_high_water = 0, mf_committed_at_us = 0, mf_segments = [] \<rparr>"

definition schema_version :: "manifest \<Rightarrow> nat" where
  "schema_version m = (case mf_schema_version m of None \<Rightarrow> INITIAL_SCHEMA_VERSION | Some v \<Rightarrow> v)"

definition manifest_schema :: "schema_codec \<Rightarrow> manifest \<Rightarrow> (storage_error, arrow_schema) result" where
  "manifest_schema S m =
     bindE (validate_schema_version (schema_version m)) (\<lambda>_.
       if mf_schema_ipc m = [] then Inl LegacyFormatNeedsMigration
       else case sc_decode S (mf_schema_ipc m) of None \<Rightarrow> Inl CorruptManifest | Some sch \<Rightarrow> Inr sch)"

definition set_schema :: "schema_codec \<Rightarrow> arrow_schema \<Rightarrow> manifest \<Rightarrow> manifest" where
  "set_schema S sch m = m\<lparr> mf_schema_ipc := sc_encode S sch \<rparr>"

section \<open>Serialization\<close>

definition json_u :: "nat \<Rightarrow> json" where
  "json_u n = JNum (PosInt n)"

definition json_i :: "int \<Rightarrow> json" where
  "json_i i = JNum (if 0 \<le> i then PosInt (nat i) else NegInt i)"

text \<open>A float that is not finite has no JSON number and is written as null.\<close>

definition json_f :: "f64 \<Rightarrow> json" where
  "json_f f = (if f64_is_finite f then JNum (JFloat f) else JNull)"

fun val_json :: "val \<Rightarrow> json" where
  "val_json (Int64 i) = JObj [(''Int64'', json_i i)]"
| "val_json (Float64 f) = JObj [(''Float64'', json_f f)]"
| "val_json (Utf8 s) = JObj [(''Utf8'', JStr s)]"

definition column_stats_json :: "column_stats \<Rightarrow> json" where
  "column_stats_json e = JObj [(''min'', val_json (min_v e)), (''max'', val_json (max_v e))]"

definition stats_json :: "(string \<times> column_stats) list \<Rightarrow> json" where
  "stats_json st = JObj (map (\<lambda>(k, e). (k, column_stats_json e)) st)"

definition range_json :: "(nat \<times> nat) option \<Rightarrow> json" where
  "range_json r = (case r of None \<Rightarrow> JNull | Some (a, b) \<Rightarrow> JArr [json_u a, json_u b])"

definition data_file_json :: "data_file_entry \<Rightarrow> json" where
  "data_file_json d = JObj
     [(''name'', JStr (df_name d)), (''byte_len'', json_u (df_byte_len d)), (''crc32c'', json_u (df_crc32c d)),
      (''row_count'', json_u (df_row_count d)), (''row_id_range'', range_json (df_row_id_range d)),
      (''stats'', stats_json (df_stats d))]"

definition segment_json :: "segment_entry \<Rightarrow> json" where
  "segment_json g = JObj
     [(''name'', JStr (sg_name g)), (''format_version'', json_u (sg_format_version g)),
      (''vector_count'', json_u (sg_vector_count g)), (''dimension'', json_u (sg_dimension g)),
      (''row_id_min'', json_u (sg_row_id_min g)), (''row_id_max'', json_u (sg_row_id_max g)),
      (''byte_len'', json_u (sg_byte_len g)), (''zone_map'', stats_json (sg_zone_map g))]"

definition manifest_json :: "manifest \<Rightarrow> json" where
  "manifest_json m = JObj
     ([(''version'', json_u (mf_version m))] @
      (case mf_schema_version m of None \<Rightarrow> [] | Some v \<Rightarrow> [(''schema_version'', json_u v)]) @
      [(''schema_ipc'', JArr (map (\<lambda>b. json_u (unat b)) (mf_schema_ipc m))),
       (''data_files'', JArr (map data_file_json (mf_data_files m))),
       (''next_row_id'', json_u (mf_next_row_id m)),
       (''tombstones'', JArr (map json_u (mf_tombstones m))),
       (''next_attempt_id'', json_u (mf_next_attempt_id m)),
       (''commit_time_high_water'', json_i (mf_commit_time_high_water m)),
       (''committed_at_us'', json_i (mf_committed_at_us m)),
       (''segments'', JArr (map segment_json (mf_segments m)))])"

definition envelope_json :: "manifest_envelope \<Rightarrow> json" where
  "envelope_json ev = JObj
     [(''format_version'', json_u (ev_format_version ev)), (''manifest'', manifest_json (ev_manifest ev)),
      (''checksum'', json_u (ev_checksum ev))]"

section \<open>Deserialization\<close>

text \<open>A struct is read from an object, or from an array of its fields in order.\<close>

definition struct_ok :: "bool \<Rightarrow> string list \<Rightarrow> json \<Rightarrow> bool" where
  "struct_ok deny_unknown names j =
     (case j of
        JObj kvs \<Rightarrow> deny_unknown \<longrightarrow> list_all (\<lambda>(k, _). k \<in> set names) kvs
      | JArr xs \<Rightarrow> length xs \<le> length names
      | _ \<Rightarrow> False)"

definition struct_field :: "string list \<Rightarrow> json \<Rightarrow> string \<Rightarrow> json option" where
  "struct_field names j name =
     (case j of JObj kvs \<Rightarrow> map_of kvs name | JArr xs \<Rightarrow> map_of (zip names xs) name | _ \<Rightarrow> None)"

definition struct_optional :: "string list \<Rightarrow> json \<Rightarrow> string \<Rightarrow> json option" where
  "struct_optional names j name =
     (case struct_field names j name of
        Some v \<Rightarrow> Some v
      | None \<Rightarrow> (case j of JObj _ \<Rightarrow> Some JNull | _ \<Rightarrow> None))"

definition struct_default :: "string list \<Rightarrow> json \<Rightarrow> string \<Rightarrow> 'a \<Rightarrow> (json \<Rightarrow> 'a option) \<Rightarrow> 'a option" where
  "struct_default names j name d f = (case struct_field names j name of None \<Rightarrow> Some d | Some v \<Rightarrow> f v)"

fun de_nat :: "nat \<Rightarrow> json \<Rightarrow> nat option" where
  "de_nat w (JNum (PosInt n)) = (if n < 2 ^ w then Some n else None)"
| "de_nat w _ = None"

fun de_i64 :: "json \<Rightarrow> int option" where
  "de_i64 (JNum (PosInt n)) = (if n < 2 ^ 63 then Some (int n) else None)"
| "de_i64 (JNum (NegInt i)) = (if - (2 ^ 63) \<le> i then Some i else None)"
| "de_i64 _ = None"

fun de_f64 :: "json \<Rightarrow> f64 option" where
  "de_f64 (JNum (JFloat f)) = Some f"
| "de_f64 (JNum (PosInt n)) = Some (f64_of_int (int n))"
| "de_f64 (JNum (NegInt i)) = Some (f64_of_int i)"
| "de_f64 _ = None"

fun de_string :: "json \<Rightarrow> string option" where
  "de_string (JStr s) = Some s"
| "de_string _ = None"

fun de_list :: "(json \<Rightarrow> 'a option) \<Rightarrow> json \<Rightarrow> 'a list option" where
  "de_list f (JArr xs) = those (map f xs)"
| "de_list f _ = None"

fun de_val :: "json \<Rightarrow> val option" where
  "de_val (JObj [(tag, j)]) =
     (if tag = ''Int64'' then map_option Int64 (de_i64 j)
      else if tag = ''Float64'' then map_option Float64 (de_f64 j)
      else if tag = ''Utf8'' then map_option Utf8 (de_string j)
      else None)"
| "de_val _ = None"

definition de_column_stats :: "json \<Rightarrow> column_stats option" where
  "de_column_stats j =
     (let names = [''min'', ''max'']
      in if struct_ok False names j then do {
           a \<leftarrow> struct_field names j ''min'' \<bind> de_val;
           b \<leftarrow> struct_field names j ''max'' \<bind> de_val;
           Some \<lparr> min_v = a, max_v = b \<rparr>
         } else None)"

fun de_stats :: "json \<Rightarrow> (string \<times> column_stats) list option" where
  "de_stats (JObj kvs) = those (map (\<lambda>(k, j). map_option (Pair k) (de_column_stats j)) kvs)"
| "de_stats _ = None"

fun de_range :: "json \<Rightarrow> (nat \<times> nat) option option" where
  "de_range JNull = Some None"
| "de_range (JArr [a, b]) = do { x \<leftarrow> de_nat 64 a; y \<leftarrow> de_nat 64 b; Some (Some (x, y)) }"
| "de_range _ = None"

definition de_data_file :: "json \<Rightarrow> data_file_entry option" where
  "de_data_file j =
     (let names = [''name'', ''byte_len'', ''crc32c'', ''row_count'', ''row_id_range'', ''stats'']
      in if struct_ok True names j then do {
           n \<leftarrow> struct_field names j ''name'' \<bind> de_string;
           bl \<leftarrow> struct_field names j ''byte_len'' \<bind> de_nat 64;
           c \<leftarrow> struct_field names j ''crc32c'' \<bind> de_nat 32;
           rc \<leftarrow> struct_field names j ''row_count'' \<bind> de_nat 64;
           r \<leftarrow> struct_optional names j ''row_id_range'' \<bind> de_range;
           st \<leftarrow> struct_field names j ''stats'' \<bind> de_stats;
           Some \<lparr> df_name = n, df_byte_len = bl, df_crc32c = c, df_row_count = rc, df_row_id_range = r,
             df_stats = st \<rparr>
         } else None)"

definition de_segment :: "json \<Rightarrow> segment_entry option" where
  "de_segment j =
     (let names = [''name'', ''format_version'', ''vector_count'', ''dimension'', ''row_id_min'', ''row_id_max'',
            ''byte_len'', ''zone_map'']
      in if struct_ok True names j then do {
           n \<leftarrow> struct_field names j ''name'' \<bind> de_string;
           fv \<leftarrow> struct_field names j ''format_version'' \<bind> de_nat 32;
           vc \<leftarrow> struct_field names j ''vector_count'' \<bind> de_nat 64;
           dm \<leftarrow> struct_field names j ''dimension'' \<bind> de_nat 32;
           mn \<leftarrow> struct_field names j ''row_id_min'' \<bind> de_nat 64;
           mx \<leftarrow> struct_field names j ''row_id_max'' \<bind> de_nat 64;
           bl \<leftarrow> struct_field names j ''byte_len'' \<bind> de_nat 64;
           zm \<leftarrow> struct_default names j ''zone_map'' [] de_stats;
           Some \<lparr> sg_name = n, sg_format_version = fv, sg_vector_count = vc, sg_dimension = dm,
             sg_row_id_min = mn, sg_row_id_max = mx, sg_byte_len = bl, sg_zone_map = zm \<rparr>
         } else None)"

fun de_schema_version :: "json \<Rightarrow> nat option option" where
  "de_schema_version JNull = Some None"
| "de_schema_version j = map_option Some (de_nat 32 j)"

definition de_manifest :: "json \<Rightarrow> manifest option" where
  "de_manifest j =
     (let names = [''version'', ''schema_version'', ''schema_ipc'', ''data_files'', ''next_row_id'', ''tombstones'',
            ''next_attempt_id'', ''commit_time_high_water'', ''committed_at_us'', ''segments'']
      in if struct_ok True names j then do {
           v \<leftarrow> struct_field names j ''version'' \<bind> de_nat 64;
           sv \<leftarrow> struct_default names j ''schema_version'' None de_schema_version;
           ipc \<leftarrow> struct_field names j ''schema_ipc'' \<bind> de_list (\<lambda>x. map_option word_of_nat (de_nat 8 x));
           dfs \<leftarrow> struct_field names j ''data_files'' \<bind> de_list de_data_file;
           nr \<leftarrow> struct_field names j ''next_row_id'' \<bind> de_nat 64;
           ts \<leftarrow> struct_default names j ''tombstones'' [] (de_list (de_nat 64));
           na \<leftarrow> struct_default names j ''next_attempt_id'' 0 (de_nat 64);
           hw \<leftarrow> struct_default names j ''commit_time_high_water'' 0 de_i64;
           ca \<leftarrow> struct_default names j ''committed_at_us'' 0 de_i64;
           sg \<leftarrow> struct_default names j ''segments'' [] (de_list de_segment);
           Some \<lparr> mf_version = v, mf_schema_version = sv, mf_schema_ipc = ipc, mf_data_files = dfs,
             mf_next_row_id = nr, mf_tombstones = ts, mf_next_attempt_id = na,
             mf_commit_time_high_water = hw, mf_committed_at_us = ca, mf_segments = sg \<rparr>
         } else None)"

definition de_envelope :: "json \<Rightarrow> manifest_envelope option" where
  "de_envelope j =
     (let names = [''format_version'', ''manifest'', ''checksum'']
      in if struct_ok True names j then do {
           f \<leftarrow> struct_field names j ''format_version'' \<bind> de_nat 32;
           m \<leftarrow> struct_field names j ''manifest'' \<bind> de_manifest;
           c \<leftarrow> struct_field names j ''checksum'' \<bind> de_nat 32;
           Some \<lparr> ev_format_version = f, ev_manifest = m, ev_checksum = c \<rparr>
         } else None)"

section \<open>The envelope\<close>

record codecs =
  cd_json :: json_codec
  cd_schema :: schema_codec
  cd_crc :: checksum

definition canonical_envelope_bytes :: "codecs \<Rightarrow> manifest_envelope \<Rightarrow> bytes" where
  "canonical_envelope_bytes cd ev =
     (let zeroed = ev\<lparr> ev_checksum := 0 \<rparr>;
          v = json_value (envelope_json zeroed)
      in jc_print (cd_json cd) (canonicalize_json v))"

definition canonical_checksum :: "codecs \<Rightarrow> manifest_envelope \<Rightarrow> nat" where
  "canonical_checksum cd ev = unat (cd_crc cd (canonical_envelope_bytes cd ev))"

definition envelope_new :: "codecs \<Rightarrow> manifest \<Rightarrow> manifest_envelope" where
  "envelope_new cd m =
     (let ev = \<lparr> ev_format_version = MANIFEST_FORMAT_VERSION, ev_manifest = m, ev_checksum = 0 \<rparr>
      in ev\<lparr> ev_checksum := canonical_checksum cd ev \<rparr>)"

definition envelope_validate :: "manifest_envelope \<Rightarrow> nat \<Rightarrow> (storage_error, unit) result" where
  "envelope_validate ev filename_version =
     (if ev_format_version ev \<noteq> MANIFEST_FORMAT_VERSION then Inl CorruptManifest
      else if mf_version (ev_manifest ev) \<noteq> filename_version then Inl CorruptManifest
      else validate_schema_version (schema_version (ev_manifest ev)))"

definition encode_manifest :: "codecs \<Rightarrow> manifest \<Rightarrow> bytes" where
  "encode_manifest cd m = jc_print (cd_json cd) (envelope_json (envelope_new cd m))"

definition json_get :: "json \<Rightarrow> string \<Rightarrow> json option" where
  "json_get j name = (case j of JObj kvs \<Rightarrow> map_of kvs name | _ \<Rightarrow> None)"

definition array_within :: "(string \<times> json) list \<Rightarrow> string \<Rightarrow> nat \<Rightarrow> bool" where
  "array_within kvs name limit = (case map_of kvs name of Some (JArr items) \<Rightarrow> length items \<le> limit | _ \<Rightarrow> True)"

definition validate_manifest_collection_limits :: "json \<Rightarrow> (storage_error, unit) result" where
  "validate_manifest_collection_limits j =
     (case json_get j ''manifest'' of
        Some (JObj kvs) \<Rightarrow>
          if \<not> (array_within kvs ''data_files'' MAX_MANIFEST_DATA_FILES \<and>
                array_within kvs ''segments'' MAX_MANIFEST_SEGMENTS \<and>
                array_within kvs ''tombstones'' MAX_MANIFEST_TOMBSTONES)
          then Inl CorruptManifest
          else if \<not> array_within kvs ''schema_ipc'' MAX_MANIFEST_SCHEMA_IPC_BYTES then Inl CorruptManifest
          else Inr ()
      | _ \<Rightarrow> Inl CorruptManifest)"

definition json_set :: "string \<Rightarrow> json \<Rightarrow> (string \<times> json) list \<Rightarrow> (string \<times> json) list" where
  "json_set name v kvs = json_map (kvs @ [(name, v)])"

definition raw_envelope_checksum :: "codecs \<Rightarrow> json \<Rightarrow> (storage_error, nat \<times> nat \<times> nat) result" where
  "raw_envelope_checksum cd j =
     (case j of
        JObj kvs \<Rightarrow>
          (case Option.bind (map_of kvs ''format_version'') (de_nat 32) of
             None \<Rightarrow> Inl CorruptManifest
           | Some format_version \<Rightarrow>
               (case Option.bind (map_of kvs ''checksum'') (de_nat 32) of
                  None \<Rightarrow> Inl CorruptManifest
                | Some stored_checksum \<Rightarrow>
                    (let zeroed = JObj (json_set ''checksum'' (json_u 0) kvs);
                         canonical = jc_print (cd_json cd) (canonicalize_json zeroed)
                     in Inr (format_version, stored_checksum, unat (cd_crc cd canonical)))))
      | _ \<Rightarrow> Inl CorruptManifest)"

definition decode_manifest_with_byte_count ::
  "codecs \<Rightarrow> nat \<Rightarrow> bytes \<Rightarrow> (storage_error, manifest \<times> nat) result" where
  "decode_manifest_with_byte_count cd version b =
     (if length b > MAX_MANIFEST_BYTES then Inl CorruptManifest
      else bindE (preflight_manifest_json (cd_json cd) b) (\<lambda>_.
        case jc_parse (cd_json cd) b of
          None \<Rightarrow> Inl CorruptManifest
        | Some tree \<Rightarrow>
            (let v = json_value tree
             in if json_get v ''format_version'' = None then Inl LegacyFormatNeedsMigration
                else bindE (validate_json_limits v 0 MAX_MANIFEST_ARRAY_ITEMS) (\<lambda>_.
                  bindE (validate_manifest_collection_limits v) (\<lambda>_.
                    bindE (raw_envelope_checksum cd v) (\<lambda>(raw_format_version, stored_checksum, expected_checksum).
                      if raw_format_version \<noteq> MANIFEST_FORMAT_VERSION then Inl CorruptManifest
                      else if stored_checksum \<noteq> expected_checksum then Inl CorruptManifest
                      else case de_envelope v of
                        None \<Rightarrow> Inl CorruptManifest
                      | Some ev \<Rightarrow>
                          bindE (envelope_validate ev version) (\<lambda>_.
                            bindE (manifest_schema (cd_schema cd) (ev_manifest ev)) (\<lambda>_.
                              Inr (ev_manifest ev, length b)))))))))"

section \<open>Reading back what was written\<close>

named_theorems de_value "reading a serialized value back"

lemma struct_field_value [de_value]:
  assumes "distinct (map fst kvs)"
  shows "struct_field names (json_value (JObj kvs)) n = map_option json_value (map_of kvs n)"
proof -
  have "distinct (map fst (map (\<lambda>(k, v). (k, json_value v)) kvs))"
    using assms by (simp add: comp_def case_prod_beta)
  then show ?thesis by (simp add: struct_field_def map_of_json_map_distinct map_of_image)
qed

lemma struct_ok_value [de_value]:
  "struct_ok d names (json_value (JObj kvs)) \<longleftrightarrow> d \<longrightarrow> list_all (\<lambda>(k, _). k \<in> set names) kvs"
proof -
  have "list_all (\<lambda>(k, _). k \<in> set names) xs \<longleftrightarrow> fst ` set xs \<subseteq> set names" for xs :: "(string \<times> json) list"
    by (auto simp: list_all_iff)
  then show ?thesis by (auto simp: struct_ok_def image_image case_prod_beta)
qed

lemma struct_optional_value [de_value]:
  assumes "distinct (map fst kvs)"
  shows "struct_optional names (json_value (JObj kvs)) n =
    Some (case map_of kvs n of None \<Rightarrow> JNull | Some v \<Rightarrow> json_value v)"
  unfolding struct_optional_def struct_field_value [OF assms] by (simp split: option.split)

lemma struct_default_value [de_value]:
  assumes "distinct (map fst kvs)"
  shows "struct_default names (json_value (JObj kvs)) n d f =
    (case map_of kvs n of None \<Rightarrow> Some d | Some v \<Rightarrow> f (json_value v))"
  unfolding struct_default_def struct_field_value [OF assms] by (simp split: option.split)

lemma those_map: "\<forall>x\<in>set xs. f (g x) = Some x \<Longrightarrow> those (map f (map g xs)) = Some xs"
  by (induction xs) auto

lemma json_map_single [simp]: "json_map [(k, v)] = [(k, v)]"
  by (simp add: json_map_def)

lemma json_value_numbers [simp]:
  "json_value (json_u n) = json_u n" "json_value (json_i i) = json_i i" "json_value (json_f f) = json_f f"
  by (simp_all add: json_u_def json_i_def json_f_def)

lemma de_nat_value [de_value]: "n < 2 ^ w \<Longrightarrow> de_nat w (json_u n) = Some n"
  by (simp add: json_u_def)

definition is_i64 :: "int \<Rightarrow> bool" where
  "is_i64 i \<longleftrightarrow> - (2 ^ 63) \<le> i \<and> i < 2 ^ 63"

lemma de_i64_value [de_value]: "is_i64 i \<Longrightarrow> de_i64 (json_i i) = Some i"
  by (auto simp: json_i_def is_i64_def nat_less_iff)

fun val_ok :: "val \<Rightarrow> bool" where
  "val_ok (Int64 i) = is_i64 i"
| "val_ok (Float64 f) = f64_is_finite f"
| "val_ok (Utf8 s) = True"

lemma de_val_value [de_value]: "val_ok v \<Longrightarrow> de_val (json_value (val_json v)) = Some v"
  by (cases v) (simp_all add: de_i64_value json_f_def)

definition stats_list_ok :: "(string \<times> column_stats) list \<Rightarrow> bool" where
  "stats_list_ok st \<longleftrightarrow> sorted (map fst st) \<and> distinct (map fst st) \<and>
     (\<forall>(k, e)\<in>set st. val_ok (min_v e) \<and> val_ok (max_v e))"

lemma de_column_stats_value:
  "val_ok (min_v e) \<Longrightarrow> val_ok (max_v e) \<Longrightarrow> de_column_stats (json_value (column_stats_json e)) = Some e"
  by (simp add: de_column_stats_def column_stats_json_def de_value Let_def del: json_value.simps)

lemma de_stats_value [de_value]:
  assumes "stats_list_ok st"
  shows "de_stats (json_value (stats_json st)) = Some st"
proof -
  let ?kvs = "map (\<lambda>x. (fst x, json_value (column_stats_json (snd x)))) st"
  have keys: "map fst ?kvs = map fst st" by (induction st) auto
  have "json_value (stats_json st) = JObj ?kvs"
    using assms json_map_sorted [of ?kvs] unfolding keys
    by (simp add: stats_json_def stats_list_ok_def comp_def case_prod_beta)
  moreover have "those (map (\<lambda>(k, j). map_option (Pair k) (de_column_stats j)) ?kvs) = Some st"
    using assms by (intro those_map) (auto simp: stats_list_ok_def de_column_stats_value)
  ultimately show ?thesis by simp
qed

definition data_file_ok :: "data_file_entry \<Rightarrow> bool" where
  "data_file_ok d \<longleftrightarrow> df_byte_len d < 2 ^ 64 \<and> df_crc32c d < 2 ^ 32 \<and> df_row_count d < 2 ^ 64 \<and>
     (case df_row_id_range d of None \<Rightarrow> True | Some (a, b) \<Rightarrow> a < 2 ^ 64 \<and> b < 2 ^ 64) \<and> stats_list_ok (df_stats d)"

definition segment_ok :: "segment_entry \<Rightarrow> bool" where
  "segment_ok g \<longleftrightarrow> sg_format_version g < 2 ^ 32 \<and> sg_vector_count g < 2 ^ 64 \<and> sg_dimension g < 2 ^ 32 \<and>
     sg_row_id_min g < 2 ^ 64 \<and> sg_row_id_max g < 2 ^ 64 \<and> sg_byte_len g < 2 ^ 64 \<and> stats_list_ok (sg_zone_map g)"

definition manifest_ok :: "manifest \<Rightarrow> bool" where
  "manifest_ok m \<longleftrightarrow> mf_version m < 2 ^ 64 \<and> (case mf_schema_version m of None \<Rightarrow> True | Some v \<Rightarrow> v < 2 ^ 32) \<and>
     (\<forall>d\<in>set (mf_data_files m). data_file_ok d) \<and> mf_next_row_id m < 2 ^ 64 \<and>
     (\<forall>r\<in>set (mf_tombstones m). r < 2 ^ 64) \<and> mf_next_attempt_id m < 2 ^ 64 \<and>
     is_i64 (mf_commit_time_high_water m) \<and> is_i64 (mf_committed_at_us m) \<and>
     (\<forall>g\<in>set (mf_segments m). segment_ok g)"

lemma de_range_value [de_value]:
  "(case r of None \<Rightarrow> True | Some (a, b) \<Rightarrow> a < 2 ^ 64 \<and> b < 2 ^ 64) \<Longrightarrow> de_range (json_value (range_json r)) = Some r"
  by (auto simp: range_json_def de_nat_value split: option.splits)

lemma de_data_file_value:
  "data_file_ok d \<Longrightarrow> de_data_file (json_value (data_file_json d)) = Some d"
  by (simp add: de_data_file_def data_file_json_def data_file_ok_def Let_def de_value del: json_value.simps(2))

lemma de_segment_value:
  "segment_ok g \<Longrightarrow> de_segment (json_value (segment_json g)) = Some g"
  by (simp add: de_segment_def segment_json_def segment_ok_def Let_def de_value del: json_value.simps(2))

lemma de_list_value:
  "\<forall>x\<in>set xs. f (json_value (g x)) = Some x \<Longrightarrow> de_list f (json_value (JArr (map g xs))) = Some xs"
  using those_map [of xs f "\<lambda>x. json_value (g x)"] by (simp add: comp_def)

lemma de_bytes_value:
  "de_list (\<lambda>x. map_option word_of_nat (de_nat 8 x)) (json_value (JArr (map (\<lambda>b. json_u (unat b)) bs))) = Some (bs :: bytes)"
  by (rule de_list_value) (use unat_byte_less in \<open>simp add: de_nat_value\<close>)

lemma de_manifest_value [de_value]:
  assumes "manifest_ok m"
  shows "de_manifest (json_value (manifest_json m)) = Some m"
proof -
  have "de_list de_data_file (json_value (JArr (map data_file_json (mf_data_files m)))) = Some (mf_data_files m)"
    "de_list de_segment (json_value (JArr (map segment_json (mf_segments m)))) = Some (mf_segments m)"
    "de_list (de_nat 64) (json_value (JArr (map json_u (mf_tombstones m)))) = Some (mf_tombstones m)"
    by (rule de_list_value, use assms in \<open>simp add: manifest_ok_def de_data_file_value de_segment_value de_nat_value\<close>)+
  moreover have "de_schema_version (json_u v) = Some (Some v)" if "v < 2 ^ 32" for v
    using that by (simp add: json_u_def)
  ultimately show ?thesis
    using assms
    by (cases "mf_schema_version m")
      (simp_all add: de_manifest_def manifest_json_def manifest_ok_def Let_def de_value de_bytes_value
        del: json_value.simps(1,2))
qed

lemma de_envelope_value:
  "manifest_ok (ev_manifest ev) \<Longrightarrow> ev_format_version ev < 2 ^ 32 \<Longrightarrow> ev_checksum ev < 2 ^ 32 \<Longrightarrow>
   de_envelope (json_value (envelope_json ev)) = Some ev"
  by (simp add: de_envelope_def envelope_json_def Let_def de_value del: json_value.simps(1,2))

section \<open>Decoding an encoded manifest\<close>

lemma json_within_child:
  assumes "json_within_limits d l (JObj kvs)" "map_of kvs k = Some v"
  shows "json_within_limits (d + 1) (child_array_limit k) v"
  using assms map_of_SomeD [OF assms(2)] by (auto simp: json_within_limits.simps [of d l] list_all_iff)

lemma json_within_array: "json_within_limits d l (JArr xs) \<Longrightarrow> length xs \<le> l"
  by (simp add: json_within_limits.simps [of d l])

lemma collection_limits_accept:
  assumes "json_within_limits d l v" "json_get v ''manifest'' = Some (JObj kvs)"
  shows "validate_manifest_collection_limits v = Inr ()"
proof -
  obtain top where top: "v = JObj top" "map_of top ''manifest'' = Some (JObj kvs)"
    using assms(2) by (auto simp: json_get_def split: json.splits)
  have m: "json_within_limits (d + 1) (child_array_limit ''manifest'') (JObj kvs)"
    using json_within_child assms(1) top by blast
  have "array_within kvs k (child_array_limit k)" for k
  proof -
    have "length xs \<le> child_array_limit k" if "map_of kvs k = Some (JArr xs)" for xs
      using json_within_array [OF json_within_child [OF m that]] .
    then show ?thesis by (auto simp: array_within_def split: option.splits json.splits)
  qed
  from this [of "''data_files''"] this [of "''segments''"] this [of "''tombstones''"] this [of "''schema_ipc''"]
  show ?thesis using assms(2) by (simp add: validate_manifest_collection_limits_def child_array_limit_def)
qed

text \<open>The members of an envelope, and the checksum recomputed from them.\<close>

abbreviation envelope_members :: "manifest_envelope \<Rightarrow> (string \<times> json) list" where
  "envelope_members ev \<equiv>
     [(''format_version'', json_u (ev_format_version ev)), (''manifest'', json_value (manifest_json (ev_manifest ev))),
      (''checksum'', json_u (ev_checksum ev))]"

lemma envelope_value: "json_value (envelope_json ev) = JObj (json_map (envelope_members ev))"
  by (simp add: envelope_json_def)

lemma envelope_member:
  "map_of (json_map (envelope_members ev)) k = map_of (envelope_members ev) k"
  by (rule map_of_json_map_distinct) simp

lemma json_set_checksum:
  "json_set ''checksum'' (json_u 0) (json_map (envelope_members ev)) = json_map (envelope_members (ev\<lparr> ev_checksum := 0 \<rparr>))"
proof (rule assoc_eqI)
  let ?l = "json_map (envelope_members ev) @ [(''checksum'', json_u 0)]"
  have "map fst (json_map ?l) = sort (remdups (map fst ?l))" by (rule keys_json_map)
  moreover have "set (map fst ?l) = set (map fst (envelope_members (ev\<lparr> ev_checksum := 0 \<rparr>)))" by auto
  ultimately show keys: "map fst (json_set ''checksum'' (json_u 0) (json_map (envelope_members ev))) =
      map fst (json_map (envelope_members (ev\<lparr> ev_checksum := 0 \<rparr>)))"
    unfolding json_set_def keys_json_map
    by (intro sorted_distinct_set_unique) (simp_all only: sorted_sort distinct_sort distinct_remdups set_sort set_remdups)
  show "distinct (map fst (json_set ''checksum'' (json_u 0) (json_map (envelope_members ev))))"
    unfolding json_set_def by (rule distinct_keys_json_map)
  fix k
  have "map_of (json_set ''checksum'' (json_u 0) (json_map (envelope_members ev))) k =
      (if k = ''checksum'' then Some (json_u 0) else map_of (rev (json_map (envelope_members ev))) k)"
    unfolding json_set_def map_of_json_map by simp
  also have "map_of (rev (json_map (envelope_members ev))) k = map_of (envelope_members ev) k"
    using map_of_json_map [of "json_map (envelope_members ev)" k] by (simp only: json_map_idem envelope_member)
  finally show "map_of (json_set ''checksum'' (json_u 0) (json_map (envelope_members ev))) k =
      map_of (json_map (envelope_members (ev\<lparr> ev_checksum := 0 \<rparr>))) k"
    unfolding envelope_member by simp
qed

lemma raw_checksum_of_envelope:
  assumes "ev_format_version ev < 2 ^ 32" "ev_checksum ev < 2 ^ 32"
  shows "raw_envelope_checksum cd (json_value (envelope_json ev)) =
    Inr (ev_format_version ev, ev_checksum ev, canonical_checksum cd ev)"
proof -
  have "canonicalize_json (JObj (json_map (envelope_members (ev\<lparr> ev_checksum := 0 \<rparr>)))) =
      canonicalize_json (json_value (envelope_json (ev\<lparr> ev_checksum := 0 \<rparr>)))"
    by (simp only: envelope_value)
  then show ?thesis
    using assms
    by (simp only: envelope_value raw_envelope_checksum_def json.case envelope_member json_set_checksum)
      (simp add: de_nat_value canonical_checksum_def canonical_envelope_bytes_def Let_def envelope_value
        del: canonicalize_json.simps)
qed

definition manifest_fits :: "codecs \<Rightarrow> manifest \<Rightarrow> bool" where
  "manifest_fits cd m \<longleftrightarrow>
     length (encode_manifest cd m) \<le> MAX_MANIFEST_BYTES \<and>
     json_within_limits 0 MAX_MANIFEST_ARRAY_ITEMS (envelope_json (envelope_new cd m)) \<and>
     json_nodes (envelope_json (envelope_new cd m)) \<le> MAX_MANIFEST_PRE_PARSE_NODES"

lemma envelope_new_simps [simp]:
  "ev_format_version (envelope_new cd m) = MANIFEST_FORMAT_VERSION" "ev_manifest (envelope_new cd m) = m"
  by (simp_all add: envelope_new_def Let_def)

lemma envelope_new_checksum:
  "ev_checksum (envelope_new cd m) = canonical_checksum cd (envelope_new cd m)" "ev_checksum (envelope_new cd m) < 2 ^ 32"
proof -
  show c: "ev_checksum (envelope_new cd m) = canonical_checksum cd (envelope_new cd m)"
    by (simp add: envelope_new_def canonical_checksum_def canonical_envelope_bytes_def Let_def)
  show "ev_checksum (envelope_new cd m) < 2 ^ 32"
    unfolding c canonical_checksum_def
    using unsigned_less [of "cd_crc cd (canonical_envelope_bytes cd (envelope_new cd m))"] by simp
qed

lemma preflight_accepts:
  assumes "jc_parse C b = Some j" "json_within_limits 0 MAX_MANIFEST_ARRAY_ITEMS j" "json_nodes j \<le> MAX_MANIFEST_PRE_PARSE_NODES"
  shows "preflight_manifest_json C b = Inr ()"
  using assms json_within_sizes preflight_exact(1) [of 0 MAX_MANIFEST_ARRAY_ITEMS j]
  by (simp add: preflight_manifest_json_def)

lemma json_get_envelope:
  "json_get (json_value (envelope_json ev)) k = map_of (envelope_members ev) k"
  by (simp only: json_get_def envelope_value json.case envelope_member)

lemma decode_encode_manifest:
  assumes parse: "jc_parse (cd_json cd) (encode_manifest cd m) = Some (envelope_json (envelope_new cd m))"
    and ok: "manifest_ok m" and fits: "manifest_fits cd m"
    and sch: "manifest_schema (cd_schema cd) m = Inr sch"
  shows "decode_manifest_with_byte_count cd (mf_version m) (encode_manifest cd m) = Inr (m, length (encode_manifest cd m))"
proof -
  let ?ev = "envelope_new cd m" and ?b = "encode_manifest cd m"
  let ?v = "json_value (envelope_json ?ev)"
  have small: "length ?b \<le> MAX_MANIFEST_BYTES" and w: "json_within_limits 0 MAX_MANIFEST_ARRAY_ITEMS (envelope_json ?ev)"
    and n: "json_nodes (envelope_json ?ev) \<le> MAX_MANIFEST_PRE_PARSE_NODES"
    using fits by (simp_all add: manifest_fits_def)
  have "\<exists>kvs. json_value (manifest_json m) = JObj kvs" by (simp add: manifest_json_def)
  then have coll: "validate_manifest_collection_limits ?v = Inr ()"
    using collection_limits_accept [OF json_within_value [OF w]] json_get_envelope [of ?ev "''manifest''"] by auto
  have fmt: "json_get ?v ''format_version'' \<noteq> None" by (simp add: json_get_envelope)
  have raw: "raw_envelope_checksum cd ?v = Inr (MANIFEST_FORMAT_VERSION, ev_checksum ?ev, ev_checksum ?ev)"
    using raw_checksum_of_envelope [of ?ev cd] envelope_new_checksum [where cd = cd and m = m]
    by (simp add: MANIFEST_FORMAT_VERSION_def)
  have de: "de_envelope ?v = Some ?ev"
    by (rule de_envelope_value) (use ok envelope_new_checksum(2) in \<open>simp_all add: MANIFEST_FORMAT_VERSION_def\<close>)
  have "validate_schema_version (schema_version m) = Inr ()"
    using sch by (auto simp: manifest_schema_def bindE_Inr_iff)
  then have val: "envelope_validate ?ev (mf_version m) = Inr ()" by (simp add: envelope_validate_def)
  show ?thesis
    unfolding decode_manifest_with_byte_count_def Let_def preflight_accepts [OF parse w n] parse option.case
      bindE_simps validate_json_limits_def coll raw de val envelope_new_simps
    using small fmt json_within_value [OF w] sch val by (simp add: de)
qed

section \<open>Printable envelopes\<close>

lemma fold_max_le: "fold max xs (a :: nat) \<le> n \<longleftrightarrow> a \<le> n \<and> (\<forall>x\<in>set xs. x \<le> n)"
  by (induction xs arbitrary: a) auto

lemma json_depth_le:
  "json_depth (JArr xs) \<le> Suc n \<longleftrightarrow> (\<forall>x\<in>set xs. json_depth x \<le> n)"
  "json_depth (JObj kvs) \<le> Suc n \<longleftrightarrow> (\<forall>(k, v)\<in>set kvs. json_depth v \<le> n)"
  by (auto simp: fold_max_le)

lemma json_depth_numbers [simp]: "json_depth (json_u n) = 0" "json_depth (json_i i) = 0" "json_depth (json_f f) = 0"
  by (simp_all add: json_u_def json_i_def json_f_def)

lemma stats_depth: "json_depth (stats_json st) \<le> 3"
proof -
  have "json_depth (val_json v) \<le> 1" for v by (cases v) simp_all
  then have "json_depth (column_stats_json e) \<le> Suc 1" for e
    unfolding column_stats_json_def json_depth_le by simp
  then have "json_depth (stats_json st) \<le> Suc 2" unfolding stats_json_def json_depth_le by (auto simp: numeral_2_eq_2)
  then show ?thesis by simp
qed

lemma manifest_depth: "json_depth (manifest_json m) \<le> 6"
proof -
  have r: "json_depth (range_json r) \<le> 1" for r by (auto simp: range_json_def split: option.splits)
  have "json_depth (data_file_json d) \<le> Suc 3" for d
    unfolding data_file_json_def json_depth_le using stats_depth r le_trans [OF r, of 3] by simp
  moreover have "json_depth (segment_json g) \<le> Suc 3" for g
    unfolding segment_json_def json_depth_le using stats_depth by simp
  ultimately have arr: "json_depth (JArr (map data_file_json (mf_data_files m))) \<le> Suc 4"
    "json_depth (JArr (map segment_json (mf_segments m))) \<le> Suc 4"
    "json_depth (JArr (map json_u (mf_tombstones m))) \<le> Suc 4"
    "json_depth (JArr (map (\<lambda>b. json_u (unat b)) (mf_schema_ipc m))) \<le> Suc 4"
    unfolding json_depth_le by simp_all
  have "json_depth (manifest_json m) \<le> Suc 5"
    unfolding manifest_json_def json_depth_le(2) using arr by (auto split: option.splits simp del: json_depth.simps)
  then show ?thesis by simp
qed

lemma envelope_depth: "json_depth (envelope_json ev) < 128"
proof -
  have "json_depth (envelope_json ev) \<le> Suc 6"
    unfolding envelope_json_def json_depth_le using manifest_depth by simp
  then show ?thesis by simp
qed

fun val_exact :: "(f64 \<Rightarrow> bool) \<Rightarrow> val \<Rightarrow> bool" where
  "val_exact exact (Float64 f) = exact f"
| "val_exact exact _ = True"

definition stats_exact :: "(f64 \<Rightarrow> bool) \<Rightarrow> (string \<times> column_stats) list \<Rightarrow> bool" where
  "stats_exact exact st \<longleftrightarrow> (\<forall>(k, e)\<in>set st. val_exact exact (min_v e) \<and> val_exact exact (max_v e))"

definition manifest_exact :: "(f64 \<Rightarrow> bool) \<Rightarrow> manifest \<Rightarrow> bool" where
  "manifest_exact exact m \<longleftrightarrow>
     (\<forall>d\<in>set (mf_data_files m). stats_exact exact (df_stats d)) \<and>
     (\<forall>g\<in>set (mf_segments m). stats_exact exact (sg_zone_map g))"

lemma printable_numbers [simp]:
  "json_printable exact (json_u n) \<longleftrightarrow> n < 2 ^ 64" "is_i64 i \<Longrightarrow> json_printable exact (json_i i)"
  by (auto simp: json_u_def json_i_def is_i64_def nat_less_iff)

lemma printable_stats: "stats_list_ok st \<Longrightarrow> stats_exact exact st \<Longrightarrow> json_printable exact (stats_json st)"
proof -
  have v: "val_ok v \<Longrightarrow> val_exact exact v \<Longrightarrow> json_printable exact (val_json v)" for v
    by (cases v) (simp_all add: json_f_def)
  assume a: "stats_list_ok st" "stats_exact exact st"
  have "json_printable exact (column_stats_json e)" if "(k, e) \<in> set st" for k e
    using a that v [of "min_v e"] v [of "max_v e"]
    by (fastforce simp: column_stats_json_def stats_list_ok_def stats_exact_def)
  then show "json_printable exact (stats_json st)" by (auto simp: stats_json_def list_all_iff)
qed

lemma printable_manifest:
  assumes "manifest_ok m" "manifest_exact exact m"
  shows "json_printable exact (manifest_json m)"
proof -
  have "json_printable exact (data_file_json d)" if "d \<in> set (mf_data_files m)" for d
    using assms that
    by (auto simp: manifest_ok_def manifest_exact_def data_file_ok_def data_file_json_def range_json_def printable_stats
        split: option.splits)
  moreover have "json_printable exact (segment_json g)" if "g \<in> set (mf_segments m)" for g
    using assms that by (auto simp: manifest_ok_def manifest_exact_def segment_ok_def segment_json_def printable_stats)
  moreover have "unat b < 18446744073709551616" for b :: byte using unat_byte_less [of b] by linarith
  ultimately show ?thesis
    using assms(1) by (auto simp: manifest_json_def manifest_ok_def list_all_iff split: option.splits)
qed

lemma envelope_parses:
  assumes "json_spec (cd_json cd) exact" "manifest_ok m" "manifest_exact exact m"
  shows "jc_parse (cd_json cd) (encode_manifest cd m) = Some (envelope_json (envelope_new cd m))"
proof -
  have "ev_checksum (envelope_new cd m) < 4294967296"
    using envelope_new_checksum(2) [of cd m] by simp
  then have "ev_checksum (envelope_new cd m) < 18446744073709551616" by linarith
  then have "json_printable exact (envelope_json (envelope_new cd m))"
    using printable_manifest [OF assms(2,3)] by (simp add: envelope_json_def MANIFEST_FORMAT_VERSION_def)
  then show ?thesis using assms(1) envelope_depth by (simp add: json_spec_def encode_manifest_def)
qed

section \<open>A reference library\<close>

text \<open>A JSON library with the documented round trip: one chosen tree has a one-byte text, and
  every other tree is written in unary under a countable numbering.\<close>

instance json_number :: countable by countable_datatype
instance json :: countable by countable_datatype

definition reference_json :: "json \<Rightarrow> json_codec" where
  "reference_json chosen =
     \<lparr> jc_parse = (\<lambda>b. if b = [1] then Some chosen else Some (from_nat (length b - 2))),
       jc_print = (\<lambda>j. if j = chosen then [1] else replicate (to_nat j + 2) 0) \<rparr>"

lemma reference_json_spec: "json_spec (reference_json chosen) exact"
proof -
  have "replicate (to_nat j + 2) (0 :: byte) \<noteq> [1]" for j :: json by simp
  then show ?thesis by (simp add: json_spec_def reference_json_def)
qed

definition reference_schema :: schema_codec where
  "reference_schema = \<lparr> sc_encode = (\<lambda>_. [7]), sc_decode = (\<lambda>_. Some schema_empty) \<rparr>"

definition sample_manifest :: manifest where
  "sample_manifest = \<lparr> mf_version = 3, mf_schema_version = Some 2, mf_schema_ipc = [7],
     mf_data_files = [\<lparr> df_name = ''a.strata'', df_byte_len = 40, df_crc32c = 9, df_row_count = 2,
       df_row_id_range = Some (0, 1), df_stats = [(''n'', \<lparr> min_v = Int64 (- 4), max_v = Int64 6 \<rparr>)] \<rparr>],
     mf_next_row_id = 2, mf_tombstones = [1], mf_next_attempt_id = 5, mf_commit_time_high_water = 11,
     mf_committed_at_us = 11, mf_segments = [] \<rparr>"

text \<open>With a constant checksum the envelope does not depend on the library it is printed with.\<close>

definition sample_envelope :: manifest_envelope where
  "sample_envelope = \<lparr> ev_format_version = 1, ev_manifest = sample_manifest, ev_checksum = 8 \<rparr>"

definition sample_codecs :: codecs where
  "sample_codecs = \<lparr> cd_json = reference_json (envelope_json sample_envelope), cd_schema = reference_schema, cd_crc = (\<lambda>_. 8) \<rparr>"

lemma sample_envelope_new: "envelope_new sample_codecs sample_manifest = sample_envelope"
  by (simp add: envelope_new_def Let_def canonical_checksum_def sample_codecs_def sample_envelope_def
      MANIFEST_FORMAT_VERSION_def)

lemma sample_encoded: "encode_manifest sample_codecs sample_manifest = [1]"
  by (simp add: encode_manifest_def sample_envelope_new) (simp add: sample_codecs_def reference_json_def)

lemma sample_manifest_ok: "manifest_ok sample_manifest" "manifest_exact exact sample_manifest"
  by (simp_all add: manifest_ok_def sample_manifest_def data_file_ok_def stats_list_ok_def is_i64_def
      manifest_exact_def stats_exact_def)

lemma sample_manifest_fits: "manifest_fits sample_codecs sample_manifest"
proof -
  have limits: "json_within_limits 0 MAX_MANIFEST_ARRAY_ITEMS (envelope_json sample_envelope)"
    by (simp add: envelope_json_def sample_envelope_def sample_manifest_def manifest_json_def data_file_json_def
        range_json_def stats_json_def column_stats_json_def json_u_def json_i_def json_within_limits.simps
        child_array_limit_def MAX_MANIFEST_JSON_DEPTH_def MAX_MANIFEST_OBJECT_FIELDS_def
        MAX_MANIFEST_STRING_BYTES_def MAX_MANIFEST_ARRAY_ITEMS_def MAX_MANIFEST_DATA_FILES_def
        MAX_MANIFEST_SEGMENTS_def MAX_MANIFEST_TOMBSTONES_def MAX_MANIFEST_SCHEMA_IPC_BYTES_def)
  have "json_nodes (envelope_json sample_envelope) \<le> MAX_MANIFEST_PRE_PARSE_NODES"
    by (simp add: envelope_json_def sample_envelope_def sample_manifest_def manifest_json_def data_file_json_def
        range_json_def stats_json_def column_stats_json_def json_u_def json_i_def MAX_MANIFEST_PRE_PARSE_NODES_def)
  then show ?thesis using limits
    by (simp add: manifest_fits_def sample_envelope_new sample_encoded MAX_MANIFEST_BYTES_def)
qed

lemma sample_manifest_schema: "manifest_schema (cd_schema sample_codecs) sample_manifest = Inr schema_empty"
  by (simp add: manifest_schema_def sample_manifest_def sample_codecs_def reference_schema_def schema_version_def
      validate_schema_version_def INITIAL_SCHEMA_VERSION_def ADD_NULLABLE_COLUMN_SCHEMA_VERSION_def)

section \<open>Properties\<close>

text \<open>C8: A manifest survives its encoding: for every checksum function and every JSON and
  schema library with the documented round trips, decoding the encoded envelope under the
  manifest's own version returns the manifest, provided its fields have their machine widths,
  its float statistics are finite and exactly representable, it is within the format's limits
  and its schema decodes.\<close>

theorem manifest_round_trip:
  assumes "json_spec (cd_json cd) exact" and "manifest_ok m" and "manifest_exact exact m" and "manifest_fits cd m"
    and "manifest_schema (cd_schema cd) m = Inr sch"
  shows "decode_manifest_with_byte_count cd (mf_version m) (encode_manifest cd m) =
    Inr (m, length (encode_manifest cd m))"
  using decode_encode_manifest [OF envelope_parses [OF assms(1-3)] assms(2,4,5)] .

theorem manifest_round_trip_witness:
  "decode_manifest_with_byte_count sample_codecs 3 [1] = Inr (sample_manifest, 1)"
proof -
  have "json_spec (cd_json sample_codecs) (\<lambda>_. True)" by (simp add: sample_codecs_def reference_json_spec)
  from manifest_round_trip [OF this sample_manifest_ok sample_manifest_fits sample_manifest_schema]
  show ?thesis by (simp add: sample_encoded) (simp add: sample_manifest_def)
qed

lemma struct_field_nodes: "struct_field names j n = Some v \<Longrightarrow> json_nodes v < json_nodes j"
proof -
  assume a: "struct_field names j n = Some v"
  then consider (obj) kvs where "j = JObj kvs" "(n, v) \<in> set kvs" | (arr) xs where "j = JArr xs" "v \<in> set xs"
    by (cases j) (auto simp: struct_field_def dest: map_of_SomeD set_zip_rightD)
  then show ?thesis
  proof cases
    case obj
    then have "json_nodes v \<in> set (map (\<lambda>(k, v). json_nodes v) kvs)" by force
    then show ?thesis using obj member_le_sum_list by fastforce
  next
    case arr
    then have "json_nodes v \<in> set (map json_nodes xs)" by simp
    then show ?thesis using arr member_le_sum_list by fastforce
  qed
qed

lemma those_length: "those xs = Some ys \<Longrightarrow> length ys = length xs"
  by (induction xs arbitrary: ys) (auto split: option.splits)

lemma de_list_nodes: "de_list f j = Some xs \<Longrightarrow> length xs < json_nodes j"
proof (cases j)
  case (JArr ys)
  assume "de_list f j = Some xs"
  then have "length xs = length ys" using JArr those_length [of "map f ys" xs] by simp
  moreover have "length ys \<le> sum_list (map json_nodes ys)"
  proof (induction ys)
    case (Cons y ys)
    then show ?case using json_nodes_pos [of y] by simp
  qed simp
  ultimately show ?thesis using JArr by simp
qed simp_all

lemma struct_default_list_nodes:
  "struct_default names j n [] (de_list f) = Some xs \<Longrightarrow> length xs < json_nodes j"
  using struct_field_nodes [of names j n] de_list_nodes [of f] json_nodes_pos [of j]
  by (fastforce simp: struct_default_def split: option.splits)

text \<open>C9: Whatever bytes are decoded, an accepted manifest is bounded: it has the version its
  name promises and a known schema version, its text is at most 64 MiB, and each of its
  collections has fewer than a million entries, the node budget of the preflight, which for
  tombstones and schema bytes is far below the limits named after them.\<close>

theorem decoded_manifest_bounded:
  assumes "decode_manifest_with_byte_count cd version b = Inr (m, n)"
  shows "n = length b \<and> n \<le> 64 * 1024 * 1024 \<and> mf_version m = version \<and> schema_version m \<in> {1, 2} \<and>
    length (mf_data_files m) < 1000000 \<and> length (mf_segments m) < 1000000 \<and>
    length (mf_tombstones m) < 1000000 \<and> length (mf_schema_ipc m) < 1000000"
proof -
  obtain tree ev where d: "length b \<le> MAX_MANIFEST_BYTES" "preflight_manifest_json (cd_json cd) b = Inr ()"
      "jc_parse (cd_json cd) b = Some tree" "de_envelope (json_value tree) = Some ev"
      "envelope_validate ev version = Inr ()" "m = ev_manifest ev" "n = length b"
    using assms
    by (auto simp: decode_manifest_with_byte_count_def Let_def bindE_Inr_iff split: if_splits option.splits)
  have "json_nodes tree \<le> MAX_MANIFEST_PRE_PARSE_NODES"
    using d(2,3) preflight_exact(1) [of 0 MAX_MANIFEST_ARRAY_ITEMS tree]
    by (auto simp: preflight_manifest_json_def split: if_splits)
  then have nodes: "json_nodes (json_value tree) \<le> 1000000"
    using json_nodes_value [of tree] by (simp add: MAX_MANIFEST_PRE_PARSE_NODES_def)
  obtain names j where j: "struct_field names (json_value tree) ''manifest'' = Some j" "de_manifest j = Some m"
    using d(4,6) by (auto simp: de_envelope_def Let_def bind_eq_Some_conv split: if_splits)
  have jn: "json_nodes j < 1000000" using struct_field_nodes [OF j(1)] nodes by linarith
  let ?names = "[''version'', ''schema_version'', ''schema_ipc'', ''data_files'', ''next_row_id'', ''tombstones'',
            ''next_attempt_id'', ''commit_time_high_water'', ''committed_at_us'', ''segments'']"
  obtain u v where u: "struct_field ?names j ''schema_ipc'' = Some u"
      "de_list (\<lambda>x. map_option word_of_nat (de_nat 8 x)) u = Some (mf_schema_ipc m)"
      "struct_field ?names j ''data_files'' = Some v" "de_list de_data_file v = Some (mf_data_files m)"
      "struct_default ?names j ''tombstones'' [] (de_list (de_nat 64)) = Some (mf_tombstones m)"
      "struct_default ?names j ''segments'' [] (de_list de_segment) = Some (mf_segments m)"
    using j(2) by (auto simp: de_manifest_def Let_def bind_eq_Some_conv split: if_splits)
  have "length (mf_schema_ipc m) < 1000000" "length (mf_data_files m) < 1000000"
    using de_list_nodes [OF u(2)] struct_field_nodes [OF u(1)] de_list_nodes [OF u(4)] struct_field_nodes [OF u(3)] jn
    by linarith+
  moreover have "length (mf_tombstones m) < 1000000" "length (mf_segments m) < 1000000"
    using struct_default_list_nodes [OF u(5)] struct_default_list_nodes [OF u(6)] jn by linarith+
  moreover have "mf_version m = version" "schema_version m \<in> {1, 2}"
    using d(5,6) by (auto simp: envelope_validate_def validate_schema_version_def INITIAL_SCHEMA_VERSION_def
        ADD_NULLABLE_COLUMN_SCHEMA_VERSION_def split: if_splits)
  ultimately show ?thesis using d(1,7) by (simp add: MAX_MANIFEST_BYTES_def)
qed

lemma sample_decodes: "decode_manifest_with_byte_count sample_codecs 3 [1] = Inr (sample_manifest, 1)"
proof -
  have "json_spec (cd_json sample_codecs) (\<lambda>_. True)" by (simp add: sample_codecs_def reference_json_spec)
  from decode_encode_manifest [OF envelope_parses [OF this sample_manifest_ok] sample_manifest_ok(1)
      sample_manifest_fits sample_manifest_schema]
  show ?thesis by (simp add: sample_encoded) (simp add: sample_manifest_def)
qed

theorem decoded_manifest_bounded_witness:
  "mf_version sample_manifest = 3 \<and> length (mf_tombstones sample_manifest) < 1000000"
  using decoded_manifest_bounded [OF sample_decodes] by simp

section \<open>Infinite statistics\<close>

lemma those_None: "None \<in> set xs \<Longrightarrow> those xs = None"
  by (induction xs) (auto split: option.splits)

lemma de_val_infinite: "v = Float64 f \<Longrightarrow> \<not> f64_is_finite f \<Longrightarrow> de_val (json_value (val_json v)) = None"
  by (simp add: json_f_def)

definition infinite_bound :: "column_stats \<Rightarrow> bool" where
  "infinite_bound e \<longleftrightarrow> (\<exists>f. (min_v e = Float64 f \<or> max_v e = Float64 f) \<and> \<not> f64_is_finite f)"

lemma de_column_stats_infinite: "infinite_bound e \<Longrightarrow> de_column_stats (json_value (column_stats_json e)) = None"
  unfolding infinite_bound_def
  by (elim exE conjE disjE)
    (simp_all add: de_column_stats_def column_stats_json_def struct_field_value struct_ok_value Let_def
      de_val_infinite bind_eq_None_conv del: json_value.simps(2) val_json.simps)

lemma de_stats_infinite:
  assumes "(c, e) \<in> set st" "distinct (map fst st)" "infinite_bound e"
  shows "de_stats (json_value (stats_json st)) = None"
proof -
  let ?kvs = "map (\<lambda>(k, v). (k, json_value v)) (map (\<lambda>(k, e). (k, column_stats_json e)) st)"
  have keys: "map fst ?kvs = map fst st" by (induction st) auto
  have "set (json_map ?kvs) = set ?kvs" by (rule set_json_map_distinct) (use assms(2) in \<open>unfold keys\<close>)
  moreover have "(c, json_value (column_stats_json e)) \<in> set ?kvs" using assms(1) by force
  ultimately have "(c, json_value (column_stats_json e)) \<in> set (json_map ?kvs)" by simp
  then have "None \<in> set (map (\<lambda>(k, j). map_option (Pair k) (de_column_stats j)) (json_map ?kvs))"
    using de_column_stats_infinite [OF assms(3)] by (force simp: image_iff)
  then show ?thesis by (simp add: stats_json_def those_None)
qed

lemma de_data_file_infinite:
  assumes "de_stats (json_value (stats_json (df_stats d))) = None"
  shows "de_data_file (json_value (data_file_json d)) = None"
  using assms
  by (auto simp: de_data_file_def data_file_json_def Let_def struct_field_value struct_ok_value struct_optional_value
      bind_eq_None_conv simp del: json_value.simps(2))

lemma de_manifest_infinite:
  assumes "d \<in> set (mf_data_files m)" "de_data_file (json_value (data_file_json d)) = None"
  shows "de_manifest (json_value (manifest_json m)) = None"
proof -
  have "None \<in> set (map de_data_file (map json_value (map data_file_json (mf_data_files m))))"
    using assms by (force simp: image_iff)
  then have "de_list de_data_file (json_value (JArr (map data_file_json (mf_data_files m)))) = None"
    using those_None by fastforce
  then show ?thesis
    by (auto simp: de_manifest_def manifest_json_def Let_def struct_field_value struct_ok_value struct_default_value
        bind_eq_None_conv simp del: json_value.simps(1,2) split: option.splits)
qed

text \<open>C21: A manifest whose statistics have an infinite bound, as the statistics of a column
  holding an infinity do, has an encoding that its own decoder always refuses: the bound is
  written as null, which is not a float.\<close>

theorem infinite_statistics_refused:
  assumes "json_spec (cd_json cd) exact" and "json_printable exact (envelope_json (envelope_new cd m))"
    and "d \<in> set (mf_data_files m)" and "(c, e) \<in> set (df_stats d)" and "distinct (map fst (df_stats d))"
    and "infinite_bound e"
  shows "\<exists>err. decode_manifest_with_byte_count cd version (encode_manifest cd m) = Inl err"
proof -
  let ?ev = "envelope_new cd m"
  have parse: "jc_parse (cd_json cd) (encode_manifest cd m) = Some (envelope_json ?ev)"
    using assms(1,2) envelope_depth by (simp add: json_spec_def encode_manifest_def)
  have "de_manifest (json_value (manifest_json m)) = None"
    using de_manifest_infinite [OF assms(3) de_data_file_infinite [OF de_stats_infinite [OF assms(4-6)]]] .
  then have "de_envelope (json_value (envelope_json ?ev)) = None"
    by (auto simp: de_envelope_def envelope_json_def Let_def struct_field_value struct_ok_value bind_eq_None_conv
        simp del: json_value.simps(1,2))
  then have "decode_manifest_with_byte_count cd version (encode_manifest cd m) \<noteq> Inr r" for r
    using parse by (auto simp: decode_manifest_with_byte_count_def Let_def bindE_Inr_iff split: if_splits)
  then show ?thesis by (cases "decode_manifest_with_byte_count cd version (encode_manifest cd m)") auto
qed

definition infinite_manifest :: manifest where
  "infinite_manifest = sample_manifest\<lparr> mf_data_files :=
     [\<lparr> df_name = ''a.strata'', df_byte_len = 40, df_crc32c = 9, df_row_count = 1, df_row_id_range = None,
        df_stats = [(''x'', \<lparr> min_v = Float64 0, max_v = Float64 0x7FF0000000000000 \<rparr>)] \<rparr>] \<rparr>"

theorem infinite_statistics_refused_witness:
  "\<exists>err. decode_manifest_with_byte_count sample_codecs 3 (encode_manifest sample_codecs infinite_manifest) = Inl err"
proof -
  have spec: "json_spec (cd_json sample_codecs) (\<lambda>_. True)" by (simp add: sample_codecs_def reference_json_spec)
  have "ev_checksum (envelope_new sample_codecs infinite_manifest) = 8"
    by (simp add: envelope_new_def Let_def canonical_checksum_def sample_codecs_def)
  then have pr: "json_printable (\<lambda>_. True) (envelope_json (envelope_new sample_codecs infinite_manifest))"
    by (simp add: envelope_json_def manifest_json_def infinite_manifest_def sample_manifest_def MANIFEST_FORMAT_VERSION_def
        data_file_json_def range_json_def stats_json_def column_stats_json_def json_f_def f64_is_finite_def
        f64_mag_def F64_INFINITY_MAG_def is_i64_def)
  have inf: "infinite_bound \<lparr> min_v = Float64 0, max_v = Float64 0x7FF0000000000000 \<rparr>"
    unfolding infinite_bound_def
    by (rule exI [of _ "0x7FF0000000000000"]) (simp add: f64_is_finite_def f64_mag_def F64_INFINITY_MAG_def)
  show ?thesis
    by (rule infinite_statistics_refused [OF spec pr, where d = "hd (mf_data_files infinite_manifest)", OF _ _ _ inf])
      (simp_all add: infinite_manifest_def)
qed

end
