(* ===== verification/IndexError.thy ===== *)
theory IndexError
  imports Main
begin

text \<open>The error type of the index (\<open>crates/index/src/hnsw.rs\<close>); display texts are dropped.\<close>

datatype index_error =
    MaxConnectionTooLarge nat
  | DimensionMismatch nat nat
  | RowIdOutOfRange nat nat
  | DuplicateRowId nat
  | IndexIo
  | SegmentEmpty
  | SegmentTooLarge
  | SegmentCorrupt
  | NeighborShrinkDidNotConverge

end
