(* ===== verification/SegmentFormat.thy ===== *)
theory SegmentFormat
  imports Stats IndexError
begin

text \<open>
  The immutable vector segment (\<open>crates/index/src/segment_format.rs\<close>, \<open>segment_writer.rs\<close>,
  \<open>segment_reader.rs\<close> and the trait of \<open>node_source.rs\<close>): the writer that lays a graph out in
  four sections behind a 128-byte checksummed header, the validating reader, and its accessors.
  The CRC32C function belongs to a library and is a parameter.
\<close>

section \<open>Graphs\<close>

record node_source =
  ns_entry_point :: "(nat \<times> nat) option"
  ns_level :: "nat \<Rightarrow> nat option"
  ns_neighbors :: "nat \<Rightarrow> nat \<Rightarrow> nat list"
  ns_vector :: "nat \<Rightarrow> f32 list option"
  ns_dimension :: nat

record segment_params =
  sp_m :: nat
  sp_mmax0 :: nat
  sp_mmax :: nat
  sp_ef_construction :: nat
  sp_m_l :: f64

section \<open>Format\<close>

definition SEGMENT_MAGIC :: bytes where
  "SEGMENT_MAGIC = [0x53, 0x54, 0x52, 0x54, 0x53, 0x45, 0x47, 0]"

definition SEGMENT_FORMAT_VERSION :: nat where
  "SEGMENT_FORMAT_VERSION = 1"

definition HEADER_LEN :: nat where
  "HEADER_LEN = 128"

definition FLAG_LITTLE_ENDIAN :: nat where
  "FLAG_LITTLE_ENDIAN = 1"

definition METRIC_L2 :: nat where
  "METRIC_L2 = 0"

definition u32_max :: nat where
  "u32_max = 2 ^ 32 - 1"

definition NO_ENTRY_POINT :: nat where
  "NO_ENTRY_POINT = u32_max"

definition VECTORS_ALIGN :: nat where
  "VECTORS_ALIGN = 64"

definition SECTION_COUNT :: nat where
  "SECTION_COUNT = 4"

text \<open>Rounding up to a multiple, saturating.\<close>

definition align_up :: "nat \<Rightarrow> nat \<Rightarrow> nat" where
  "align_up v a = min (((v + a - 1) div a) * a) u64_max"

section \<open>Writer\<close>

definition splice :: "bytes \<Rightarrow> nat \<Rightarrow> bytes \<Rightarrow> bytes" where
  "splice out at src = take at out @ src @ drop (at + length src) out"

definition write_at :: "nat \<Rightarrow> bytes \<Rightarrow> bytes \<Rightarrow> (index_error, bytes) result" where
  "write_at at src out =
     (case checked_add at (length src) of
        None \<Rightarrow> Inl SegmentTooLarge
      | Some e \<Rightarrow> if e \<le> length out then Inr (splice out at src) else Inl SegmentCorrupt)"

fun write_all :: "(nat \<times> bytes) list \<Rightarrow> bytes \<Rightarrow> (index_error, bytes) result" where
  "write_all [] out = Inr out"
| "write_all ((at, src) # ws) out = bindE (write_at at src out) (write_all ws)"

text \<open>Writes one after the other, the cursor advancing by each length.\<close>

fun consecutive :: "nat \<Rightarrow> bytes list \<Rightarrow> (nat \<times> bytes) list" where
  "consecutive cursor [] = []"
| "consecutive cursor (b # bs) = (cursor, b) # consecutive (cursor + length b) bs"

fun strictly_ascending :: "nat list \<Rightarrow> bool" where
  "strictly_ascending (a # b # xs) = (a < b \<and> strictly_ascending (b # xs))"
| "strictly_ascending _ = True"

fun non_decreasing :: "nat list \<Rightarrow> bool" where
  "non_decreasing (a # b # xs) = (a \<le> b \<and> non_decreasing (b # xs))"
| "non_decreasing _ = True"

fun collect_levels :: "node_source \<Rightarrow> nat list \<Rightarrow> (index_error, nat list) result" where
  "collect_levels src [] = Inr []"
| "collect_levels src (local # rest) =
     bindE (of_option SegmentCorrupt (ns_level src local)) (\<lambda>level.
       bindE (guardE (level < 256) SegmentCorrupt) (\<lambda>_.
         bindE (of_option SegmentCorrupt (ns_vector src local)) (\<lambda>vector.
           bindE (guardE (length vector = ns_dimension src) (DimensionMismatch (length vector) (ns_dimension src)))
             (\<lambda>_. bindE (collect_levels src rest) (\<lambda>ls. Inr (level # ls))))))"

fun csr_loop ::
  "node_source \<Rightarrow> nat \<Rightarrow> nat \<Rightarrow> nat list \<Rightarrow> nat list \<times> nat list \<Rightarrow> (index_error, nat list \<times> nat list) result" where
  "csr_loop src n layer [] acc = Inr acc"
| "csr_loop src n layer (local # rest) (offsets, neighbors) =
     bindE (guardE (list_all (\<lambda>o1. o1 < n) (ns_neighbors src local layer)) SegmentCorrupt) (\<lambda>_.
       let neighbors' = neighbors @ ns_neighbors src local layer
       in bindE (guardE (length neighbors' \<le> u32_max) SegmentTooLarge) (\<lambda>_.
            csr_loop src n layer rest (offsets @ [length neighbors'], neighbors')))"

fun csr_layers :: "node_source \<Rightarrow> nat \<Rightarrow> nat list \<Rightarrow> (index_error, (nat list \<times> nat list) list) result" where
  "csr_layers src n [] = Inr []"
| "csr_layers src n (layer # layers) =
     bindE (csr_loop src n layer [0..<n] ([0], [])) (\<lambda>csr.
       bindE (csr_layers src n layers) (\<lambda>rest. Inr (csr # rest)))"

fun adjacency_size :: "(nat list \<times> nat list) list \<Rightarrow> nat \<Rightarrow> nat option" where
  "adjacency_size [] acc = Some acc"
| "adjacency_size ((offsets, neighbors) # rest) acc =
     (case checked_add (length offsets) (length neighbors) of
        None \<Rightarrow> None
      | Some elems \<Rightarrow>
          (case checked_mul elems 4 of
             None \<Rightarrow> None
           | Some per_layer \<Rightarrow>
               (case checked_add acc per_layer of None \<Rightarrow> None | Some acc' \<Rightarrow> adjacency_size rest acc')))"

definition ints_bytes :: "nat \<Rightarrow> nat list \<Rightarrow> bytes" where
  "ints_bytes k xs = concat (map (le_bytes k) xs)"

definition f32s_bytes :: "f32 list \<Rightarrow> bytes" where
  "f32s_bytes v = ints_bytes 4 (map unat v)"

fun collect_vectors :: "node_source \<Rightarrow> nat list \<Rightarrow> (index_error, bytes list) result" where
  "collect_vectors src [] = Inr []"
| "collect_vectors src (local # rest) =
     bindE (of_option SegmentCorrupt (ns_vector src local)) (\<lambda>vector.
       bindE (collect_vectors src rest) (\<lambda>vs. Inr (f32s_bytes vector # vs)))"

definition header_writes ::
  "nat \<Rightarrow> nat \<Rightarrow> nat \<Rightarrow> nat \<Rightarrow> segment_params \<Rightarrow> nat \<Rightarrow> nat \<Rightarrow> nat list \<Rightarrow> nat list \<Rightarrow> (nat \<times> bytes) list" where
  "header_writes n dim max_level entry_point params row_id_min row_id_max offs lens =
     [(0, SEGMENT_MAGIC), (8, le_bytes 4 SEGMENT_FORMAT_VERSION), (12, le_bytes 4 FLAG_LITTLE_ENDIAN),
      (16, le_bytes 4 n), (20, le_bytes 4 dim), (24, le_bytes 4 max_level), (28, le_bytes 4 entry_point),
      (32, le_bytes 1 METRIC_L2), (34, le_bytes 2 (sp_m params)), (36, le_bytes 2 (sp_mmax0 params)),
      (38, le_bytes 2 (sp_mmax params)), (40, le_bytes 2 (sp_ef_construction params)),
      (48, le_bytes 8 (unat (sp_m_l params))), (56, le_bytes 8 row_id_min), (64, le_bytes 8 row_id_max)] @
     concat (map (\<lambda>i. [(72 + i * 8, le_bytes 8 (offs ! i)), (104 + i * 4, le_bytes 4 (lens ! i))])
       [0..<SECTION_COUNT])"

definition encode_segment ::
  "checksum \<Rightarrow> node_source \<Rightarrow> nat list \<Rightarrow> segment_params \<Rightarrow> (index_error, bytes) result" where
  "encode_segment crc src row_ids params =
     (let n = length row_ids; dim = ns_dimension src in
      bindE (guardE (row_ids \<noteq> []) SegmentEmpty) (\<lambda>_.
      bindE (guardE (n \<le> u32_max) SegmentTooLarge) (\<lambda>_.
      bindE (guardE (strictly_ascending row_ids) SegmentCorrupt) (\<lambda>_.
      bindE (guardE (dim \<noteq> 0) SegmentEmpty) (\<lambda>_.
      bindE (guardE (dim \<le> u32_max) SegmentTooLarge) (\<lambda>_.
      bindE (collect_levels src [0..<n]) (\<lambda>levels.
      let max_level = fold max levels 0 in
      bindE (of_option SegmentEmpty (ns_entry_point src)) (\<lambda>(entry_local, _).
      bindE (guardE (entry_local < n) SegmentCorrupt) (\<lambda>_.
      bindE (csr_layers src n [0..<Suc max_level]) (\<lambda>layers.
      bindE (of_option SegmentTooLarge (checked_mul n 8)) (\<lambda>row_ids_len.
      bindE (of_option SegmentTooLarge (adjacency_size layers 0)) (\<lambda>adjacency_len.
      bindE (of_option SegmentTooLarge (case checked_mul n dim of None \<Rightarrow> None | Some e \<Rightarrow> checked_mul e 4)) (\<lambda>vectors_len.
      bindE (of_option SegmentTooLarge (checked_add HEADER_LEN row_ids_len)) (\<lambda>off_levels.
      bindE (of_option SegmentTooLarge (checked_add off_levels n)) (\<lambda>levels_end.
      let off_adjacency = align_up levels_end 4 in
      bindE (of_option SegmentTooLarge (checked_add off_adjacency adjacency_len)) (\<lambda>adjacency_end.
      let off_vectors = align_up adjacency_end VECTORS_ALIGN in
      bindE (of_option SegmentTooLarge (checked_add off_vectors vectors_len)) (\<lambda>total.
      bindE (write_all [(HEADER_LEN, ints_bytes 8 row_ids), (off_levels, map word_of_nat levels)]
               (replicate total 0)) (\<lambda>out.
      bindE (write_all (consecutive off_adjacency
               (concat (map (\<lambda>(offsets, neighbors). [ints_bytes 4 offsets, ints_bytes 4 neighbors]) layers))) out) (\<lambda>out.
      bindE (collect_vectors src [0..<n]) (\<lambda>vectors.
      bindE (write_all (consecutive off_vectors vectors) out) (\<lambda>out.
      bindE (guardE (sp_m params < 2 ^ 16 \<and> sp_mmax0 params < 2 ^ 16 \<and> sp_mmax params < 2 ^ 16 \<and>
               sp_ef_construction params < 2 ^ 16) SegmentTooLarge) (\<lambda>_.
      bindE (guardE (list_all (\<lambda>l. l \<le> u32_max) [row_ids_len, n, adjacency_len, vectors_len]) SegmentTooLarge) (\<lambda>_.
      bindE (write_all (header_writes n dim max_level entry_local params (hd row_ids) (last row_ids)
               [HEADER_LEN, off_levels, off_adjacency, off_vectors]
               [row_ids_len, n, adjacency_len, vectors_len]) out) (\<lambda>out.
      bindE (write_at 120 (le_bytes 4 (unat (crc (drop HEADER_LEN out)))) out) (\<lambda>out.
      write_at 124 (le_bytes 4 (unat (crc (take 124 out)))) out)))))))))))))))))))))))))"

section \<open>Reader\<close>

definition slice :: "bytes \<Rightarrow> nat \<Rightarrow> nat \<Rightarrow> bytes option" where
  "slice b i j = (if i \<le> j \<and> j \<le> length b then Some (take (j - i) (drop i b)) else None)"

definition read_le :: "nat \<Rightarrow> bytes \<Rightarrow> nat \<Rightarrow> nat" where
  "read_le k b at = (case slice b at (at + k) of None \<Rightarrow> 0 | Some s \<Rightarrow> from_le s)"

text \<open>A view of the bytes at an offset of an aligned buffer as integers of \<open>k\<close> bytes.\<close>

definition cast_ints :: "nat \<Rightarrow> nat \<Rightarrow> bytes \<Rightarrow> nat list option" where
  "cast_ints k off s =
     (if off mod k = 0 \<and> length s mod k = 0
      then Some (map (\<lambda>i. from_le (take k (drop (k * i) s))) [0..<length s div k]) else None)"

definition ints_at :: "nat \<Rightarrow> bytes \<Rightarrow> nat \<Rightarrow> nat \<Rightarrow> nat list option" where
  "ints_at k b i j = (case slice b i j of None \<Rightarrow> None | Some s \<Rightarrow> cast_ints k i s)"

record segment_reader =
  sr_bytes :: bytes
  sr_node_count :: nat
  sr_dim :: nat
  sr_max_level :: nat
  sr_entry :: "(nat \<times> nat) option"
  sr_row_ids_off :: nat
  sr_levels_off :: nat
  sr_vectors_off :: nat
  sr_layer_off :: "(nat \<times> nat) list"
  sr_params :: segment_params
  sr_format_version :: nat
  sr_row_id_min :: nat
  sr_row_id_max :: nat

fun read_layers ::
  "bytes \<Rightarrow> nat \<Rightarrow> nat \<Rightarrow> nat \<Rightarrow> nat \<Rightarrow> (index_error, (nat \<times> nat) list \<times> nat) result" where
  "read_layers b n adjacency_end 0 cursor = Inr ([], cursor)"
| "read_layers b n adjacency_end (Suc layers) cursor =
     bindE (of_option SegmentCorrupt (checked_mul (n + 1) 4)) (\<lambda>offsets_bytes.
     bindE (of_option SegmentCorrupt (checked_add cursor offsets_bytes)) (\<lambda>offsets_end.
     bindE (guardE (offsets_end \<le> adjacency_end) SegmentCorrupt) (\<lambda>_.
     bindE (of_option SegmentCorrupt (ints_at 4 b cursor offsets_end)) (\<lambda>offsets.
     bindE (guardE (offsets \<noteq> [] \<and> hd offsets = 0) SegmentCorrupt) (\<lambda>_.
     bindE (guardE (non_decreasing offsets) SegmentCorrupt) (\<lambda>_.
     bindE (of_option SegmentCorrupt (checked_mul (last offsets) 4)) (\<lambda>neighbors_bytes.
     bindE (of_option SegmentCorrupt (checked_add offsets_end neighbors_bytes)) (\<lambda>neighbors_end.
     bindE (guardE (neighbors_end \<le> adjacency_end) SegmentCorrupt) (\<lambda>_.
     bindE (of_option SegmentCorrupt (ints_at 4 b offsets_end neighbors_end)) (\<lambda>neighbors.
     bindE (guardE (list_all (\<lambda>o1. o1 < n) neighbors) SegmentCorrupt) (\<lambda>_.
     bindE (read_layers b n adjacency_end layers neighbors_end) (\<lambda>(rest, c).
       Inr ((cursor, offsets_end) # rest, c)))))))))))))"

definition check_section :: "bytes \<Rightarrow> nat \<Rightarrow> (index_error, unit) result" where
  "check_section b i =
     (let off = read_le 8 b (72 + i * 8); len = read_le 4 b (104 + i * 4) in
      bindE (of_option SegmentCorrupt (checked_add off len)) (\<lambda>e.
        guardE (HEADER_LEN \<le> off \<and> e \<le> length b) SegmentCorrupt))"

definition segment_from_bytes :: "checksum \<Rightarrow> bytes \<Rightarrow> (index_error, segment_reader) result" where
  "segment_from_bytes crc b =
     (let off = (\<lambda>i. read_le 8 b (72 + i * 8)); len = (\<lambda>i. read_le 4 b (104 + i * 4));
          n = read_le 4 b 16; dim = read_le 4 b 20; max_level = read_le 4 b 24;
          check = (\<lambda>c. guardE c SegmentCorrupt)
      in
      bindE (check (HEADER_LEN \<le> length b)) (\<lambda>_.
      bindE (check (slice b 0 8 = Some SEGMENT_MAGIC)) (\<lambda>_.
      bindE (check (read_le 4 b 124 = unat (crc (take 124 b)))) (\<lambda>_.
      bindE (check (read_le 4 b 8 = SEGMENT_FORMAT_VERSION)) (\<lambda>_.
      bindE (check (odd (read_le 4 b 12))) (\<lambda>_.
      bindE (check (read_le 1 b 32 = METRIC_L2)) (\<lambda>_.
      bindE (check (n \<noteq> 0)) (\<lambda>_.
      bindE (check (dim \<noteq> 0)) (\<lambda>_.
      bindE (check (max_level \<le> 255)) (\<lambda>_.
      bindE (check_section b 0) (\<lambda>_. bindE (check_section b 1) (\<lambda>_.
      bindE (check_section b 2) (\<lambda>_. bindE (check_section b 3) (\<lambda>_.
      bindE (check (off 0 + len 0 \<le> off 1 \<and> off 1 + len 1 \<le> off 2 \<and> off 2 + len 2 \<le> off 3)) (\<lambda>_.
      bindE (of_option SegmentCorrupt (checked_mul n 8)) (\<lambda>expected_row_ids.
      bindE (check (len 0 = expected_row_ids)) (\<lambda>_.
      bindE (check (len 1 = n)) (\<lambda>_.
      bindE (of_option SegmentCorrupt (case checked_mul n dim of None \<Rightarrow> None | Some e \<Rightarrow> checked_mul e 4)) (\<lambda>expected_vectors.
      bindE (check (len 3 = expected_vectors)) (\<lambda>_.
      bindE (check (off 0 mod 8 = 0)) (\<lambda>_.
      bindE (check (off 2 mod 4 = 0)) (\<lambda>_.
      bindE (check (off 3 mod VECTORS_ALIGN = 0)) (\<lambda>_.
      bindE (check (read_le 4 b 120 = unat (crc (drop HEADER_LEN b)))) (\<lambda>_.
      bindE (of_option SegmentCorrupt (ints_at 8 b (off 0) (off 0 + len 0))) (\<lambda>row_ids.
      bindE (check (strictly_ascending row_ids)) (\<lambda>_.
      bindE (of_option SegmentCorrupt (ints_at 1 b (off 1) (off 1 + len 1))) (\<lambda>levels.
      bindE (check (list_all (\<lambda>l. l \<le> max_level) levels)) (\<lambda>_.
      bindE (read_layers b n (off 2 + len 2) (max_level + 1) (off 2)) (\<lambda>(layer_off, cursor).
      bindE (check (cursor = off 2 + len 2)) (\<lambda>_.
      bindE (let e = read_le 4 b 28 in
             if e = NO_ENTRY_POINT then Inr None
             else bindE (check (e < n)) (\<lambda>_. Inr (Some (e, levels ! e)))) (\<lambda>entry.
      Inr \<lparr> sr_bytes = b, sr_node_count = n, sr_dim = dim, sr_max_level = max_level, sr_entry = entry,
            sr_row_ids_off = off 0, sr_levels_off = off 1, sr_vectors_off = off 3, sr_layer_off = layer_off,
            sr_params = \<lparr> sp_m = read_le 2 b 34, sp_mmax0 = read_le 2 b 36, sp_mmax = read_le 2 b 38,
              sp_ef_construction = read_le 2 b 40, sp_m_l = word_of_nat (read_le 8 b 48) \<rparr>,
            sr_format_version = read_le 4 b 8,
            sr_row_id_min = read_le 8 b 56, sr_row_id_max = read_le 8 b 64 \<rparr>)))))))))))))))))))))))))))))))"

definition row_id_slice :: "segment_reader \<Rightarrow> nat list" where
  "row_id_slice r =
     (case ints_at 8 (sr_bytes r) (sr_row_ids_off r) (sr_row_ids_off r + sr_node_count r * 8) of
        None \<Rightarrow> [] | Some xs \<Rightarrow> xs)"

definition levels_of :: "segment_reader \<Rightarrow> nat list" where
  "levels_of r =
     (case slice (sr_bytes r) (sr_levels_off r) (sr_levels_off r + sr_node_count r) of
        None \<Rightarrow> [] | Some s \<Rightarrow> map unat s)"

definition layer_offsets :: "segment_reader \<Rightarrow> nat \<Rightarrow> nat list" where
  "layer_offsets r layer =
     (if layer < length (sr_layer_off r)
      then (case sr_layer_off r ! layer of (offsets_off, neighbors_off) \<Rightarrow>
              (case ints_at 4 (sr_bytes r) offsets_off neighbors_off of None \<Rightarrow> [] | Some xs \<Rightarrow> xs))
      else [])"

definition layer_neighbors :: "segment_reader \<Rightarrow> nat \<Rightarrow> nat list" where
  "layer_neighbors r layer =
     (if layer < length (sr_layer_off r)
      then (case sr_layer_off r ! layer of (_, neighbors_off) \<Rightarrow>
              let offs = layer_offsets r layer; cnt = (if offs = [] then 0 else last offs)
              in (case ints_at 4 (sr_bytes r) neighbors_off (neighbors_off + cnt * 4) of None \<Rightarrow> [] | Some xs \<Rightarrow> xs))
      else [])"

definition reader_level :: "segment_reader \<Rightarrow> nat \<Rightarrow> nat option" where
  "reader_level r local = (if local < length (levels_of r) then Some (levels_of r ! local) else None)"

definition reader_neighbors :: "segment_reader \<Rightarrow> nat \<Rightarrow> nat \<Rightarrow> nat list" where
  "reader_neighbors r local level =
     (if local \<ge> sr_node_count r \<or> level > sr_max_level r then []
      else let offsets = layer_offsets r level in
        if local + 1 < length offsets
        then (let i = offsets ! local; j = offsets ! (local + 1); nbrs = layer_neighbors r level
              in if i \<le> j \<and> j \<le> length nbrs then take (j - i) (drop i nbrs) else [])
        else [])"

definition reader_vector :: "segment_reader \<Rightarrow> nat \<Rightarrow> f32 list option" where
  "reader_vector r local =
     (if local \<ge> sr_node_count r then None
      else case checked_mul local (sr_dim r * 4) of
        None \<Rightarrow> None
      | Some d \<Rightarrow> (case checked_add (sr_vectors_off r) d of
          None \<Rightarrow> None
        | Some start \<Rightarrow> (case checked_add start (sr_dim r * 4) of
            None \<Rightarrow> None
          | Some e \<Rightarrow> map_option (map word_of_nat) (ints_at 4 (sr_bytes r) start e))))"

definition reader_row_id_at :: "segment_reader \<Rightarrow> nat \<Rightarrow> nat option" where
  "reader_row_id_at r local = (if local < length (row_id_slice r) then Some (row_id_slice r ! local) else None)"

definition reader_row_id :: "segment_reader \<Rightarrow> nat \<Rightarrow> nat" where
  "reader_row_id r local = (case reader_row_id_at r local of None \<Rightarrow> u64_max | Some x \<Rightarrow> x)"

definition reader_row_id_range :: "segment_reader \<Rightarrow> nat \<times> nat" where
  "reader_row_id_range r = (sr_row_id_min r, sr_row_id_max r)"

text \<open>The reader as a graph, for the search that runs over either.\<close>

definition reader_source :: "segment_reader \<Rightarrow> node_source" where
  "reader_source r =
     \<lparr> ns_entry_point = sr_entry r, ns_level = reader_level r, ns_neighbors = reader_neighbors r,
       ns_vector = reader_vector r, ns_dimension = sr_dim r \<rparr>"

section \<open>Writes\<close>

lemma length_splice [simp]: "at + length src \<le> length out \<Longrightarrow> length (splice out at src) = length out"
  by (simp add: splice_def)

lemma splice_append:
  "at + length src \<le> length H \<Longrightarrow> splice (H @ body) at src = splice H at src @ body"
  by (simp add: splice_def)

lemma splice_fill:
  assumes "length pre \<le> at" "at + length src \<le> length pre + L"
  shows "splice (pre @ replicate L 0) at src =
    (pre @ replicate (at - length pre) 0 @ src) @ replicate (L - (at - length pre) - length src) 0"
proof -
  have "at - length pre \<le> L" using assms by simp
  then show ?thesis using assms by (simp add: splice_def min_def)
qed

lemma write_all_fill:
  assumes "length pre \<le> at" "at + length src \<le> length pre + L" "length pre + L \<le> u64_max"
  shows "write_at at src (pre @ replicate L 0) =
    Inr ((pre @ replicate (at - length pre) 0 @ src) @ replicate (L - (at - length pre) - length src) 0)"
  using assms splice_fill [OF assms(1,2)] by (simp add: write_at_def checked_add_def)

lemma write_all_consecutive:
  assumes "length pre \<le> c" "c + length (concat bss) \<le> length pre + L" "length pre + L \<le> u64_max"
  shows "write_all (consecutive c bss) (pre @ replicate L 0) =
    Inr ((pre @ replicate (c - length pre) 0 @ concat bss) @ replicate (L - (c - length pre) - length (concat bss)) 0)"
  using assms
proof (induction bss arbitrary: c pre L)
  case Nil
  then have "L = (c - length pre) + (L - (c - length pre))" by simp
  then show ?case by (metis append.assoc append_Nil2 concat.simps(1) consecutive.simps(1) diff_zero list.size(3)
        replicate_add write_all.simps(1))
next
  case (Cons b bss)
  let ?pre = "pre @ replicate (c - length pre) 0 @ b"
  let ?L = "L - (c - length pre) - length b"
  have "write_at c b (pre @ replicate L 0) = Inr (?pre @ replicate ?L 0)"
    using write_all_fill [of pre c b L] Cons.prems by simp
  moreover have "write_all (consecutive (c + length b) bss) (?pre @ replicate ?L 0) =
      Inr ((?pre @ replicate (c + length b - length ?pre) 0 @ concat bss) @
        replicate (?L - (c + length b - length ?pre) - length (concat bss)) 0)"
    using Cons.prems by (intro Cons.IH) auto
  ultimately show ?case using Cons.prems by simp
qed

lemma write_all_header:
  assumes "\<forall>(at, src)\<in>set ws. at + length src \<le> length H" "length H \<le> u64_max"
  shows "write_all ws (H @ body) = Inr (fold (\<lambda>(at, src) h. splice h at src) ws H @ body)"
  using assms
proof (induction ws arbitrary: H)
  case (Cons w ws)
  obtain at src where w: "w = (at, src)" by fastforce
  have "write_at at src (H @ body) = Inr (splice H at src @ body)"
    using Cons.prems w by (auto simp: write_at_def checked_add_def splice_append)
  moreover have "write_all ws (splice H at src @ body) =
      Inr (fold (\<lambda>(at, src) h. splice h at src) ws (splice H at src) @ body)"
    using Cons.prems w by (intro Cons.IH) auto
  ultimately show ?case using w by simp
qed simp

lemma length_fold_splice:
  "\<forall>(at, src)\<in>set ws. at + length src \<le> length H \<Longrightarrow>
   length (fold (\<lambda>(at, src) h. splice h at src) ws H) = length H"
  by (induction ws arbitrary: H) auto

section \<open>Reads\<close>

text \<open>The bytes of a header field, and how a write changes them.\<close>

definition header_field :: "nat \<Rightarrow> nat \<Rightarrow> bytes \<Rightarrow> bytes" where
  "header_field at k b = take k (drop at b)"

lemma header_field_same: "at + k \<le> length h \<Longrightarrow> length src = k \<Longrightarrow> header_field at k (splice h at src) = src"
  by (simp add: header_field_def splice_def)

lemma header_field_other:
  assumes "at + k \<le> w \<or> w + length src \<le> at" "w + length src \<le> length h"
  shows "header_field at k (splice h w src) = header_field at k h"
proof -
  consider "at + k \<le> w" | "w + length src \<le> at" using assms(1) by blast
  then show ?thesis
  proof cases
    case 1
    then show ?thesis using assms(2) by (simp add: header_field_def splice_def take_drop)
  next
    case 2
    then have "drop (at - w) src = []" "drop (at - length (take w h)) src = []" using assms(2) by simp_all
    then show ?thesis using assms(2) 2
      by (simp add: header_field_def splice_def min_def)
  qed
qed

lemma read_le_header: "at + k \<le> length h \<Longrightarrow> read_le k (h @ body) at = from_le (header_field at k h)"
  by (simp add: read_le_def slice_def header_field_def)

lemma slice_header: "at + k \<le> length h \<Longrightarrow> slice (h @ body) at (at + k) = Some (header_field at k h)"
  by (simp add: slice_def header_field_def)

lemma slice_mid: "length pre = i \<Longrightarrow> j = i + length x \<Longrightarrow> slice (pre @ x @ post) i j = Some x"
  by (simp add: slice_def)

lemma length_ints_bytes [simp]: "length (ints_bytes k xs) = k * length xs"
  by (induction xs) (auto simp: ints_bytes_def)

lemma ints_bytes_chunk: "i < length xs \<Longrightarrow> take k (drop (k * i) (ints_bytes k xs)) = le_bytes k (xs ! i)"
proof (induction xs arbitrary: i)
  case (Cons x xs)
  then show ?case by (cases i) (auto simp: ints_bytes_def)
qed simp

lemma cast_ints_bytes:
  "0 < k \<Longrightarrow> off mod k = 0 \<Longrightarrow> \<forall>x\<in>set xs. x < 256 ^ k \<Longrightarrow> cast_ints k off (ints_bytes k xs) = Some xs"
  by (auto simp: cast_ints_def ints_bytes_chunk from_le_bytes_id intro!: nth_equalityI)

lemma ints_at_mid:
  "length pre = i \<Longrightarrow> j = i + k * length xs \<Longrightarrow> 0 < k \<Longrightarrow> i mod k = 0 \<Longrightarrow> \<forall>x\<in>set xs. x < 256 ^ k \<Longrightarrow>
   ints_at k (pre @ ints_bytes k xs @ post) i j = Some xs"
  by (simp add: ints_at_def slice_mid cast_ints_bytes)

section \<open>Layers\<close>

lemma csr_loop_ok:
  "csr_loop src n layer ls (offs, nbrs) = Inr (offs', nbrs') \<Longrightarrow>
   nbrs' = nbrs @ concat (map (\<lambda>l. ns_neighbors src l layer) ls) \<and>
   offs' = offs @ map (\<lambda>i. length nbrs + length (concat (map (\<lambda>l. ns_neighbors src l layer) (take (Suc i) ls))))
           [0..<length ls] \<and>
   (\<forall>l\<in>set ls. \<forall>x\<in>set (ns_neighbors src l layer). x < n) \<and>
   (ls \<noteq> [] \<longrightarrow> length nbrs' \<le> u32_max)"
proof (induction ls arbitrary: offs nbrs)
  case (Cons l ls)
  let ?f = "\<lambda>l. ns_neighbors src l layer"
  have st: "list_all (\<lambda>x. x < n) (?f l)" "length (nbrs @ ?f l) \<le> u32_max"
      "csr_loop src n layer ls (offs @ [length (nbrs @ ?f l)], nbrs @ ?f l) = Inr (offs', nbrs')"
    using Cons.prems by (simp_all add: Let_def bindE_Inr_iff)
  note ih = Cons.IH [OF st(3)]
  have "map (\<lambda>i. length nbrs + length (concat (map ?f (take (Suc i) (l # ls))))) [0..<length (l # ls)] =
      length (nbrs @ ?f l) # map (\<lambda>i. length (nbrs @ ?f l) + length (concat (map ?f (take (Suc i) ls)))) [0..<length ls]"
    by (simp add: upt_conv_Cons map_Suc_upt [symmetric] add.assoc comp_def del: upt_Suc)
  then show ?case using ih st(1,2) by (auto simp: list_all_iff)
qed simp

text \<open>A layer in compressed form: prefix sums over the nodes, then the neighbours.\<close>

definition csr_of :: "(nat \<Rightarrow> nat list) \<Rightarrow> nat \<Rightarrow> nat list \<times> nat list" where
  "csr_of f n = (map (\<lambda>i. length (concat (map f [0..<i]))) [0..<Suc n], concat (map f [0..<n]))"

definition csr_wf :: "nat \<Rightarrow> nat list \<times> nat list \<Rightarrow> bool" where
  "csr_wf n csr \<longleftrightarrow>
     (case csr of (offsets, neighbors) \<Rightarrow>
        length offsets = Suc n \<and> hd offsets = 0 \<and> non_decreasing offsets \<and> last offsets = length neighbors \<and>
        (\<forall>x\<in>set offsets. x \<le> u32_max) \<and> (\<forall>x\<in>set neighbors. x < n))"

lemma csr_loop_csr_of:
  assumes "csr_loop src n layer [0..<n] ([0], []) = Inr csr" "0 < n"
  shows "csr = csr_of (\<lambda>l. ns_neighbors src l layer) n"
    and "\<forall>x\<in>set (snd csr). x < n" "length (snd csr) \<le> u32_max"
proof -
  obtain offs nbrs where csr: "csr = (offs, nbrs)" by fastforce
  note ok = csr_loop_ok [OF assms(1) [unfolded csr]]
  let ?f = "\<lambda>l. ns_neighbors src l layer"
  have "offs = map (\<lambda>i. length (concat (map ?f [0..<i]))) [0..<Suc n]"
    using ok by (simp add: upt_conv_Cons [of 0 "Suc n"] map_Suc_upt [symmetric] comp_def del: upt_Suc)
  then show "csr = csr_of ?f n" using ok csr by (simp add: csr_of_def)
  show "\<forall>x\<in>set (snd csr). x < n" using ok csr by auto
  show "length (snd csr) \<le> u32_max" 
  proof -
    have "[0..<n] \<noteq> []" using assms(2) by simp
    then have "length nbrs \<le> u32_max" using ok by blast
    then show ?thesis by (simp add: csr)
  qed
qed

lemma non_decreasing_map_upt:
  "(\<And>i. f i \<le> f (Suc i)) \<Longrightarrow> non_decreasing (map f [a..<b])"
proof (induction "b - a" arbitrary: a)
  case (Suc k)
  then have "[a..<b] = a # [Suc a..<b]" by (simp add: upt_conv_Cons)
  moreover have "[Suc a..<b] = [] \<or> [Suc a..<b] = Suc a # [Suc (Suc a)..<b]"
    by (cases "Suc a < b") (simp_all add: upt_conv_Cons)
  moreover have "non_decreasing (map f [Suc a..<b])" using Suc by simp
  ultimately show ?case using Suc.prems by fastforce
qed simp

lemma csr_of_wf:
  assumes "\<forall>x\<in>set (snd (csr_of f n)). x < n" "length (snd (csr_of f n)) \<le> u32_max"
  shows "csr_wf n (csr_of f n)"
proof -
  have le: "length (concat (map f [0..<i])) \<le> length (concat (map f [0..<Suc i]))" for i by simp
  have mono: "i \<le> j \<Longrightarrow> length (concat (map f [0..<i])) \<le> length (concat (map f [0..<j]))" for i j
    using lift_Suc_mono_le [of "\<lambda>i. length (concat (map f [0..<i]))" i j] le by blast
  have "\<forall>x\<in>set (fst (csr_of f n)). x \<le> u32_max"
    using assms(2) mono [of _ n] by (auto simp: csr_of_def simp del: upt_Suc) (meson le_trans less_Suc_eq_le)
  moreover have "non_decreasing (fst (csr_of f n))"
    unfolding csr_of_def fst_conv by (rule non_decreasing_map_upt) (rule le)
  ultimately show ?thesis
    using assms(1) by (simp add: csr_wf_def csr_of_def hd_map del: upt_Suc) (simp add: last_map)
qed

lemma csr_of_node:
  assumes "i < n"
  shows "take (fst (csr_of f n) ! Suc i - fst (csr_of f n) ! i) (drop (fst (csr_of f n) ! i) (snd (csr_of f n))) = f i"
    and "fst (csr_of f n) ! i \<le> fst (csr_of f n) ! Suc i" "fst (csr_of f n) ! Suc i \<le> length (snd (csr_of f n))"
proof -
  have split: "[0..<n] = [0..<i] @ i # [Suc i..<n]"
    using assms upt_add_eq_append [of 0 i "n - i"] by (simp add: upt_conv_Cons)
  have nth: "fst (csr_of f n) ! j = length (concat (map f [0..<j]))" if "j \<le> n" for j
    using that by (simp add: csr_of_def nth_append del: upt_Suc)
  have snd: "snd (csr_of f n) = concat (map f [0..<i]) @ f i @ concat (map f [Suc i..<n])"
    unfolding csr_of_def snd_conv split by simp
  show "take (fst (csr_of f n) ! Suc i - fst (csr_of f n) ! i) (drop (fst (csr_of f n) ! i) (snd (csr_of f n))) = f i"
    "fst (csr_of f n) ! i \<le> fst (csr_of f n) ! Suc i" "fst (csr_of f n) ! Suc i \<le> length (snd (csr_of f n))"
    using nth [of i] nth [of "Suc i"] assms unfolding snd by simp_all
qed

lemma csr_layers_ok:
  assumes "csr_layers src n ls = Inr layers" "0 < n"
  shows "layers = map (\<lambda>layer. csr_of (\<lambda>l. ns_neighbors src l layer) n) ls \<and> (\<forall>csr\<in>set layers. csr_wf n csr)"
  using assms(1)
proof (induction ls arbitrary: layers)
  case (Cons layer ls)
  then obtain csr rest where st: "csr_loop src n layer [0..<n] ([0], []) = Inr csr"
      "csr_layers src n ls = Inr rest" "layers = csr # rest"
    by (auto simp: bindE_Inr_iff)
  note csr = csr_loop_csr_of [OF st(1) assms(2)]
  have "csr_wf n csr" using csr_of_wf csr by metis
  then show ?case using Cons.IH [OF st(2)] st(3) csr(1) by simp
qed simp

definition layer_bytes :: "nat list \<times> nat list \<Rightarrow> bytes" where
  "layer_bytes csr = ints_bytes 4 (fst csr) @ ints_bytes 4 (snd csr)"

fun layer_table :: "nat \<Rightarrow> (nat list \<times> nat list) list \<Rightarrow> (nat \<times> nat) list" where
  "layer_table c [] = []"
| "layer_table c (csr # rest) =
     (c, c + 4 * length (fst csr)) # layer_table (c + length (layer_bytes csr)) rest"

lemma length_layer_bytes [simp]: "length (layer_bytes csr) = 4 * length (fst csr) + 4 * length (snd csr)"
  by (simp add: layer_bytes_def)

lemma u32_max_less: "x \<le> u32_max \<Longrightarrow> x < 256 ^ 4"
  by (simp add: u32_max_def)

lemma read_layers_ok:
  assumes "\<forall>csr\<in>set layers. csr_wf n csr" "n \<le> u32_max" "length pre mod 4 = 0"
    and "length (pre @ concat (map layer_bytes layers)) \<le> u64_max"
  shows "read_layers (pre @ concat (map layer_bytes layers) @ post) n
      (length (pre @ concat (map layer_bytes layers))) (length layers) (length pre) =
    Inr (layer_table (length pre) layers, length (pre @ concat (map layer_bytes layers)))"
  using assms
proof (induction layers arbitrary: pre)
  case (Cons csr rest)
  obtain offs nbrs where csr: "csr = (offs, nbrs)" by fastforce
  have wf: "length offs = Suc n" "hd offs = 0" "non_decreasing offs" "last offs = length nbrs"
      "\<forall>x\<in>set offs. x < 256 ^ 4" "\<forall>x\<in>set nbrs. x < n" "\<forall>x\<in>set nbrs. x < 256 ^ 4"
    using Cons.prems(1,2) csr by (auto simp: csr_wf_def intro: u32_max_less le_trans)
      (use u32_max_less in fastforce)+
  let ?b = "pre @ concat (map layer_bytes (csr # rest)) @ post"
  let ?pre = "pre @ layer_bytes csr" and ?stop = "length (pre @ concat (map layer_bytes (csr # rest)))"
  let ?mid = "length pre + 4 * Suc n"
  have b: "?b = pre @ ints_bytes 4 offs @ (ints_bytes 4 nbrs @ concat (map layer_bytes rest) @ post)"
      "?b = (pre @ ints_bytes 4 offs) @ ints_bytes 4 nbrs @ (concat (map layer_bytes rest) @ post)"
      "?b = ?pre @ concat (map layer_bytes rest) @ post"
    using csr by (simp_all add: layer_bytes_def)
  have offs: "ints_at 4 ?b (length pre) ?mid = Some offs"
    unfolding b(1) by (rule ints_at_mid) (use wf Cons.prems(3) in simp_all)
  have nbrs: "ints_at 4 ?b ?mid (?mid + length nbrs * 4) = Some nbrs"
    unfolding b(2) by (rule ints_at_mid) (use wf Cons.prems(3) in \<open>simp_all add: mod_add_eq [symmetric]\<close>)
  have rest: "read_layers ?b n ?stop (length rest) (?mid + length nbrs * 4) =
      Inr (layer_table (length ?pre) rest, ?stop)"
    using Cons.IH [of ?pre] Cons.prems csr wf(1) unfolding b(3)
    by (simp add: mod_add_eq [symmetric] algebra_simps)
  have ne: "offs \<noteq> []" using wf(1) by auto
  have bounds: "checked_mul (n + 1) 4 = Some (4 * Suc n)" "checked_add (length pre) (4 * Suc n) = Some ?mid"
      "checked_mul (last offs) 4 = Some (length nbrs * 4)"
      "checked_add ?mid (length nbrs * 4) = Some (?mid + length nbrs * 4)"
      "?mid \<le> ?stop" "?mid + length nbrs * 4 \<le> ?stop"
    using Cons.prems(4) csr wf(1,4) by (simp_all add: checked_mul_def checked_add_def)
  show ?case
    unfolding list.size(4) read_layers.simps add_Suc_right add_0_right
    using bounds offs nbrs rest ne wf csr
    by (simp add: guardE_def list_all_iff algebra_simps)
qed simp

section \<open>The file\<close>

text \<open>The body of a segment file, behind the header.\<close>

definition segment_body :: "nat list \<Rightarrow> nat list \<Rightarrow> (nat list \<times> nat list) list \<Rightarrow> f32 list list \<Rightarrow> nat \<Rightarrow> nat \<Rightarrow> bytes" where
  "segment_body row_ids levels layers vectors pad1 pad2 =
     ints_bytes 8 row_ids @ map word_of_nat levels @ replicate pad1 0 @ concat (map layer_bytes layers) @
     replicate pad2 0 @ concat (map f32s_bytes vectors)"

lemma collect_levels_ok:
  "collect_levels src ls = Inr levels \<Longrightarrow>
   length levels = length ls \<and> (\<forall>i<length ls. ns_level src (ls ! i) = Some (levels ! i) \<and> levels ! i < 256 \<and>
     (\<exists>v. ns_vector src (ls ! i) = Some v \<and> length v = ns_dimension src))"
proof (induction ls arbitrary: levels)
  case (Cons l ls)
  then show ?case by (auto simp: bindE_Inr_iff less_Suc_eq_0_disj)
qed simp

lemma collect_vectors_ok:
  "\<forall>l\<in>set ls. \<exists>v. ns_vector src l = Some v \<Longrightarrow>
   collect_vectors src ls = Inr (map (\<lambda>l. f32s_bytes (the (ns_vector src l))) ls)"
  by (induction ls) (auto simp: bindE_def)

lemma adjacency_size_ok:
  "adjacency_size layers acc = Some m \<Longrightarrow> m = acc + length (concat (map layer_bytes layers))"
proof (induction layers arbitrary: acc)
  case (Cons csr rest)
  obtain offs nbrs where csr: "csr = (offs, nbrs)" by fastforce
  have "adjacency_size rest (acc + (length offs + length nbrs) * 4) = Some m"
    using Cons.prems csr by (auto simp: checked_add_def checked_mul_def split: if_splits)
  from Cons.IH [OF this] show ?case using csr by simp
qed simp

lemma concat_layer_bytes:
  "concat (concat (map (\<lambda>c. [ints_bytes 4 (fst c), ints_bytes 4 (snd c)]) layers)) =
   concat (map layer_bytes layers)"
  by (induction layers) (auto simp: layer_bytes_def)

lemma length_f32s_bytes [simp]: "length (f32s_bytes v) = 4 * length v"
  by (simp add: f32s_bytes_def)

lemma length_concat_const: "\<forall>x\<in>set xs. length (f x) = k \<Longrightarrow> length (concat (map f xs)) = k * length xs"
  by (induction xs) auto

lemma align_up_bounds:
  assumes "0 < a" "v \<le> u64_max" "align_up v a < u64_max"
  shows "v \<le> align_up v a" "align_up v a mod a = 0"
proof -
  let ?q = "(v + a - 1) div a"
  have "v + a - 1 = ?q * a + (v + a - 1) mod a" by (metis div_mult_mod_eq)
  moreover have "(v + a - 1) mod a < a" using assms(1) by simp
  ultimately have "v \<le> ?q * a" by linarith
  then show "v \<le> align_up v a" using assms(2) by (simp add: align_up_def)
  show "align_up v a mod a = 0" using assms(3) by (simp add: align_up_def min_def split: if_splits)
qed

text \<open>A successful encoding is the header, the body, and nothing else.\<close>

definition header_bytes :: "(nat \<times> bytes) list \<Rightarrow> bytes" where
  "header_bytes ws = fold (\<lambda>(at, src) h. splice h at src) ws (replicate 128 0)"

definition sealed_header :: "checksum \<Rightarrow> bytes \<Rightarrow> bytes \<Rightarrow> bytes" where
  "sealed_header crc h body =
     (let h1 = splice h 120 (le_bytes 4 (unat (crc body)))
      in splice h1 124 (le_bytes 4 (unat (crc (take 124 h1)))))"

lemma body_writes:
  assumes lens: "length R = r" "length Lv = n" "128 + r + n \<le> offA" "offA + length (concat As) \<le> offV"
    and total: "offV + length (concat Vs) \<le> u64_max"
    and w1: "write_all [(128, R), (128 + r, Lv)] (replicate (offV + length (concat Vs)) 0) = Inr out1"
    and w2: "write_all (consecutive offA As) out1 = Inr out2" and w3: "write_all (consecutive offV Vs) out2 = Inr out3"
  shows "out3 = replicate 128 0 @ R @ Lv @ replicate (offA - (128 + r + n)) 0 @ concat As @
    replicate (offV - (offA + length (concat As))) 0 @ concat Vs"
proof -
  let ?T = "offV + length (concat Vs)" and ?p1 = "replicate 128 0 @ R" and ?p2 = "replicate 128 0 @ R @ Lv"
  let ?p3 = "?p2 @ replicate (offA - (128 + r + n)) 0 @ concat As"
  have "write_at 128 R ([] @ replicate ?T 0) = Inr (?p1 @ replicate (?T - 128 - r) 0)"
    using write_all_fill [of "[]" 128 R ?T] lens total by simp
  moreover have "write_at (128 + r) Lv (?p1 @ replicate (?T - 128 - r) 0) = Inr (?p2 @ replicate (?T - 128 - r - n) 0)"
    using write_all_fill [of ?p1 "128 + r" Lv "?T - 128 - r"] lens total by simp
  ultimately have o1: "out1 = ?p2 @ replicate (?T - 128 - r - n) 0" using w1 by simp
  have "write_all (consecutive offA As) (?p2 @ replicate (?T - 128 - r - n) 0) =
      Inr (?p3 @ replicate (?T - 128 - r - n - (offA - (128 + r + n)) - length (concat As)) 0)"
    using write_all_consecutive [of ?p2 offA As "?T - 128 - r - n"] lens total by (simp add: add.assoc)
  then have o2: "out2 = ?p3 @ replicate (?T - offA - length (concat As)) 0"
    using w2 o1 lens by (simp add: diff_diff_eq add.commute add.left_commute)
  have "length ?p3 = offA + length (concat As)" using lens by simp
  then have "write_all (consecutive offV Vs) (?p3 @ replicate (?T - offA - length (concat As)) 0) =
      Inr ((?p3 @ replicate (offV - (offA + length (concat As))) 0 @ concat Vs) @ replicate 0 0)"
    using write_all_consecutive [of ?p3 offV Vs "?T - offA - length (concat As)"] lens total by simp
  then show ?thesis using w3 o2 by simp
qed

lemma sealed_writes:
  assumes "\<forall>(at, src)\<in>set ws. at + length src \<le> 128"
    and "write_all ws (replicate 128 0 @ body) = Inr out1"
    and "write_at 120 (le_bytes 4 (unat (crc (drop 128 out1)))) out1 = Inr out2"
    and "write_at 124 (le_bytes 4 (unat (crc (take 124 out2)))) out2 = Inr out3"
  shows "out3 = sealed_header crc (header_bytes ws) body @ body"
proof -
  have "write_all ws (replicate 128 0 @ body) = Inr (header_bytes ws @ body)"
    unfolding header_bytes_def using assms(1) by (intro write_all_header) (auto simp: u64_max_def)
  then have o1: "out1 = header_bytes ws @ body" using assms(2) by simp
  have h: "length (header_bytes ws) = 128"
    unfolding header_bytes_def using length_fold_splice [of ws "replicate 128 0"] assms(1) by simp
  have o2: "out2 = splice (header_bytes ws) 120 (le_bytes 4 (unat (crc body))) @ body"
    using assms(3) o1 h by (auto simp: write_at_def splice_append split: option.splits if_splits)
  then show ?thesis using assms(4) h
    by (auto simp: write_at_def splice_append sealed_header_def Let_def split: option.splits if_splits)
qed

definition apart :: "nat \<times> bytes \<Rightarrow> nat \<times> bytes \<Rightarrow> bool" where
  "apart v w \<longleftrightarrow> fst v + length (snd v) \<le> fst w \<or> fst w + length (snd w) \<le> fst v"

lemma field_fold_other:
  "\<forall>w\<in>set ws. apart (at, replicate k 0) w \<and> fst w + length (snd w) \<le> length h \<Longrightarrow>
   header_field at k (fold (\<lambda>(at, src) h. splice h at src) ws h) = header_field at k h"
proof (induction ws arbitrary: h)
  case (Cons w ws)
  obtain a src where w: "w = (a, src)" by fastforce
  have "header_field at k (splice h a src) = header_field at k h"
    using Cons.prems w by (intro header_field_other) (auto simp: apart_def)
  then show ?case using Cons w by simp
qed simp

lemma header_bytes_field:
  assumes "sorted_wrt apart ws" "\<forall>w\<in>set ws. fst w + length (snd w) \<le> 128" "(at, src) \<in> set ws"
  shows "header_field at (length src) (header_bytes ws) = src"
proof -
  obtain ws1 ws2 where ws: "ws = ws1 @ (at, src) # ws2" using split_list [OF assms(3)] by blast
  let ?h = "fold (\<lambda>(at, src) h. splice h at src) ws1 (replicate 128 0)"
  have len: "length ?h = 128"
    using length_fold_splice [of ws1 "replicate 128 0"] assms(2) ws by (simp add: case_prod_beta)
  have "\<forall>w\<in>set ws2. apart (at, replicate (length src) 0) w"
    using assms(1) ws by (simp add: sorted_wrt_append apart_def)
  then have "header_field at (length src) (fold (\<lambda>(at, src) h. splice h at src) ws2 (splice ?h at src)) =
      header_field at (length src) (splice ?h at src)"
    using assms(2) ws len by (intro field_fold_other) auto
  moreover have "header_field at (length src) (splice ?h at src) = src"
    using assms(2) ws len by (intro header_field_same) auto
  ultimately show ?thesis by (simp add: header_bytes_def ws)
qed

lemma sealed_header_bytes:
  assumes "\<forall>w\<in>set ws. fst w + length (snd w) \<le> 128"
  shows "\<exists>c. sealed_header crc (header_bytes ws) body =
      header_bytes (ws @ [(120, le_bytes 4 (unat (crc body))), (124, le_bytes 4 (unat (crc c)))]) \<and>
    take 124 (sealed_header crc (header_bytes ws) body) = c \<and>
    length (sealed_header crc (header_bytes ws) body) = 128"
proof -
  have h: "length (header_bytes ws) = 128"
    unfolding header_bytes_def using length_fold_splice [of ws "replicate 128 0"] assms by (simp add: case_prod_beta)
  let ?h1 = "splice (header_bytes ws) 120 (le_bytes 4 (unat (crc body)))"
  show ?thesis
    using h by (intro exI [of _ "take 124 ?h1"]) (simp add: sealed_header_def Let_def header_bytes_def splice_def)
qed

lemma unat_word_less: "unat (x :: 64 word) < 18446744073709551616" "unat (y :: 32 word) < 4294967296"
proof -
  show "unat x < 18446744073709551616" using unsigned_less [of x] by simp
  show "unat y < 4294967296" using unsigned_less [of y] by simp
qed

lemma length_magic: "length SEGMENT_MAGIC = 8"
  by (simp add: SEGMENT_MAGIC_def)

lemma header_writes_apart:
  "sorted_wrt apart (header_writes n dim ml e ps lo hi offs lens @ [(120, le_bytes 4 c1), (124, le_bytes 4 c2)]) \<and>
   (\<forall>w\<in>set (header_writes n dim ml e ps lo hi offs lens @ [(120, le_bytes 4 c1), (124, le_bytes 4 c2)]).
      fst w + length (snd w) \<le> 128)"
  by (simp add: header_writes_def SECTION_COUNT_def apart_def upt_rec length_magic del: le_bytes.simps)

text \<open>What a reader finds in the header of an encoded segment.\<close>

lemma header_reads:
  fixes body :: bytes
  assumes h: "h = sealed_header crc (header_bytes (header_writes n dim ml e ps lo hi offs lens)) body"
  shows "length h = 128" "slice (h @ body) 0 8 = Some SEGMENT_MAGIC"
    and "read_le 4 (h @ body) 8 = 1" "read_le 4 (h @ body) 12 = 1" "read_le 1 (h @ body) 32 = 0"
    and "n \<le> u32_max \<Longrightarrow> read_le 4 (h @ body) 16 = n"
    and "dim \<le> u32_max \<Longrightarrow> read_le 4 (h @ body) 20 = dim"
    and "ml \<le> u32_max \<Longrightarrow> read_le 4 (h @ body) 24 = ml"
    and "e \<le> u32_max \<Longrightarrow> read_le 4 (h @ body) 28 = e"
    and "sp_m ps < 2 ^ 16 \<Longrightarrow> read_le 2 (h @ body) 34 = sp_m ps"
    and "sp_mmax0 ps < 2 ^ 16 \<Longrightarrow> read_le 2 (h @ body) 36 = sp_mmax0 ps"
    and "sp_mmax ps < 2 ^ 16 \<Longrightarrow> read_le 2 (h @ body) 38 = sp_mmax ps"
    and "sp_ef_construction ps < 2 ^ 16 \<Longrightarrow> read_le 2 (h @ body) 40 = sp_ef_construction ps"
    and "read_le 8 (h @ body) 48 = unat (sp_m_l ps)"
    and "is_u64 lo \<Longrightarrow> read_le 8 (h @ body) 56 = lo" "is_u64 hi \<Longrightarrow> read_le 8 (h @ body) 64 = hi"
    and "i < 4 \<Longrightarrow> is_u64 (offs ! i) \<Longrightarrow> read_le 8 (h @ body) (72 + i * 8) = offs ! i"
    and "i < 4 \<Longrightarrow> lens ! i \<le> u32_max \<Longrightarrow> read_le 4 (h @ body) (104 + i * 4) = lens ! i"
    and "read_le 4 (h @ body) 120 = unat (crc (drop 128 (h @ body)))"
    and "read_le 4 (h @ body) 124 = unat (crc (take 124 (h @ body)))"
proof -
  let ?ws = "header_writes n dim ml e ps lo hi offs lens"
  obtain c where c: "h = header_bytes (?ws @ [(120, le_bytes 4 (unat (crc body))), (124, le_bytes 4 (unat (crc c)))])"
      "take 124 h = c" and len: "length h = 128"
    using sealed_header_bytes [of ?ws crc body] header_writes_apart [of n dim ml e ps lo hi offs lens 0 0] h by auto
  have field: "header_field at (length src) h = src"
    if "(at, src) \<in> set ?ws \<or> (at, src) = (120, le_bytes 4 (unat (crc body))) \<or> (at, src) = (124, le_bytes 4 (unat (crc c)))"
    for at src
    unfolding c(1) using header_writes_apart [of n dim ml e ps lo hi offs lens "unat (crc body)" "unat (crc c)"] that
    by (intro header_bytes_field) auto
  have rd: "read_le k (h @ body) at = v mod 256 ^ k"
    if "(at, le_bytes k v) \<in> set ?ws \<or> (at, le_bytes k v) = (120, le_bytes 4 (unat (crc body))) \<or>
        (at, le_bytes k v) = (124, le_bytes 4 (unat (crc c)))" "at + k \<le> 128" for k at v
    using field [OF that(1)] that(2) len by (simp add: read_le_header from_le_bytes)
  have w: "(0, SEGMENT_MAGIC) \<in> set ?ws" "(8, le_bytes 4 1) \<in> set ?ws" "(12, le_bytes 4 1) \<in> set ?ws"
      "(16, le_bytes 4 n) \<in> set ?ws" "(20, le_bytes 4 dim) \<in> set ?ws" "(24, le_bytes 4 ml) \<in> set ?ws"
      "(28, le_bytes 4 e) \<in> set ?ws" "(32, le_bytes 1 0) \<in> set ?ws" "(34, le_bytes 2 (sp_m ps)) \<in> set ?ws"
      "(36, le_bytes 2 (sp_mmax0 ps)) \<in> set ?ws" "(38, le_bytes 2 (sp_mmax ps)) \<in> set ?ws"
      "(40, le_bytes 2 (sp_ef_construction ps)) \<in> set ?ws" "(48, le_bytes 8 (unat (sp_m_l ps))) \<in> set ?ws"
      "(56, le_bytes 8 lo) \<in> set ?ws" "(64, le_bytes 8 hi) \<in> set ?ws"
    by (simp_all add: header_writes_def SEGMENT_FORMAT_VERSION_def FLAG_LITTLE_ENDIAN_def METRIC_L2_def)
  have wi: "(72 + i * 8, le_bytes 8 (offs ! i)) \<in> set ?ws" "(104 + i * 4, le_bytes 4 (lens ! i)) \<in> set ?ws" if "i < 4"
    using that by (auto simp: header_writes_def SECTION_COUNT_def)
  show "length h = 128" by (rule len)
  show "slice (h @ body) 0 8 = Some SEGMENT_MAGIC"
    using slice_header [of 0 8 h body] field [of 0 SEGMENT_MAGIC] w(1) len by (simp add: length_magic)
  show "read_le 4 (h @ body) 8 = 1" "read_le 4 (h @ body) 12 = 1" "read_le 1 (h @ body) 32 = 0"
    using rd [of 8 4 1] rd [of 12 4 1] rd [of 32 1 0] w by simp_all
  show "n \<le> u32_max \<Longrightarrow> read_le 4 (h @ body) 16 = n" using rd [of 16 4 n] w by (simp add: u32_max_def)
  show "dim \<le> u32_max \<Longrightarrow> read_le 4 (h @ body) 20 = dim" using rd [of 20 4 dim] w by (simp add: u32_max_def)
  show "ml \<le> u32_max \<Longrightarrow> read_le 4 (h @ body) 24 = ml" using rd [of 24 4 ml] w by (simp add: u32_max_def)
  show "e \<le> u32_max \<Longrightarrow> read_le 4 (h @ body) 28 = e" using rd [of 28 4 e] w by (simp add: u32_max_def)
  show "sp_m ps < 2 ^ 16 \<Longrightarrow> read_le 2 (h @ body) 34 = sp_m ps" using rd [of 34 2] w by simp
  show "sp_mmax0 ps < 2 ^ 16 \<Longrightarrow> read_le 2 (h @ body) 36 = sp_mmax0 ps" using rd [of 36 2] w by simp
  show "sp_mmax ps < 2 ^ 16 \<Longrightarrow> read_le 2 (h @ body) 38 = sp_mmax ps" using rd [of 38 2] w by simp
  show "sp_ef_construction ps < 2 ^ 16 \<Longrightarrow> read_le 2 (h @ body) 40 = sp_ef_construction ps"
    using rd [of 40 2] w by simp
  show "read_le 8 (h @ body) 48 = unat (sp_m_l ps)"
    using rd [of 48 8] w unat_word_less(1) [of "sp_m_l ps"] by simp
  show "is_u64 lo \<Longrightarrow> read_le 8 (h @ body) 56 = lo" "is_u64 hi \<Longrightarrow> read_le 8 (h @ body) 64 = hi"
    using rd [of 56 8 lo] rd [of 64 8 hi] w by (simp_all add: is_u64_def u64_max_def)
  show "i < 4 \<Longrightarrow> is_u64 (offs ! i) \<Longrightarrow> read_le 8 (h @ body) (72 + i * 8) = offs ! i"
    using rd [of "72 + i * 8" 8 "offs ! i"] wi by (simp add: is_u64_def u64_max_def)
  show "i < 4 \<Longrightarrow> lens ! i \<le> u32_max \<Longrightarrow> read_le 4 (h @ body) (104 + i * 4) = lens ! i"
    using rd [of "104 + i * 4" 4 "lens ! i"] wi by (simp add: u32_max_def)
  show "read_le 4 (h @ body) 120 = unat (crc (drop 128 (h @ body)))"
    using rd [of 120 4 "unat (crc body)"] len unat_word_less(2) [of "crc body"] by simp
  show "read_le 4 (h @ body) 124 = unat (crc (take 124 (h @ body)))"
    using rd [of 124 4 "unat (crc c)"] len c(2) unat_word_less(2) [of "crc c"] by simp
qed

section \<open>Round trip\<close>

lemma checked_mul_Some_iff: "checked_mul a b = Some c \<longleftrightarrow> c = a * b \<and> a * b \<le> u64_max"
  by (auto simp: checked_mul_def)

lemma checked_mul_twice:
  "(case checked_mul a b of None \<Rightarrow> None | Some e \<Rightarrow> checked_mul e c) = Some m \<longleftrightarrow>
   m = a * b * c \<and> a * b \<le> u64_max \<and> a * b * c \<le> u64_max"
  by (auto simp: checked_mul_def)

text \<open>Everything a successful encoding established, with the file it produced.\<close>

lemma encode_segment_file:
  assumes enc: "encode_segment crc src row_ids params = Inr bs"
  obtains levels ml e el layers pad1 pad2 offA offV h where
    "row_ids \<noteq> []" "length row_ids \<le> u32_max" "strictly_ascending row_ids"
    "0 < ns_dimension src" "ns_dimension src \<le> u32_max"
    "collect_levels src [0..<length row_ids] = Inr levels" "ml = fold max levels 0"
    "ns_entry_point src = Some (e, el)" "e < length row_ids"
    "csr_layers src (length row_ids) [0..<Suc ml] = Inr layers"
    "sp_m params < 2 ^ 16" "sp_mmax0 params < 2 ^ 16" "sp_mmax params < 2 ^ 16" "sp_ef_construction params < 2 ^ 16"
    "offA = 128 + 9 * length row_ids + pad1" "offA mod 4 = 0"
    "offV = offA + length (concat (map layer_bytes layers)) + pad2" "offV mod 64 = 0"
    "offV + 4 * (length row_ids * ns_dimension src) \<le> u64_max"
    "8 * length row_ids \<le> u32_max" "length (concat (map layer_bytes layers)) \<le> u32_max"
    "4 * (length row_ids * ns_dimension src) \<le> u32_max"
    "h = sealed_header crc (header_bytes (header_writes (length row_ids) (ns_dimension src) ml e params
       (hd row_ids) (last row_ids) [128, 128 + 8 * length row_ids, offA, offV]
       [8 * length row_ids, length row_ids, length (concat (map layer_bytes layers)),
        4 * (length row_ids * ns_dimension src)]))
       (segment_body row_ids levels layers (map (\<lambda>i. the (ns_vector src i)) [0..<length row_ids]) pad1 pad2)"
    "bs = h @ segment_body row_ids levels layers (map (\<lambda>i. the (ns_vector src i)) [0..<length row_ids]) pad1 pad2"
proof -
  let ?n = "length row_ids" and ?dim = "ns_dimension src"
  obtain levels e el layers al vectors out1 out2 out3 out4 out5 where
    pre: "row_ids \<noteq> []" "?n \<le> u32_max" "strictly_ascending row_ids" "0 < ?dim" "?dim \<le> u32_max"
      "collect_levels src [0..<?n] = Inr levels" "ns_entry_point src = Some (e, el)" "fst (e, el) < ?n"
      "csr_layers src ?n [0..<Suc (fold max levels 0)] = Inr layers" "adjacency_size layers 0 = Some al"
    and ar: "?n * 8 \<le> u64_max" "?n * ?dim \<le> u64_max" "?n * ?dim * 4 \<le> u64_max" "128 + ?n * 8 \<le> u64_max"
      "128 + ?n * 8 + ?n \<le> u64_max" "align_up (128 + ?n * 8 + ?n) 4 + al \<le> u64_max"
      "align_up (align_up (128 + ?n * 8 + ?n) 4 + al) 64 + ?n * ?dim * 4 \<le> u64_max"
    and w: "write_all [(128, ints_bytes 8 row_ids), (128 + ?n * 8, map word_of_nat levels)]
        (replicate (align_up (align_up (128 + ?n * 8 + ?n) 4 + al) 64 + ?n * ?dim * 4) 0) = Inr out1"
      "write_all (consecutive (align_up (128 + ?n * 8 + ?n) 4)
        (concat (map (\<lambda>c. [ints_bytes 4 (fst c), ints_bytes 4 (snd c)]) layers))) out1 = Inr out2"
      "collect_vectors src [0..<?n] = Inr vectors"
      "write_all (consecutive (align_up (align_up (128 + ?n * 8 + ?n) 4 + al) 64) vectors) out2 = Inr out3"
      "sp_m params < 2 ^ 16" "sp_mmax0 params < 2 ^ 16" "sp_mmax params < 2 ^ 16" "sp_ef_construction params < 2 ^ 16"
      "?n * 8 \<le> u32_max" "al \<le> u32_max" "?n * ?dim * 4 \<le> u32_max"
      "write_all (header_writes ?n ?dim (fold max levels 0) (fst (e, el)) params (hd row_ids) (last row_ids)
         [128, 128 + ?n * 8, align_up (128 + ?n * 8 + ?n) 4, align_up (align_up (128 + ?n * 8 + ?n) 4 + al) 64]
         [?n * 8, ?n, al, ?n * ?dim * 4]) out3 = Inr out4"
      "write_at 120 (le_bytes 4 (unat (crc (drop 128 out4)))) out4 = Inr out5"
      "write_at 124 (le_bytes 4 (unat (crc (take 124 out5)))) out5 = Inr bs"
    using enc
    unfolding encode_segment_def Let_def HEADER_LEN_def VECTORS_ALIGN_def bindE_Inr_iff guardE_Inr_iff
      of_option_Inr_iff split_beta checked_add_Some_iff checked_mul_twice checked_mul_Some_iff list.pred_inject
    by clarify (rule that; assumption)
  let ?offA = "align_up (128 + ?n * 8 + ?n) 4" and ?vs = "map (\<lambda>i. the (ns_vector src i)) [0..<?n]"
  let ?offV = "align_up (?offA + al) 64"
  note lv = collect_levels_ok [OF pre(6)]
  have al: "al = length (concat (map layer_bytes layers))" using adjacency_size_ok [OF pre(10)] by simp
  have As: "concat (concat (map (\<lambda>c. [ints_bytes 4 (fst c), ints_bytes 4 (snd c)]) layers)) = concat (map layer_bytes layers)"
    by (rule concat_layer_bytes)
  have vec: "\<exists>v. ns_vector src i = Some v \<and> length v = ?dim" if "i < ?n" for i using lv that by simp
  have "\<forall>l\<in>set [0..<?n]. \<exists>v. ns_vector src l = Some v" using vec by (metis atLeastLessThan_upt atLeastLessThan_iff)
  then have Vs: "vectors = map f32s_bytes ?vs"
    using w(3) collect_vectors_ok [of "[0..<?n]" src] by (simp add: comp_def)
  have Vl: "length (concat vectors) = ?n * ?dim * 4"
    using length_concat_const [of ?vs f32s_bytes "4 * ?dim"] vec unfolding Vs by fastforce
  have "0 < ?n * ?dim * 4" using pre(1,4) by simp
  then have big: "?offV < u64_max" using ar(7) by linarith
  have V: "?offA + al \<le> ?offV" "?offV mod 64 = 0" using align_up_bounds [of 64 "?offA + al"] ar(6) big by simp_all
  have A: "128 + ?n * 8 + ?n \<le> ?offA" "?offA mod 4 = 0"
    using align_up_bounds [of 4 "128 + ?n * 8 + ?n"] ar(5) V(1) big by simp_all
  let ?p1 = "?offA - (128 + ?n * 8 + ?n)" and ?p2 = "?offV - (?offA + al)"
  let ?body = "segment_body row_ids levels layers ?vs ?p1 ?p2"
  have "out3 = replicate 128 0 @ ints_bytes 8 row_ids @ map word_of_nat levels @ replicate ?p1 0 @
      concat (concat (map (\<lambda>c. [ints_bytes 4 (fst c), ints_bytes 4 (snd c)]) layers)) @
      replicate (?offV - (?offA + length (concat (concat (map (\<lambda>c. [ints_bytes 4 (fst c), ints_bytes 4 (snd c)]) layers))))) 0 @
      concat vectors"
    by (rule body_writes [OF _ _ A(1) _ _ w(1) [folded Vl] w(2) w(4)])
      (use lv V ar(7) al As Vl in \<open>simp_all add: mult.commute\<close>)
  then have out3: "out3 = replicate 128 0 @ ?body" unfolding As al [symmetric] segment_body_def Vs by simp
  have "bs = sealed_header crc (header_bytes (header_writes ?n ?dim (fold max levels 0) e params (hd row_ids)
      (last row_ids) [128, 128 + ?n * 8, ?offA, ?offV] [?n * 8, ?n, al, ?n * ?dim * 4])) ?body @ ?body"
    by (rule sealed_writes [OF _ w(12) [unfolded out3 fst_conv] w(13,14)])
      (use header_writes_apart in \<open>auto simp: case_prod_beta\<close>)
  then have bs: "bs = sealed_header crc (header_bytes (header_writes ?n ?dim (fold max levels 0) e params (hd row_ids)
      (last row_ids) [128, 128 + 8 * ?n, ?offA, ?offV]
      [8 * ?n, ?n, length (concat (map layer_bytes layers)), 4 * (?n * ?dim)])) ?body @ ?body"
    unfolding al [symmetric] by (simp only: mult.commute [of _ 8] mult.commute [of _ 4])
  show ?thesis
    by (rule that [OF pre(1-6) refl pre(7) _ pre(9) w(5-8) _ A(2) _ V(2) _ _ _ _ refl bs])
      (use pre(8) A(1) V(1) w(9-11) ar(7) al in \<open>simp_all add: mult.commute\<close>)
qed

lemma strictly_ascending_iff: "strictly_ascending xs \<longleftrightarrow> sorted_wrt (<) xs"
  by (induction xs rule: strictly_ascending.induct) (auto simp: sorted_wrt1 intro: less_trans)

lemma fold_max_bounds: "\<forall>x\<in>set xs. x \<le> fold max xs m" "m \<le> fold max xs m" "\<forall>x\<in>set xs. x < k \<Longrightarrow> m < k \<Longrightarrow> fold max xs m < (k :: nat)"
proof -
  have "(\<forall>x\<in>set xs. x \<le> fold max xs m) \<and> m \<le> fold max xs m"
  proof (induction xs arbitrary: m)
    case (Cons y ys)
    then have "max y m \<le> fold max ys (max y m)" "\<forall>x\<in>set ys. x \<le> fold max ys (max y m)" by blast+
    then show ?case by auto
  qed simp
  then show "\<forall>x\<in>set xs. x \<le> fold max xs m" "m \<le> fold max xs m" by auto
  show "\<forall>x\<in>set xs. x < k \<Longrightarrow> m < k \<Longrightarrow> fold max xs m < k"
    by (induction xs arbitrary: m) auto
qed

lemma cast_words: "\<forall>l\<in>set levels. l < 256 \<Longrightarrow> map unat (map word_of_nat levels :: bytes) = levels"
  by (induction levels) (auto simp: unat_of_nat)

lemma ints_bytes_1: "\<forall>l\<in>set levels. l < 256 \<Longrightarrow> (map word_of_nat levels :: bytes) = ints_bytes 1 levels"
  by (induction levels) (auto simp: ints_bytes_def)

lemma f32s_round_trip: "map word_of_nat (map unat v) = (v :: f32 list)"
  by (simp add: comp_def)

lemma layer_at:
  assumes "i < length layers"
  obtains pre post where "concat (map layer_bytes layers) = pre @ layer_bytes (layers ! i) @ post"
    "layer_table c layers ! i = (c + length pre, c + length pre + 4 * length (fst (layers ! i)))"
    "length pre mod 4 = 0"
proof -
  have "\<exists>pre post. concat (map layer_bytes layers) = pre @ layer_bytes (layers ! i) @ post \<and>
    layer_table c layers ! i = (c + length pre, c + length pre + 4 * length (fst (layers ! i))) \<and>
    length pre mod 4 = 0"
    using assms
  proof (induction layers arbitrary: i c)
    case (Cons csr rest)
    show ?case
    proof (cases i)
      case 0
      then show ?thesis by (intro exI [of _ "[]"] exI [of _ "concat (map layer_bytes rest)"]) simp
    next
      case (Suc j)
      then obtain pre post where p: "concat (map layer_bytes rest) = pre @ layer_bytes (rest ! j) @ post"
          "layer_table (c + length (layer_bytes csr)) rest ! j =
             (c + length (layer_bytes csr) + length pre, c + length (layer_bytes csr) + length pre + 4 * length (fst (rest ! j)))"
          "length pre mod 4 = 0"
        using Cons.IH [of j "c + length (layer_bytes csr)"] Cons.prems by auto
      show ?thesis
        using p Suc by (intro exI [of _ "layer_bytes csr @ pre"] exI [of _ post])
          (simp add: algebra_simps mod_add_eq [symmetric])
    qed
  qed simp
  then show ?thesis by (elim exE conjE) (rule that)
qed

lemma vector_at:
  assumes "i < length vs" "\<forall>v\<in>set vs. length v = d"
  obtains pre post where "concat (map f32s_bytes vs) = pre @ f32s_bytes (vs ! i) @ post" "length pre = i * (d * 4)"
proof -
  have "concat (map f32s_bytes vs) = concat (map f32s_bytes (take i vs)) @ f32s_bytes (vs ! i) @
      concat (map f32s_bytes (drop (Suc i) vs))"
    using arg_cong [OF id_take_nth_drop [OF assms(1)], of "\<lambda>x. concat (map f32s_bytes x)"]
    by (simp only: map_append list.map concat_append concat.simps)
  moreover have "\<forall>v\<in>set (take i vs). length (f32s_bytes v) = 4 * d"
    using assms(2) by (auto dest: in_set_takeD)
  then have "length (concat (map f32s_bytes (take i vs))) = i * (d * 4)"
    using length_concat_const [of "take i vs" f32s_bytes "4 * d"] assms(1) by simp
  ultimately show ?thesis using that by blast
qed

text \<open>The reader that decoding an encoded file yields.\<close>

lemma segment_decodes:
  assumes enc: "encode_segment crc src row_ids params = Inr bs" and ids: "\<forall>x\<in>set row_ids. is_u64 x"
  obtains levels ml e el layers offA offV r where
    "segment_from_bytes crc bs = Inr r"
    "collect_levels src [0..<length row_ids] = Inr levels" "ml = fold max levels 0"
    "ns_entry_point src = Some (e, el)" "e < length row_ids" "row_ids \<noteq> []"
    "layers = map (\<lambda>layer. csr_of (\<lambda>l. ns_neighbors src l layer) (length row_ids)) [0..<Suc ml]"
    "r = \<lparr> sr_bytes = bs, sr_node_count = length row_ids, sr_dim = ns_dimension src, sr_max_level = ml,
       sr_entry = Some (e, levels ! e), sr_row_ids_off = 128, sr_levels_off = 128 + 8 * length row_ids,
       sr_vectors_off = offV, sr_layer_off = layer_table offA layers, sr_params = params,
       sr_format_version = 1, sr_row_id_min = hd row_ids, sr_row_id_max = last row_ids \<rparr>"
    "ints_at 8 bs 128 (128 + 8 * length row_ids) = Some row_ids"
    "slice bs (128 + 8 * length row_ids) (128 + 8 * length row_ids + length row_ids) = Some (map word_of_nat levels)"
    "\<exists>pre post. bs = pre @ concat (map layer_bytes layers) @ post \<and> length pre = offA" "offA mod 4 = 0"
    "\<exists>pre. bs = pre @ concat (map (\<lambda>i. f32s_bytes (the (ns_vector src i))) [0..<length row_ids]) \<and> length pre = offV"
    "offV mod 64 = 0" "length bs \<le> u64_max" "\<forall>csr\<in>set layers. csr_wf (length row_ids) csr"
proof -
  let ?n = "length row_ids" and ?dim = "ns_dimension src"
  obtain levels ml e el layers pad1 pad2 offA offV h where
    f: "row_ids \<noteq> []" "?n \<le> u32_max" "strictly_ascending row_ids" "0 < ?dim" "?dim \<le> u32_max"
      "collect_levels src [0..<?n] = Inr levels" "ml = fold max levels 0"
      "ns_entry_point src = Some (e, el)" "e < ?n" "csr_layers src ?n [0..<Suc ml] = Inr layers"
    and ps: "sp_m params < 2 ^ 16" "sp_mmax0 params < 2 ^ 16" "sp_mmax params < 2 ^ 16" "sp_ef_construction params < 2 ^ 16"
    and offs: "offA = 128 + 9 * ?n + pad1" "offA mod 4 = 0"
      "offV = offA + length (concat (map layer_bytes layers)) + pad2" "offV mod 64 = 0"
      "offV + 4 * (?n * ?dim) \<le> u64_max"
      "8 * ?n \<le> u32_max" "length (concat (map layer_bytes layers)) \<le> u32_max" "4 * (?n * ?dim) \<le> u32_max"
    and h: "h = sealed_header crc (header_bytes (header_writes ?n ?dim ml e params (hd row_ids) (last row_ids)
       [128, 128 + 8 * ?n, offA, offV] [8 * ?n, ?n, length (concat (map layer_bytes layers)), 4 * (?n * ?dim)]))
       (segment_body row_ids levels layers (map (\<lambda>i. the (ns_vector src i)) [0..<?n]) pad1 pad2)"
      "bs = h @ segment_body row_ids levels layers (map (\<lambda>i. the (ns_vector src i)) [0..<?n]) pad1 pad2"
    by (rule encode_segment_file [OF enc])
  note lv = collect_levels_ok [OF f(6)] and rd = header_reads [OF h(1), folded h(2)]
  have n: "0 < ?n" using f(1) by simp
  note ly = csr_layers_ok [OF f(10) n]
  have lv8: "\<forall>l\<in>set levels. l < 256" using lv by (auto simp: in_set_conv_nth)
  have ml: "ml < 256" unfolding f(7) by (rule fold_max_bounds(3)) (use lv8 in auto)
  let ?A = "concat (map layer_bytes layers)" and ?R = "ints_bytes 8 row_ids" and ?L = "map word_of_nat levels :: bytes"
  let ?V = "concat (map (\<lambda>i. f32s_bytes (the (ns_vector src i))) [0..<?n])"
  have bs: "bs = h @ ?R @ ?L @ replicate pad1 0 @ ?A @ replicate pad2 0 @ ?V"
    unfolding h(2) segment_body_def by (simp add: comp_def)
  have "\<forall>i\<in>set [0..<?n]. length (f32s_bytes (the (ns_vector src i))) = 4 * ?dim" using lv by fastforce
  then have V: "length ?V = 4 * (?n * ?dim)"
    using length_concat_const [of "[0..<?n]" "\<lambda>i. f32s_bytes (the (ns_vector src i))" "4 * ?dim"] by simp
  have len: "length bs = offV + 4 * (?n * ?dim)"
    using lv rd(1) offs(1,3) V unfolding bs by simp
  have R: "ints_at 8 bs 128 (128 + 8 * ?n) = Some row_ids"
    unfolding bs by (rule ints_at_mid) (use rd(1) ids in \<open>auto simp: is_u64_def u64_max_def\<close>)
  have Lb: "bs = (h @ ?R) @ ?L @ (replicate pad1 0 @ ?A @ replicate pad2 0 @ ?V)" unfolding bs by simp
  have L: "slice bs (128 + 8 * ?n) (128 + 8 * ?n + ?n) = Some ?L"
    unfolding Lb by (rule slice_mid) (use rd(1) lv in simp_all)
  have L1: "ints_at 1 bs (128 + 8 * ?n) (128 + 8 * ?n + ?n) = Some levels"
    unfolding Lb ints_bytes_1 [OF lv8] by (rule ints_at_mid) (use rd(1) lv lv8 in simp_all)
  let ?pA = "h @ ?R @ ?L @ replicate pad1 0" and ?pV = "h @ ?R @ ?L @ replicate pad1 0 @ ?A @ replicate pad2 0"
  have A: "bs = ?pA @ ?A @ (replicate pad2 0 @ ?V)" "length ?pA = offA" and V2: "bs = ?pV @ ?V" "length ?pV = offV"
    unfolding bs using rd(1) lv offs(1,3) by simp_all
  have lA: "length (?pA @ ?A) = offA + length ?A" using A(2) by simp
  have "read_layers (?pA @ ?A @ (replicate pad2 0 @ ?V)) ?n (length (?pA @ ?A)) (length layers) (length ?pA) =
      Inr (layer_table (length ?pA) layers, length (?pA @ ?A))"
    using offs(5) unfolding offs(3)
    by (intro read_layers_ok [OF conjunct2 [OF ly] f(2)]) (unfold lA A(2), rule offs(2), meson add_leD1)
  then have "read_layers bs ?n (offA + length ?A) (length layers) offA = Inr (layer_table offA layers, offA + length ?A)"
    unfolding lA A(2) A(1) [symmetric] .
  moreover have lly: "length layers = Suc ml" by (subst conjunct1 [OF ly]) simp
  ultimately have layers: "read_layers bs ?n (offA + length ?A) (Suc ml) offA = Inr (layer_table offA layers, offA + length ?A)"
    by (simp only:)
  have nl: "\<forall>l\<in>set levels. l \<le> ml" unfolding f(7) by (rule fold_max_bounds(1))
  have hd: "is_u64 (hd row_ids)" "is_u64 (last row_ids)" using ids f(1) by auto
  have o: "is_u64 offA" "is_u64 offV" "is_u64 128" "is_u64 (128 + 8 * ?n)"
    using offs(1,3,5) by (auto simp: is_u64_def)
  have e: "e \<le> u32_max" "e \<noteq> u32_max" using f(2,9) by auto
  have sec: "read_le 8 bs 72 = 128" "read_le 8 bs 80 = 128 + 8 * ?n" "read_le 8 bs 88 = offA" "read_le 8 bs 96 = offV"
      "read_le 4 bs 104 = 8 * ?n" "read_le 4 bs 108 = ?n" "read_le 4 bs 112 = length ?A" "read_le 4 bs 116 = 4 * (?n * ?dim)"
    using rd(17) [of 0] rd(17) [of 1] rd(17) [of 2] rd(17) [of 3] rd(18) [of 0] rd(18) [of 1] rd(18) [of 2] rd(18) [of 3]
      o offs(6-8) f(2) by (simp_all add: numeral_3_eq_3)
  have fields: "read_le 4 bs 16 = ?n" "read_le 4 bs 20 = ?dim" "read_le 4 bs 24 = ml" "read_le 4 bs 28 = e"
      "read_le 2 bs 34 = sp_m params" "read_le 2 bs 36 = sp_mmax0 params" "read_le 2 bs 38 = sp_mmax params"
      "read_le 2 bs 40 = sp_ef_construction params" "read_le 8 bs 56 = hd row_ids" "read_le 8 bs 64 = last row_ids"
    using rd f ps hd e ml by (simp_all add: u32_max_def)
  let ?r = "\<lparr> sr_bytes = bs, sr_node_count = ?n, sr_dim = ?dim, sr_max_level = ml,
       sr_entry = Some (e, levels ! e), sr_row_ids_off = 128, sr_levels_off = 128 + 8 * ?n,
       sr_vectors_off = offV, sr_layer_off = layer_table offA layers, sr_params = params,
       sr_format_version = 1, sr_row_id_min = hd row_ids, sr_row_id_max = last row_ids \<rparr>"
  have ar: "checked_mul ?n 8 = Some (8 * ?n)" "checked_mul ?n ?dim = Some (?n * ?dim)"
      "checked_mul (?n * ?dim) 4 = Some (4 * (?n * ?dim))"
      "checked_add 128 (8 * ?n) = Some (128 + 8 * ?n)" "checked_add (128 + 8 * ?n) ?n = Some (128 + 8 * ?n + ?n)"
      "checked_add offA (length ?A) = Some (offA + length ?A)" "checked_add offV (4 * (?n * ?dim)) = Some (offV + 4 * (?n * ?dim))"
    using offs(1,3,5) by (simp_all add: checked_mul_def checked_add_def)
  have "segment_from_bytes crc bs = Inr ?r"
    unfolding segment_from_bytes_def Let_def check_section_def
    using rd sec fields ar layers R L1 len f offs nl ml e
    by (simp add: guardE_def HEADER_LEN_def SEGMENT_FORMAT_VERSION_def METRIC_L2_def VECTORS_ALIGN_def NO_ENTRY_POINT_def
        list_all_iff del: read_layers.simps)
  moreover have "\<exists>pre post. bs = pre @ ?A @ post \<and> length pre = offA" using A by blast
  moreover have "\<exists>pre. bs = pre @ ?V \<and> length pre = offV" using V2 by blast
  moreover have "length bs \<le> u64_max" using offs(5) by (simp only: len)
  ultimately show ?thesis
    using that [OF _ f(6,7,8,9,1) conjunct1 [OF ly] refl R L _ offs(2) _ offs(4) _ conjunct2 [OF ly]] by blast
qed

lemma csr_wf_bounds:
  "csr_wf n c \<Longrightarrow> n \<le> u32_max \<Longrightarrow> (\<forall>x\<in>set (fst c). x < 256 ^ 4) \<and> (\<forall>x\<in>set (snd c). x < 256 ^ 4)"
  unfolding u32_max_def csr_wf_def by (cases c) (fastforce dest: bspec)

lemma reader_neighbors_ok:
  assumes A: "\<exists>pre post. b = pre @ concat (map layer_bytes layers) @ post \<and> length pre = offA" "offA mod 4 = 0"
    and lays: "layers = map (\<lambda>layer. csr_of (\<lambda>l. ns_neighbors src l layer) n) [0..<Suc ml]"
    and wf: "\<forall>csr\<in>set layers. csr_wf n csr"
    and r: "sr_bytes r = b" "sr_layer_off r = layer_table offA layers" "sr_node_count r = n" "sr_max_level r = ml"
    and i: "i < n" "layer \<le> ml" "n \<le> u32_max"
  shows "reader_neighbors r i layer = ns_neighbors src i layer"
proof -
  let ?f = "\<lambda>l. ns_neighbors src l layer"
  let ?c = "csr_of ?f n"
  have len: "length layers = Suc ml" by (subst lays) simp
  have c: "layers ! layer = ?c" using i(2) by (subst lays) (simp del: upt_Suc)
  have "csr_wf n ?c" using wf len c i(2) by (metis le_imp_less_Suc nth_mem)
  then have w: "length (fst ?c) = Suc n" "last (fst ?c) = length (snd ?c)" "\<forall>x\<in>set (fst ?c). x < 256 ^ 4"
      "\<forall>x\<in>set (snd ?c). x < 256 ^ 4"
    using csr_wf_bounds [OF _ i(3)] by (auto simp: csr_wf_def case_prod_beta)
  obtain p q where pq: "concat (map layer_bytes layers) = p @ layer_bytes ?c @ q"
      "layer_table offA layers ! layer = (offA + length p, offA + length p + 4 * length (fst ?c))" "length p mod 4 = 0"
    using layer_at [of layer layers offA] len c i(2) by (metis le_imp_less_Suc)
  obtain pre post where b: "b = pre @ concat (map layer_bytes layers) @ post" "length pre = offA" using A(1) by blast
  have b1: "b = (pre @ p) @ ints_bytes 4 (fst ?c) @ (ints_bytes 4 (snd ?c) @ q @ post)"
    and b2: "b = (pre @ p @ ints_bytes 4 (fst ?c)) @ ints_bytes 4 (snd ?c) @ (q @ post)"
    unfolding b(1) pq(1) layer_bytes_def by simp_all
  have m: "(offA + length p) mod 4 = 0" using A(2) pq(3) by presburger
  have m': "(offA + length p + 4 * length (fst ?c)) mod 4 = 0" using m by simp
  have tl: "length (layer_table offA layers) = length layers"
    for offA by (induction layers arbitrary: offA) auto
  have lo: "layer_offsets r layer = fst ?c"
  proof -
    have "ints_at 4 b (offA + length p) (offA + length p + 4 * length (fst ?c)) = Some (fst ?c)"
      unfolding b1 by (rule ints_at_mid) (use b(2) m w in simp_all)
    then show ?thesis using r pq(2) tl len i(2) by (simp add: layer_offsets_def)
  qed
  have ln: "layer_neighbors r layer = snd ?c"
  proof -
    have "ints_at 4 b (offA + length p + 4 * length (fst ?c)) (offA + length p + 4 * length (fst ?c) + length (snd ?c) * 4)
        = Some (snd ?c)"
      unfolding b2 by (rule ints_at_mid [OF _ _ _ m']) (use b(2) w in simp_all)
    moreover have "fst ?c \<noteq> []" using w(1) by auto
    ultimately show ?thesis using r pq(2) tl len i(2) lo w(2) by (simp add: layer_neighbors_def Let_def)
  qed
  show ?thesis
    using csr_of_node [OF i(1), of ?f] r i w(1) by (simp add: reader_neighbors_def lo ln)
qed

lemma reader_vector_ok:
  assumes V: "\<exists>pre. b = pre @ concat (map (\<lambda>i. f32s_bytes (the (ns_vector src i))) [0..<n]) \<and> length pre = offV"
    and al: "offV mod 64 = 0" "length b \<le> u64_max"
    and vec: "\<forall>i<n. \<exists>v. ns_vector src i = Some v \<and> length v = sr_dim r"
    and i: "i < n" and r: "sr_bytes r = b" "sr_vectors_off r = offV" "sr_node_count r = n"
  shows "reader_vector r i = ns_vector src i"
proof -
  let ?vs = "map (\<lambda>i. the (ns_vector src i)) [0..<n]"
  obtain v where v: "ns_vector src i = Some v" "length v = sr_dim r" using vec i by blast
  have all: "\<forall>v\<in>set ?vs. length v = sr_dim r" using vec by auto
  obtain p q where pq: "concat (map f32s_bytes ?vs) = p @ f32s_bytes (?vs ! i) @ q" "length p = i * (sr_dim r * 4)"
    using vector_at [of i ?vs "sr_dim r"] i all by auto
  obtain pre where b: "b = pre @ concat (map f32s_bytes ?vs)" "length pre = offV" using V by (auto simp: comp_def)
  have nth: "?vs ! i = v" using i v(1) by simp
  have b1: "b = (pre @ p) @ ints_bytes 4 (map unat v) @ q"
    unfolding b(1) pq(1) nth f32s_bytes_def by simp
  have len: "offV + i * (sr_dim r * 4) + sr_dim r * 4 \<le> length b"
    unfolding b1 using b(2) pq(2) v(2) by simp
  have "(offV + i * sr_dim r * 4) mod 4 = 0" using al(1) by presburger
  then have m: "(offV + i * (sr_dim r * 4)) mod 4 = 0" by (simp only: mult.assoc)
  have "ints_at 4 b (offV + i * (sr_dim r * 4)) (offV + i * (sr_dim r * 4) + sr_dim r * 4) = Some (map unat v)"
    unfolding b1
    by (rule ints_at_mid [OF _ _ _ m]) (use b(2) pq(2) v(2) unat_word_less(2) in auto)
  then show ?thesis
    using len al(2) r i v(1) by (simp add: reader_vector_def checked_mul_def checked_add_def f32s_round_trip comp_def)
qed

text \<open>What the users of a freshly written segment rely on.\<close>

lemma strictly_ascending_distinct: "strictly_ascending xs \<Longrightarrow> distinct xs \<and> (\<forall>x\<in>set (tl xs). hd xs < x)"
  by (induction xs rule: strictly_ascending.induct) auto

lemma segment_accepted:
  assumes enc: "encode_segment crc src row_ids params = Inr bs" and ids: "\<forall>x\<in>set row_ids. is_u64 x"
  obtains r where "segment_from_bytes crc bs = Inr r" "row_id_slice r = row_ids"
    "sr_node_count r = length row_ids" "sr_dim r = ns_dimension src" "sr_format_version r = SEGMENT_FORMAT_VERSION"
    "reader_row_id_range r = (hd row_ids, last row_ids)" "distinct row_ids" "0 < ns_dimension src"
    "ns_dimension src \<le> u32_max" "length bs \<le> u64_max" "length row_ids \<le> u32_max" "row_ids \<noteq> []"
proof -
  have guards: "distinct row_ids" "0 < ns_dimension src" "ns_dimension src \<le> u32_max" "length row_ids \<le> u32_max"
    "row_ids \<noteq> []"
    using enc strictly_ascending_distinct [of row_ids] unfolding encode_segment_def Let_def bindE_Inr_iff guardE_Inr_iff
    by blast+
  show ?thesis
    by (rule segment_decodes [OF enc ids])
      (rule that, assumption, use guards in \<open>auto simp: row_id_slice_def reader_row_id_range_def mult.commute
         SEGMENT_FORMAT_VERSION_def\<close>)
qed

text \<open>C10: A vector segment survives the disk.  Whatever the writer encodes without error, the
  validating reader accepts, and the graph it exposes is the one that was encoded: the row ids, the
  dimension, the build parameters and row-id range, the entry point with its node's level, and for
  every node its level, its vector bit for bit, and on every layer of the graph its neighbours in
  order.\<close>

theorem segment_round_trip:
  assumes enc: "encode_segment crc src row_ids params = Inr bs" and ids: "\<forall>x\<in>set row_ids. is_u64 x"
  shows "\<exists>r e el. segment_from_bytes crc bs = Inr r \<and> row_id_slice r = row_ids \<and>
    sr_node_count r = length row_ids \<and> sr_params r = params \<and>
    reader_row_id_range r = (hd row_ids, last row_ids) \<and> ns_dimension (reader_source r) = ns_dimension src \<and>
    ns_entry_point src = Some (e, el) \<and>
    ns_entry_point (reader_source r) = Some (e, the (ns_level src e)) \<and>
    (\<forall>i<length row_ids. ns_level (reader_source r) i = ns_level src i \<and> the (ns_level src i) \<le> sr_max_level r \<and>
       ns_vector (reader_source r) i = ns_vector src i \<and>
       (\<forall>layer \<le> sr_max_level r. ns_neighbors (reader_source r) i layer = ns_neighbors src i layer))"
proof -
  let ?n = "length row_ids"
  obtain levels ml e el layers offA offV r where
    dec: "segment_from_bytes crc bs = Inr r"
    and lvs: "collect_levels src [0..<?n] = Inr levels" "ml = fold max levels 0"
      "ns_entry_point src = Some (e, el)" "e < ?n" "row_ids \<noteq> []"
    and lays: "layers = map (\<lambda>layer. csr_of (\<lambda>l. ns_neighbors src l layer) ?n) [0..<Suc ml]"
    and r: "r = \<lparr> sr_bytes = bs, sr_node_count = ?n, sr_dim = ns_dimension src, sr_max_level = ml,
       sr_entry = Some (e, levels ! e), sr_row_ids_off = 128, sr_levels_off = 128 + 8 * ?n,
       sr_vectors_off = offV, sr_layer_off = layer_table offA layers, sr_params = params,
       sr_format_version = 1, sr_row_id_min = hd row_ids, sr_row_id_max = last row_ids \<rparr>"
    and R: "ints_at 8 bs 128 (128 + 8 * ?n) = Some row_ids"
    and L: "slice bs (128 + 8 * ?n) (128 + 8 * ?n + ?n) = Some (map word_of_nat levels)"
    and A: "\<exists>pre post. bs = pre @ concat (map layer_bytes layers) @ post \<and> length pre = offA" "offA mod 4 = 0"
    and V: "\<exists>pre. bs = pre @ concat (map (\<lambda>i. f32s_bytes (the (ns_vector src i))) [0..<?n]) \<and> length pre = offV"
    and al: "offV mod 64 = 0" "length bs \<le> u64_max" and wf: "\<forall>csr\<in>set layers. csr_wf ?n csr"
    by (rule segment_decodes [OF enc ids])
  note lv = collect_levels_ok [OF lvs(1)]
  have nmax: "?n \<le> u32_max" by (rule encode_segment_file [OF enc])
  have lv8: "\<forall>l\<in>set levels. l < 256" using lv by (auto simp: in_set_conv_nth)
  have "row_id_slice r = row_ids" using R by (simp add: r row_id_slice_def mult.commute)
  moreover have lev: "levels_of r = levels"
    unfolding levels_of_def r segment_reader.simps L option.case by (rule cast_words [OF lv8])
  have "ns_level (reader_source r) i = ns_level src i" "the (ns_level src i) \<le> sr_max_level r" if "i < ?n" for i
    using lv lev that fold_max_bounds(1) [of levels 0] by (auto simp: reader_source_def reader_level_def r lvs(2))
  moreover have "ns_vector (reader_source r) i = ns_vector src i" if i: "i < ?n" for i
    using reader_vector_ok [OF V al _ i] lv i by (auto simp: reader_source_def r)
  moreover have "ns_neighbors (reader_source r) i layer = ns_neighbors src i layer" if "i < ?n" "layer \<le> sr_max_level r" for i layer
    using reader_neighbors_ok [OF A lays wf, of r i layer] that nmax by (simp add: reader_source_def r)
  ultimately show ?thesis
    using dec lvs(3,4) lv by (intro exI [of _ r] exI [of _ e] exI [of _ el])
      (auto simp: reader_row_id_range_def reader_source_def r)
qed

text \<open>The encoder fails only on its documented conditions: writes always land in the buffer.\<close>

lemma write_all_total:
  "\<forall>w\<in>set ws. fst w + length (snd w) \<le> length out \<Longrightarrow> length out \<le> u64_max \<Longrightarrow>
   \<exists>out'. write_all ws out = Inr out' \<and> length out' = length out"
proof (induction ws arbitrary: out)
  case (Cons w ws)
  obtain at src where w: "w = (at, src)" by fastforce
  have "write_at at src out = Inr (splice out at src)"
    using Cons.prems w by (auto simp: write_at_def checked_add_def)
  then show ?case using Cons.IH [of "splice out at src"] Cons.prems w by simp
qed simp

lemma consecutive_bounds: "w \<in> set (consecutive c bss) \<Longrightarrow> fst w + length (snd w) \<le> c + length (concat bss)"
  by (induction bss arbitrary: c) fastforce+

lemma adjacency_size_total:
  "acc + length (concat (map layer_bytes layers)) \<le> u64_max \<Longrightarrow>
   adjacency_size layers acc = Some (acc + length (concat (map layer_bytes layers)))"
proof (induction layers arbitrary: acc)
  case (Cons csr rest)
  obtain offs nbrs where csr: "csr = (offs, nbrs)" by fastforce
  have "adjacency_size rest (acc + (length offs + length nbrs) * 4) =
      Some (acc + (length offs + length nbrs) * 4 + length (concat (map layer_bytes rest)))"
    using Cons.prems csr by (intro Cons.IH) simp
  then show ?case using Cons.prems csr by (simp add: checked_add_def checked_mul_def algebra_simps)
qed simp

lemma align_up_small:
  assumes "0 < a" "v + a \<le> u64_max"
  shows "v \<le> align_up v a \<and> align_up v a \<le> v + a"
proof -
  let ?q = "(v + a - 1) div a"
  have "v + a - 1 = ?q * a + (v + a - 1) mod a" by (metis div_mult_mod_eq)
  moreover have "(v + a - 1) mod a < a" using assms(1) by simp
  ultimately have "v \<le> ?q * a" "?q * a \<le> v + a" by linarith+
  then show ?thesis using assms(2) by (simp add: align_up_def)
qed

lemma encode_segment_total:
  fixes row_ids :: "nat list"
  defines "n \<equiv> length row_ids"
  assumes ids: "row_ids \<noteq> []" "strictly_ascending row_ids" and dim: "0 < ns_dimension src" "ns_dimension src \<le> u32_max"
    and lv: "collect_levels src [0..<n] = Inr levels" and en: "ns_entry_point src = Some (e, el)" "e < n"
    and ly: "csr_layers src n [0..<Suc (fold max levels 0)] = Inr layers"
    and ps: "sp_m params < 2 ^ 16" "sp_mmax0 params < 2 ^ 16" "sp_mmax params < 2 ^ 16" "sp_ef_construction params < 2 ^ 16"
    and sz: "n * 8 \<le> u32_max" "length (concat (map layer_bytes layers)) \<le> u32_max" "n * ns_dimension src * 4 \<le> u32_max"
  shows "\<exists>bs. encode_segment crc src row_ids params = Inr bs"
proof -
  let ?al = "length (concat (map layer_bytes layers))" and ?vl = "n * ns_dimension src * 4"
  let ?offA = "align_up (128 + n * 8 + n) 4"
  let ?offV = "align_up (?offA + ?al) 64"
  have A: "128 + n * 8 + n \<le> ?offA" "?offA \<le> 128 + n * 8 + n + 4"
    using align_up_small [of 4 "128 + n * 8 + n"] sz(1) by (simp_all add: u32_max_def u64_max_def)
  have V: "?offA + ?al \<le> ?offV" "?offV \<le> ?offA + ?al + 64"
    using align_up_small [of 64 "?offA + ?al"] sz A by (simp_all add: u32_max_def u64_max_def)
  have T: "?offV + ?vl \<le> u64_max" using V A sz by (simp add: u32_max_def u64_max_def)
  have ar: "checked_mul n 8 = Some (n * 8)" "adjacency_size layers 0 = Some ?al"
      "checked_mul n (ns_dimension src) = Some (n * ns_dimension src)" "checked_mul (n * ns_dimension src) 4 = Some ?vl"
      "checked_add 128 (n * 8) = Some (128 + n * 8)" "checked_add (128 + n * 8) n = Some (128 + n * 8 + n)"
      "checked_add ?offA ?al = Some (?offA + ?al)" "checked_add ?offV ?vl = Some (?offV + ?vl)" "n \<le> u32_max"
    using adjacency_size_total [of 0 layers] sz T V A by (simp_all add: checked_mul_def checked_add_def u32_max_def u64_max_def)
  note lvs = collect_levels_ok [OF lv]
  have vec: "\<exists>v. ns_vector src i = Some v \<and> length v = ns_dimension src" if "i < n" for i using lvs that by simp
  obtain out1 where o1: "write_all [(128, ints_bytes 8 row_ids), (128 + n * 8, map word_of_nat levels)]
      (replicate (?offV + ?vl) 0) = Inr out1" "length out1 = ?offV + ?vl"
    using write_all_total [of "[(128, ints_bytes 8 row_ids), (128 + n * 8, map word_of_nat levels)]" "replicate (?offV + ?vl) 0"]
      A V T lvs n_def by (auto simp: mult.commute)
  let ?As = "concat (map (\<lambda>c. [ints_bytes 4 (fst c), ints_bytes 4 (snd c)]) layers)"
  have "\<forall>w\<in>set (consecutive ?offA ?As). fst w + length (snd w) \<le> length out1"
  proof
    fix w assume "w \<in> set (consecutive ?offA ?As)"
    from consecutive_bounds [OF this] show "fst w + length (snd w) \<le> length out1"
      using V(1) unfolding concat_layer_bytes o1(2) by linarith
  qed
  then obtain out2 where o2: "write_all (consecutive ?offA ?As) out1 = Inr out2" "length out2 = ?offV + ?vl"
    using write_all_total [of "consecutive ?offA ?As" out1] o1(2) T by auto
  let ?vs = "map (\<lambda>l. f32s_bytes (the (ns_vector src l))) [0..<n]"
  have cv: "collect_vectors src [0..<n] = Inr ?vs"
    by (rule collect_vectors_ok) (use vec in \<open>metis atLeastLessThan_upt atLeastLessThan_iff\<close>)
  have "\<forall>i\<in>set [0..<n]. length (f32s_bytes (the (ns_vector src i))) = 4 * ns_dimension src" using vec by fastforce
  then have vl: "length (concat ?vs) = ?vl"
    using length_concat_const [of "[0..<n]" "\<lambda>i. f32s_bytes (the (ns_vector src i))" "4 * ns_dimension src"] by simp
  have "\<forall>w\<in>set (consecutive ?offV ?vs). fst w + length (snd w) \<le> length out2"
    using consecutive_bounds [of _ ?offV ?vs] vl o2(2) by metis
  then obtain out3 where o3: "write_all (consecutive ?offV ?vs) out2 = Inr out3" "length out3 = ?offV + ?vl"
    using write_all_total [of "consecutive ?offV ?vs" out2] o2(2) T by auto
  let ?hw = "header_writes n (ns_dimension src) (fold max levels 0) e params (hd row_ids) (last row_ids)
      [128, 128 + n * 8, ?offA, ?offV] [n * 8, n, ?al, ?vl]"
  have "\<forall>w\<in>set ?hw. fst w + length (snd w) \<le> 128"
    using header_writes_apart [of n "ns_dimension src" "fold max levels 0" e params] by fastforce
  moreover have l3: "128 \<le> length out3" unfolding o3(2) using A V by linarith
  ultimately have "\<forall>w\<in>set ?hw. fst w + length (snd w) \<le> length out3" by (meson le_trans)
  then obtain out4 where o4: "write_all ?hw out3 = Inr out4" "length out4 = length out3"
    using write_all_total [of ?hw out3] o3(2) T by auto
  have wr: "\<exists>out'. write_at at src out = Inr out' \<and> length out' = length out" if "at + length src \<le> length out" "length out = length out3"
    for at src out
    using that o3(2) T by (simp add: write_at_def checked_add_def)
  obtain out5 where o5: "write_at 120 (le_bytes 4 (unat (crc (drop 128 out4)))) out4 = Inr out5" "length out5 = length out3"
    using wr [of 120 "le_bytes 4 (unat (crc (drop 128 out4)))" out4] l3 o4(2) by auto
  obtain out6 where o6: "write_at 124 (le_bytes 4 (unat (crc (take 124 out5)))) out5 = Inr out6"
    using wr [of 124 "le_bytes 4 (unat (crc (take 124 out5)))" out5] l3 o5(2) by auto
  show ?thesis
    unfolding encode_segment_def Let_def n_def [symmetric] HEADER_LEN_def VECTORS_ALIGN_def case_prod_unfold
    using ids dim lv en ly ps sz ar o1(1) o2(1) cv o3(1) o4(1) o5(1) o6
    by (simp add: guardE_def del: upt_Suc)
qed

definition sample_graph :: node_source where
  "sample_graph =
     \<lparr> ns_entry_point = Some (1, 0), ns_level = (\<lambda>i. if i < 2 then Some 0 else None),
       ns_neighbors = (\<lambda>i layer. if i = 0 then [1] else []),
       ns_vector = (\<lambda>i. if i < 2 then Some [word_of_nat i] else None), ns_dimension = 1 \<rparr>"

definition sample_params :: segment_params where
  "sample_params = \<lparr> sp_m = 16, sp_mmax0 = 32, sp_mmax = 16, sp_ef_construction = 100, sp_m_l = 0 \<rparr>"

theorem segment_round_trip_witness:
  "\<exists>bs r. encode_segment (\<lambda>_. 0) sample_graph [5, 9] sample_params = Inr bs \<and>
     segment_from_bytes (\<lambda>_. 0) bs = Inr r \<and> row_id_slice r = [5, 9] \<and>
     ns_vector (reader_source r) 1 = Some [1] \<and> ns_neighbors (reader_source r) 0 0 = [1]"
proof -
  have "\<exists>bs. encode_segment (\<lambda>_. 0) sample_graph [5, 9] sample_params = Inr bs"
    by (rule encode_segment_total [where e = 1 and el = 0 and levels = "[0, 0]" and layers = "[([0, 1, 1], [1])]"])
      (simp_all add: sample_graph_def sample_params_def u32_max_def guardE_def upt_rec Let_def)
  then obtain bs where bs: "encode_segment (\<lambda>_. 0) sample_graph [5, 9] sample_params = Inr bs" by blast
  have "\<forall>x\<in>set [5, 9]. is_u64 x" by (simp add: is_u64_def u64_max_def)
  from segment_round_trip [OF bs this] show ?thesis
    using bs by (auto simp: sample_graph_def)
qed

end
