(* ===== verification/TxnError.thy ===== *)
theory TxnError
  imports Backend IndexError
begin

text \<open>
  The error type of the transaction layer (\<open>crates/txn/src/error.rs\<close>) and the names of its hidden columns.  Payloads
  that only carry text for display are dropped; row ids, versions and ranges are kept.
\<close>

datatype txn_error =
    TxnIo io_kind
  | Storage storage_error
  | TxnArrow
  | DatasetExists
  | DatasetNotFound
  | TryFromInt
  | Index index_error
  | NonFiniteVectorComponent nat
  | ManifestOverflow
  | RowIdReservationDurability nat storage_error
  | IndeterminateManifestPublication nat storage_error
  | UnreasonableCapacity nat nat
  | UnsafeManifestPath string
  | CorruptSegment
  | SchemaMismatch nat nat
  | BatchSchemaMismatch
  | RowNotFound nat
  | RowNotLive nat
  | DuplicateTarget nat
  | InvalidUpdateShape nat
  | TxnConflict "nat list"
  | TxnInsufficientHistory nat nat nat
  | RowIdRangeMismatch nat nat
  | ReservedColumnName string
  | Clock
  | InvalidRetentionPolicy
  | InvalidCompactionPolicy

definition ROW_ID_COLUMN :: string where
  "ROW_ID_COLUMN = ''_row_id''"

definition TIMESTAMP_COLUMN :: string where
  "TIMESTAMP_COLUMN = ''_timestamp''"

end
