(* ===== verification/ArrowData.thy ===== *)
theory ArrowData
  imports Schema FloatArith TxnError
begin

text \<open>
  Record batches and the data files that hold them: dictionary encoding
  (\<open>crates/storage/src/encoding.rs\<close>), writing and reading of immutable objects
  (\<open>crates/storage/src/datafile.rs\<close>), and the hidden columns the transaction layer appends
  (\<open>append_row_id_column\<close>, \<open>append_timestamp_column\<close> and \<open>append_migrated_nullable_column\<close> of
  \<open>crates/txn/src/dataset.rs\<close>).  The Arrow library itself is a record of functions.
\<close>

section \<open>Batches\<close>

text \<open>A dictionary array is kept as the column of its logical values.\<close>

datatype arr = PlainArr column | DictArr column

record record_batch =
  rb_schema :: arrow_schema
  rb_columns :: "arr list"
  rb_num_rows :: nat

fun column_length :: "column \<Rightarrow> nat" where
  "column_length (Int64Col xs) = length xs"
| "column_length (Float64Col xs) = length xs"
| "column_length (Utf8Col xs) = length xs"
| "column_length (BooleanCol xs) = length xs"
| "column_length (UInt64Col xs) = length xs"
| "column_length (VectorCol _ xs) = length xs"
| "column_length (OtherCol n) = n"

text \<open>Which slots are null; a column of another type does not show it.\<close>

fun column_nulls :: "column \<Rightarrow> bool list" where
  "column_nulls (Int64Col xs) = map Option.is_none xs"
| "column_nulls (Float64Col xs) = map (\<lambda>(valid, _). \<not> valid) xs"
| "column_nulls (Utf8Col xs) = map Option.is_none xs"
| "column_nulls (BooleanCol xs) = map Option.is_none xs"
| "column_nulls (UInt64Col xs) = map Option.is_none xs"
| "column_nulls (VectorCol _ xs) = map Option.is_none xs"
| "column_nulls (OtherCol n) = replicate n False"

fun arr_values :: "arr \<Rightarrow> column" where
  "arr_values (PlainArr c) = c"
| "arr_values (DictArr c) = c"

definition schema_index_of :: "arrow_schema \<Rightarrow> string \<Rightarrow> nat option" where
  "schema_index_of sch name =
     (let i = length (takeWhile (\<lambda>f. fd_name f \<noteq> name) (sch_fields sch))
      in if i < length (sch_fields sch) then Some i else None)"

definition field_new :: "string \<Rightarrow> data_type \<Rightarrow> bool \<Rightarrow> field" where
  "field_new name ty nullable = \<lparr> fd_name = name, fd_type = ty, fd_nullable = nullable, fd_metadata = [] \<rparr>"

text \<open>The plain columns of a batch by name, as the statistics see them.\<close>

fun plain_column :: "arr \<Rightarrow> column" where
  "plain_column (PlainArr c) = c"
| "plain_column (DictArr c) = OtherCol (column_length c)"

definition batch_of :: "record_batch \<Rightarrow> batch" where
  "batch_of b = zip (map fd_name (sch_fields (rb_schema b))) (map plain_column (rb_columns b))"

section \<open>The Arrow library\<close>

datatype ipc_outcome = IpcFirst record_batch | IpcNone | IpcFailed | IpcPanicked

text \<open>Row conversion (\<open>RowConverter\<close>), the cast to a dictionary, the checked constructor of a
  batch, the IPC file writer and reader.\<close>

record arrow_lib =
  al_row_bytes :: "arr \<Rightarrow> bytes list option"
  al_dictionary :: "arr \<Rightarrow> arr option"
  al_try_new :: "arrow_schema \<Rightarrow> arr list \<Rightarrow> record_batch option"
  al_ipc_write :: "record_batch \<Rightarrow> bytes option"
  al_ipc_read :: "bytes \<Rightarrow> ipc_outcome"

text \<open>What the code relies on: a batch that is accepted is the one described and its columns
  have its length, a cast to a dictionary keeps the values, and a written file is a buffer of the
  machine's size and reads back.\<close>

definition arrow_lib_spec :: "arrow_lib \<Rightarrow> bool" where
  "arrow_lib_spec A \<longleftrightarrow>
     (\<forall>sch cols b. al_try_new A sch cols = Some b \<longrightarrow>
        rb_schema b = sch \<and> rb_columns b = cols \<and>
        length (sch_fields sch) = length cols \<and>
        (\<forall>a\<in>set cols. column_length (arr_values a) = rb_num_rows b)) \<and>
     (\<forall>a d. al_dictionary A a = Some d \<longrightarrow> arr_values d = arr_values a) \<and>
     (\<forall>b bs. al_ipc_write A b = Some bs \<longrightarrow> al_ipc_read A bs = IpcFirst b \<and> length bs \<le> u64_max)"

section \<open>Dictionary encoding\<close>

text \<open>The constant 0.4.\<close>

definition DICTIONARY_ENCODING_THRESHOLD :: f64 where
  "DICTIONARY_ENCODING_THRESHOLD = 0x3FD999999999999A"

fun count_distinct :: "nat \<Rightarrow> bytes list \<Rightarrow> bool list \<Rightarrow> bytes set \<Rightarrow> bytes set option" where
  "count_distinct bail_out_at (row # rows) (null # nulls) distinct_rows =
     (if null then count_distinct bail_out_at rows nulls distinct_rows
      else let d = insert row distinct_rows
           in if card d \<ge> bail_out_at then None else count_distinct bail_out_at rows nulls d)"
| "count_distinct bail_out_at _ _ distinct_rows = Some distinct_rows"

definition should_dictionary_encode :: "arrow_lib \<Rightarrow> arr \<Rightarrow> (storage_error, bool) result" where
  "should_dictionary_encode A a =
     (let c = arr_values a; nulls = column_nulls c in
      if column_length c = 0 then Inr False
      else let non_null_count = length (filter Not nulls) in
        if non_null_count = 0 then Inr False
        else case al_row_bytes A a of
          None \<Rightarrow> Inl Arrow
        | Some rows \<Rightarrow>
            (let non_null_len = f64_of_int (int non_null_count);
                 bail_out_at = f64_ceil_to_nat (f64_mul DICTIONARY_ENCODING_THRESHOLD non_null_len)
             in case count_distinct bail_out_at rows nulls {} of
                  None \<Rightarrow> Inr False
                | Some d \<Rightarrow>
                    Inr (f64_partial_cmp (f64_div (f64_of_int (int (card d))) non_null_len)
                           DICTIONARY_ENCODING_THRESHOLD = Some Less)))"

fun encode_columns :: "arrow_lib \<Rightarrow> field list \<Rightarrow> arr list \<Rightarrow> (storage_error, field list \<times> arr list) result" where
  "encode_columns A (f # fs) (a # cs) =
     bindE (should_dictionary_encode A a) (\<lambda>dict.
       bindE (if dict
              then (case al_dictionary A a of
                      None \<Rightarrow> Inl Arrow
                    | Some d \<Rightarrow> Inr (f\<lparr> fd_type := DTDictionary (fd_type f) \<rparr>, d))
              else Inr (f, a)) (\<lambda>(f', a').
         bindE (encode_columns A fs cs) (\<lambda>(fs', cs'). Inr (f' # fs', a' # cs'))))"
| "encode_columns A _ _ = Inr ([], [])"

definition encode_batch :: "arrow_lib \<Rightarrow> record_batch \<Rightarrow> (storage_error, record_batch) result" where
  "encode_batch A b =
     bindE (encode_columns A (sch_fields (rb_schema b)) (rb_columns b)) (\<lambda>(fs, cs).
       case al_try_new A \<lparr> sch_fields = fs, sch_metadata = sch_metadata (rb_schema b) \<rparr> cs of
         None \<Rightarrow> Inl Arrow
       | Some e \<Rightarrow> Inr e)"

section \<open>Data files\<close>

record write_metadata =
  wm_byte_len :: nat
  wm_crc32c :: nat

definition metadata_of :: "checksum \<Rightarrow> bytes \<Rightarrow> write_metadata" where
  "metadata_of crc bs = \<lparr> wm_byte_len = length bs, wm_crc32c = unat (crc bs) \<rparr>"

definition write_batch_with ::
  "arrow_lib \<Rightarrow> checksum \<Rightarrow> 's backend \<Rightarrow> string \<Rightarrow> record_batch \<Rightarrow> ('s, storage_error, write_metadata) effect" where
  "write_batch_with A crc be key b =
     (case al_ipc_write A b of
        None \<Rightarrow> throwSE Arrow
      | Some bs \<Rightarrow> bindSE (be_put be key bs) (\<lambda>_. returnSE (metadata_of crc bs)))"

definition write_bytes_with ::
  "checksum \<Rightarrow> 's backend \<Rightarrow> string \<Rightarrow> bytes \<Rightarrow> ('s, storage_error, write_metadata) effect" where
  "write_bytes_with crc be key bs = bindSE (be_put be key bs) (\<lambda>_. returnSE (metadata_of crc bs))"

definition read_batch_from_bytes :: "arrow_lib \<Rightarrow> bytes \<Rightarrow> (storage_error, record_batch) result" where
  "read_batch_from_bytes A bs =
     (case al_ipc_read A bs of
        IpcFirst b \<Rightarrow> Inr b
      | IpcNone \<Rightarrow> Inl EmptyDataFile
      | IpcFailed \<Rightarrow> Inl Arrow
      | IpcPanicked \<Rightarrow> Inl CorruptDataFile)"

definition read_batch_with :: "arrow_lib \<Rightarrow> 's backend \<Rightarrow> string \<Rightarrow> ('s, storage_error, record_batch) effect" where
  "read_batch_with A be key = bindSE (be_get be key) (\<lambda>bs. liftSE (read_batch_from_bytes A bs))"

section \<open>Hidden columns\<close>

definition HIDDEN_COLUMNS :: "string list" where
  "HIDDEN_COLUMNS = [ROW_ID_COLUMN, TIMESTAMP_COLUMN]"

definition rebuild_batch ::
  "arrow_lib \<Rightarrow> field list \<Rightarrow> (string \<times> string) list \<Rightarrow> arr list \<Rightarrow> (txn_error, record_batch) result" where
  "rebuild_batch A fs meta cols =
     (case al_try_new A \<lparr> sch_fields = fs, sch_metadata = meta \<rparr> cols of None \<Rightarrow> Inl TxnArrow | Some b \<Rightarrow> Inr b)"

definition append_row_id_column ::
  "arrow_lib \<Rightarrow> record_batch \<Rightarrow> nat \<Rightarrow> nat \<Rightarrow> (txn_error, record_batch) result" where
  "append_row_id_column A b row_id_base num_rows =
     rebuild_batch A (sch_fields (rb_schema b) @ [field_new ROW_ID_COLUMN DTUInt64 False])
       (sch_metadata (rb_schema b))
       (rb_columns b @ [PlainArr (UInt64Col (map (\<lambda>i. Some (row_id_base + i)) [0..<num_rows]))])"

definition append_timestamp_column ::
  "arrow_lib \<Rightarrow> record_batch \<Rightarrow> int \<Rightarrow> nat \<Rightarrow> (txn_error, record_batch) result" where
  "append_timestamp_column A b ts num_rows =
     rebuild_batch A (sch_fields (rb_schema b) @ [field_new TIMESTAMP_COLUMN DTInt64 False])
       (sch_metadata (rb_schema b))
       (rb_columns b @ [PlainArr (Int64Col (replicate num_rows (Some ts)))])"

definition insert_at :: "nat \<Rightarrow> 'a \<Rightarrow> 'a list \<Rightarrow> 'a list" where
  "insert_at i x xs = take i xs @ x # drop i xs"

text \<open>\<open>nulls\<close> is the library's all-null array of a type and a length.\<close>

definition append_migrated_nullable_column ::
  "arrow_lib \<Rightarrow> (data_type \<Rightarrow> nat \<Rightarrow> arr) \<Rightarrow> record_batch \<Rightarrow> field \<Rightarrow> (txn_error, record_batch) result" where
  "append_migrated_nullable_column A nulls b col =
     (case checked_sub (length (rb_columns b)) (length HIDDEN_COLUMNS) of
        None \<Rightarrow> Inl (Storage MigrationIncompatibleType)
      | Some logical_len \<Rightarrow>
          rebuild_batch A (insert_at logical_len col (sch_fields (rb_schema b))) (sch_metadata (rb_schema b))
            (insert_at logical_len (nulls (fd_type col) (rb_num_rows b)) (rb_columns b)))"

section \<open>What a data file holds\<close>

text \<open>The fields of an encoded batch are the original ones, up to the dictionary.\<close>

definition stored_type_matches_owned_schema :: "data_type \<Rightarrow> data_type \<Rightarrow> bool" where
  "stored_type_matches_owned_schema stored own \<longleftrightarrow> stored = own \<or> stored = DTDictionary own"

definition stored_field_matches :: "field \<Rightarrow> field \<Rightarrow> bool" where
  "stored_field_matches stored own \<longleftrightarrow>
     fd_name stored = fd_name own \<and> fd_nullable stored = fd_nullable own \<and>
     fd_metadata stored = fd_metadata own \<and>
     stored_type_matches_owned_schema (fd_type stored) (fd_type own)"

lemma arrow_lib_specD:
  assumes "arrow_lib_spec A"
  shows "al_try_new A sch cols = Some b \<Longrightarrow>
      rb_schema b = sch \<and> rb_columns b = cols \<and> length (sch_fields sch) = length cols \<and>
      (\<forall>a\<in>set cols. column_length (arr_values a) = rb_num_rows b)"
    and "al_dictionary A a = Some d \<Longrightarrow> arr_values d = arr_values a"
    and "al_ipc_write A b = Some bs \<Longrightarrow> al_ipc_read A bs = IpcFirst b"
    and "al_ipc_write A b = Some bs \<Longrightarrow> length bs \<le> u64_max"
  using assms unfolding arrow_lib_spec_def by blast+

lemma encode_columns_step:
  assumes "encode_columns A (f # fs) (a # cs) = Inr (fs', cs')"
  obtains f' a' fs'' cs'' where "fs' = f' # fs''" "cs' = a' # cs''" "encode_columns A fs cs = Inr (fs'', cs'')"
    and "f' = f \<and> a' = a \<or> f' = f\<lparr> fd_type := DTDictionary (fd_type f) \<rparr> \<and> al_dictionary A a = Some a'"
  using assms by (auto simp: bindE_Inr_iff split: if_splits option.splits)

lemma encode_columns_fields:
  "encode_columns A fs cs = Inr (fs', cs') \<Longrightarrow> length fs = length cs \<Longrightarrow>
   list_all2 stored_field_matches fs' fs"
proof (induction fs arbitrary: cs fs' cs')
  case (Cons f fs)
  then obtain a cs0 where cs: "cs = a # cs0" by (cases cs) auto
  obtain f' a' fs'' cs'' where st: "fs' = f' # fs''" "encode_columns A fs cs0 = Inr (fs'', cs'')"
    and f': "f' = f \<and> a' = a \<or> f' = f\<lparr> fd_type := DTDictionary (fd_type f) \<rparr> \<and> al_dictionary A a = Some a'"
    using encode_columns_step [OF Cons.prems(1) [unfolded cs]] by metis
  have "stored_field_matches f' f"
    using f' by (auto simp: stored_field_matches_def stored_type_matches_owned_schema_def)
  then show ?case using Cons.IH [OF st(2)] Cons.prems(2) cs st(1) by simp
qed simp

lemma encode_columns_values:
  "encode_columns A fs cs = Inr (fs', cs') \<Longrightarrow> arrow_lib_spec A \<Longrightarrow> length fs = length cs \<Longrightarrow>
   map arr_values cs' = map arr_values cs"
proof (induction fs arbitrary: cs fs' cs')
  case (Cons f fs)
  then obtain a cs0 where cs: "cs = a # cs0" by (cases cs) auto
  obtain f' a' fs'' cs'' where st: "cs' = a' # cs''" "encode_columns A fs cs0 = Inr (fs'', cs'')"
    and f': "f' = f \<and> a' = a \<or> f' = f\<lparr> fd_type := DTDictionary (fd_type f) \<rparr> \<and> al_dictionary A a = Some a'"
    using encode_columns_step [OF Cons.prems(1) [unfolded cs]] by metis
  have "arr_values a' = arr_values a" using f' arrow_lib_specD(2) [OF Cons.prems(2)] by blast
  then show ?case using Cons.IH [OF st(2) Cons.prems(2)] Cons.prems(3) cs st(1) by simp
qed simp

lemma rebuild_batch_ok:
  assumes "rebuild_batch A fs meta cols = Inr b" "arrow_lib_spec A"
  shows "rb_schema b = \<lparr> sch_fields = fs, sch_metadata = meta \<rparr> \<and> rb_columns b = cols \<and>
    length fs = length cols \<and> (\<forall>a\<in>set cols. column_length (arr_values a) = rb_num_rows b)"
proof -
  have "al_try_new A \<lparr> sch_fields = fs, sch_metadata = meta \<rparr> cols = Some b"
    using assms(1) by (simp add: rebuild_batch_def split: option.splits)
  from arrow_lib_specD(1) [OF assms(2) this] show ?thesis by simp
qed

lemma encode_batch_ok:
  assumes "encode_batch A b = Inr e" "arrow_lib_spec A"
    and "length (sch_fields (rb_schema b)) = length (rb_columns b)"
  shows "list_all2 stored_field_matches (sch_fields (rb_schema e)) (sch_fields (rb_schema b)) \<and>
    sch_metadata (rb_schema e) = sch_metadata (rb_schema b) \<and>
    map arr_values (rb_columns e) = map arr_values (rb_columns b)"
proof -
  obtain fs cs where e: "encode_columns A (sch_fields (rb_schema b)) (rb_columns b) = Inr (fs, cs)"
      "al_try_new A \<lparr> sch_fields = fs, sch_metadata = sch_metadata (rb_schema b) \<rparr> cs = Some e"
    using assms(1) by (auto simp: encode_batch_def bindE_Inr_iff split: option.splits prod.splits)
  have "rb_schema e = \<lparr> sch_fields = fs, sch_metadata = sch_metadata (rb_schema b) \<rparr>" "rb_columns e = cs"
    using arrow_lib_specD(1) [OF assms(2) e(2)] by simp_all
  then show ?thesis
    using encode_columns_fields [OF e(1) assms(3)] encode_columns_values [OF e(1) assms(2,3)] by simp
qed

end
