(* ===== verification/Plan.thy ===== *)
theory Plan
  imports Prelude
begin

text \<open>
  The query planner (\<open>crates/query/src/plan.rs\<close>): the logical pipeline with its
  constructor's checks, and the selection of physical operators.  The planner has no cost
  model, so the properties are about shape: what is accepted, that everything accepted is
  planned, and which operators a selected path always has.
\<close>

section \<open>Model\<close>

datatype logical_operator =
    Source
  | PredicateOp bool
  | Projection "string list"
  | Grouping "string list" nat
  | VectorSearch string nat bool bool
  | MaterializeOp

datatype plan_error = InvalidLogicalShape | ConflictingTerminalOperators

record logical_plan =
  operators :: "logical_operator list"

fun is_result_operator :: "logical_operator \<Rightarrow> bool" where
  "is_result_operator (Projection _) = True"
| "is_result_operator (Grouping _ _) = True"
| "is_result_operator (VectorSearch _ _ _ _) = True"
| "is_result_operator _ = False"

fun is_predicate_op :: "logical_operator \<Rightarrow> bool" where
  "is_predicate_op (PredicateOp _) = True"
| "is_predicate_op _ = False"

definition supported_order :: "logical_operator list \<Rightarrow> bool" where
  "supported_order ops \<longleftrightarrow>
     length ops = 3 \<and> ops ! 0 = Source \<and> is_result_operator (ops ! 1) \<and> ops ! 2 = MaterializeOp \<or>
     length ops = 4 \<and> ops ! 0 = Source \<and> is_predicate_op (ops ! 1) \<and> is_result_operator (ops ! 2) \<and>
     ops ! 3 = MaterializeOp"

definition logical_plan_new :: "logical_operator list \<Rightarrow> (plan_error, logical_plan) result" where
  "logical_plan_new ops =
     (let has_source = (ops \<noteq> [] \<and> hd ops = Source);
          has_materialize = (ops \<noteq> [] \<and> last ops = MaterializeOp)
      in if \<not> has_source \<or> \<not> has_materialize then Inl InvalidLogicalShape
         else if length (filter is_result_operator ops) \<noteq> 1 then Inl ConflictingTerminalOperators
         else if \<not> supported_order ops then Inl InvalidLogicalShape
         else Inr \<lparr> operators = ops \<rparr>)"

datatype physical_operator =
    ManifestSnapshotSource
  | ZoneMapPruning
  | TombstoneFilter
  | RowFilter
  | ColumnProjection
  | HashGroupBy
  | FilterLiveSet
  | ImmutableSegmentVectorSearch
  | HydrationLookup
  | TransactionOverlay
  | Materialize

record plan_observations =
  data_files_total :: nat
  data_files_scanned :: nat
  data_files_pruned :: nat
  index_segments_total :: nat
  index_segments_scanned :: nat
  index_segments_pruned :: nat
  transaction_overlay :: bool

record physical_plan =
  logical_operators :: "logical_operator list"
  physical_operators :: "physical_operator list"
  observations :: plan_observations

definition overlay_observations :: "plan_observations \<Rightarrow> plan_observations" where
  "overlay_observations obs =
     (if transaction_overlay obs
      then \<lparr> data_files_total = data_files_total obs, data_files_scanned = data_files_total obs,
             data_files_pruned = 0, index_segments_total = index_segments_total obs,
             index_segments_scanned = 0, index_segments_pruned = 0, transaction_overlay = True \<rparr>
      else obs)"

definition source_steps :: "bool \<Rightarrow> bool \<Rightarrow> bool \<Rightarrow> physical_operator list" where
  "source_steps overlay eligible has_predicate =
     [ManifestSnapshotSource] @
     (if overlay then [TombstoneFilter, TransactionOverlay]
      else (if eligible then [ZoneMapPruning] else []) @ [TombstoneFilter]) @
     (if has_predicate then [RowFilter] else [])"

definition plan :: "logical_plan \<Rightarrow> plan_observations \<Rightarrow> (plan_error, physical_plan) result" where
  "plan logical observed =
     (let obs = overlay_observations observed;
          overlay = transaction_overlay obs;
          has_predicate = list_ex is_predicate_op (operators logical);
          eligible = list_ex (\<lambda>x. x = PredicateOp True) (operators logical);
          steps = (case find is_result_operator (operators logical) of
              Some (Projection _) \<Rightarrow>
                Inr (source_steps overlay eligible has_predicate @ (if overlay then [] else [ColumnProjection]))
            | Some (Grouping _ _) \<Rightarrow>
                Inr (source_steps overlay eligible has_predicate @ [HashGroupBy])
            | Some (VectorSearch _ _ has_filter hydration) \<Rightarrow>
                Inr ((if has_filter then (if eligible then [ZoneMapPruning] else []) @ [FilterLiveSet] else []) @
                     [TombstoneFilter, ImmutableSegmentVectorSearch] @
                     (if hydration then [HydrationLookup] else []))
            | _ \<Rightarrow> Inl InvalidLogicalShape)
      in bindE steps (\<lambda>ops. Inr \<lparr> logical_operators = operators logical,
           physical_operators = ops @ [Materialize], observations = obs \<rparr>))"

section \<open>Shape of accepted pipelines\<close>

lemma result_operator_cases:
  assumes "is_result_operator r"
  obtains cs where "r = Projection cs" | ks n where "r = Grouping ks n"
    | c k f h where "r = VectorSearch c k f h"
  using assms by (cases r) auto

lemma list_of_three: "length xs = 3 \<longleftrightarrow> (\<exists>a b c. xs = [a, b, c])"
  by (auto simp: numeral_3_eq_3 length_Suc_conv)

lemma list_of_four: "length xs = 4 \<longleftrightarrow> (\<exists>a b c d. xs = [a, b, c, d])"
  by (auto simp: eval_nat_numeral length_Suc_conv)

lemma is_predicate_op_iff: "is_predicate_op x \<longleftrightarrow> (\<exists>z. x = PredicateOp z)"
  by (cases x) auto

lemma supported_order_shape:
  "supported_order ops \<longleftrightarrow>
     (\<exists>r. is_result_operator r \<and> (ops = [Source, r, MaterializeOp] \<or>
        (\<exists>z. ops = [Source, PredicateOp z, r, MaterializeOp])))"
proof
  assume "supported_order ops"
  then consider (three) "length ops = 3" "ops ! 0 = Source" "is_result_operator (ops ! 1)" "ops ! 2 = MaterializeOp"
    | (four) "length ops = 4" "ops ! 0 = Source" "is_predicate_op (ops ! 1)" "is_result_operator (ops ! 2)"
        "ops ! 3 = MaterializeOp"
    unfolding supported_order_def by blast
  then show "\<exists>r. is_result_operator r \<and> (ops = [Source, r, MaterializeOp] \<or>
        (\<exists>z. ops = [Source, PredicateOp z, r, MaterializeOp]))"
  proof cases
    case three
    then show ?thesis by (auto simp: list_of_three)
  next
    case four
    then show ?thesis by (auto simp: list_of_four is_predicate_op_iff)
  qed
next
  assume "\<exists>r. is_result_operator r \<and> (ops = [Source, r, MaterializeOp] \<or>
        (\<exists>z. ops = [Source, PredicateOp z, r, MaterializeOp]))"
  then show "supported_order ops" by (elim exE conjE disjE) (simp_all add: supported_order_def)
qed

lemma logical_plan_new_shape:
  "logical_plan_new ops = Inr l \<longleftrightarrow>
     l = \<lparr> operators = ops \<rparr> \<and>
     (\<exists>r. is_result_operator r \<and> (ops = [Source, r, MaterializeOp] \<or>
        (\<exists>z. ops = [Source, PredicateOp z, r, MaterializeOp])))"
  (is "?new \<longleftrightarrow> ?shape")
proof
  assume ?new
  then have "supported_order ops" "l = \<lparr> operators = ops \<rparr>"
    by (auto simp: logical_plan_new_def Let_def split: if_splits)
  then show ?shape by (simp add: supported_order_shape)
next
  assume ?shape
  then obtain r where r: "is_result_operator r" "l = \<lparr> operators = ops \<rparr>"
    "ops = [Source, r, MaterializeOp] \<or> (\<exists>z. ops = [Source, PredicateOp z, r, MaterializeOp])"
    by blast
  from r(3) have "supported_order ops" "filter is_result_operator ops = [r]" "ops \<noteq> []" "hd ops = Source"
    "last ops = MaterializeOp"
    by (elim disjE exE; simp add: r(1) supported_order_def)+
  then show ?new using r(2) by (simp add: logical_plan_new_def)
qed

text \<open>The selected path around its tombstone filter, by kind of result operator.\<close>

fun before_tombstones :: "logical_operator \<Rightarrow> bool \<Rightarrow> bool \<Rightarrow> physical_operator list" where
  "before_tombstones (VectorSearch _ _ f _) overlay e =
     (if f then (if e then [ZoneMapPruning] else []) @ [FilterLiveSet] else [])"
| "before_tombstones _ overlay e = ManifestSnapshotSource # (if \<not> overlay \<and> e then [ZoneMapPruning] else [])"

fun after_tombstones :: "logical_operator \<Rightarrow> bool \<Rightarrow> bool \<Rightarrow> physical_operator list" where
  "after_tombstones (VectorSearch _ _ _ h) overlay p =
     ImmutableSegmentVectorSearch # (if h then [HydrationLookup] else [])"
| "after_tombstones (Grouping _ _) overlay p =
     (if overlay then [TransactionOverlay] else []) @ (if p then [RowFilter] else []) @ [HashGroupBy]"
| "after_tombstones _ overlay p =
     (if overlay then [TransactionOverlay] else []) @ (if p then [RowFilter] else []) @
     (if overlay then [] else [ColumnProjection])"

lemma plan_path:
  assumes "find is_result_operator ops = Some r" "is_result_operator r"
  shows "plan \<lparr> operators = ops \<rparr> obs = Inr \<lparr> logical_operators = ops,
    physical_operators =
      before_tombstones r (transaction_overlay obs) (list_ex (\<lambda>x. x = PredicateOp True) ops) @ [TombstoneFilter] @
      after_tombstones r (transaction_overlay obs) (list_ex is_predicate_op ops) @ [Materialize],
    observations = overlay_observations obs \<rparr>"
proof -
  have o: "transaction_overlay (overlay_observations obs) = transaction_overlay obs"
    by (simp add: overlay_observations_def)
  show ?thesis
    using assms(2) by (cases rule: result_operator_cases)
      (simp_all add: plan_def bindE_def Let_def source_steps_def o assms(1))
qed



end
