(* ===== verification/Query.thy ===== *)
theory Query
  imports TxnError Plan Stats
begin

text \<open>
  The query contract of the transaction layer (\<open>crates/txn/src/query.rs\<close>): filter
  expressions, logical schemas, request validation, and the checked constructors of
  group-by and vector-search results.  Values of the different literal and result types carry
  a letter in front of the source's variant name.
\<close>

section \<open>Data\<close>

datatype filter_literal = LBoolean bool | LInt64 int | LUInt64 nat | LFloat64 f64 | LUtf8 string

datatype logical_type = TBoolean | TInt64 | TUInt64 | TFloat64 | TUtf8 | TVector nat

fun literal_type :: "filter_literal \<Rightarrow> logical_type" where
  "literal_type (LBoolean _) = TBoolean"
| "literal_type (LInt64 _) = TInt64"
| "literal_type (LUInt64 _) = TUInt64"
| "literal_type (LFloat64 _) = TFloat64"
| "literal_type (LUtf8 _) = TUtf8"

definition is_scalar :: "logical_type \<Rightarrow> bool" where
  "is_scalar t = (case t of TVector _ \<Rightarrow> False | _ \<Rightarrow> True)"

definition is_numeric :: "logical_type \<Rightarrow> bool" where
  "is_numeric t \<longleftrightarrow> t = TInt64 \<or> t = TFloat64"

record logical_column =
  lc_name :: string
  lc_type :: logical_type
  lc_nullable :: bool

record dataset_schema =
  schema_columns :: "logical_column list"

datatype projection = AllColumns | Columns "string list"

datatype comparison_operator =
    CEqual
  | CNotEqual
  | CLessThan
  | CLessThanOrEqual
  | CGreaterThan
  | CGreaterThanOrEqual

record comparison =
  cmp_column :: string
  cmp_operator :: comparison_operator
  cmp_literal :: filter_literal

datatype filter_expression =
    Compare comparison
  | FAnd filter_expression filter_expression
  | FOr filter_expression filter_expression
  | FNot filter_expression

record scan_request =
  scan_projection :: projection
  scan_filter :: "filter_expression option"

datatype result_value =
    RNull
  | RBoolean bool
  | RInt64 int
  | RUInt64 nat
  | RFloat64 f64
  | RUtf8 string
  | RVector "f32 list"

fun result_type :: "result_value \<Rightarrow> logical_type option" where
  "result_type RNull = None"
| "result_type (RBoolean _) = Some TBoolean"
| "result_type (RInt64 _) = Some TInt64"
| "result_type (RUInt64 _) = Some TUInt64"
| "result_type (RFloat64 _) = Some TFloat64"
| "result_type (RUtf8 _) = Some TUtf8"
| "result_type (RVector xs) = Some (TVector (length xs))"

type_synonym projected_row = "(string \<times> result_value) list"

record row_lookup_request =
  lookup_row_id :: nat
  lookup_projection :: projection

datatype row_lookup_outcome = Live projected_row | Tombstoned | NotFound

datatype aggregate_function = Count | Sum | Minimum | Maximum | Average

record aggregate =
  agg_column :: string
  agg_function :: aggregate_function
  agg_alias :: string

fun output_type :: "aggregate_function \<Rightarrow> logical_type \<Rightarrow> logical_type option" where
  "output_type Count t = (if is_scalar t then Some TUInt64 else None)"
| "output_type Average t = (if is_numeric t then Some TFloat64 else None)"
| "output_type _ t = (if is_numeric t then Some t else None)"

record group_by_request =
  gb_columns :: "string list"
  gb_aggregates :: "aggregate list"
  gb_filter :: "filter_expression option"

record aggregate_output =
  ao_alias :: string
  ao_type :: logical_type

record grouped_row =
  gr_keys :: "result_value list"
  gr_aggregates :: "result_value list"

record group_by_result =
  gbr_columns :: "string list"
  gbr_aggregates :: "aggregate_output list"
  gbr_rows :: "grouped_row list"

datatype vector_hydration = HydrationNotRequested | HydrationProjection projection

record vector_search_request =
  vs_column :: string
  vs_query :: "f32 list"
  vs_k :: nat
  vs_filter :: "filter_expression option"
  vs_hydration :: vector_hydration

datatype hydration_error =
    HydrationNotFound
  | HydrationTombstoned
  | VectorUnavailable
  | IntegrityFailure

datatype vector_hydration_state = NotRequested | Hydrated projected_row | Unresolved hydration_error

record vector_hit =
  hit_row_id :: nat
  hit_distance :: f32
  hit_hydration :: vector_hydration_state

record vector_search_result =
  vsr_requested_k :: nat
  vsr_projection :: "string list option"
  vsr_hits :: "vector_hit list"

section \<open>Errors\<close>

datatype query_validation_error =
    ReservedColumn string
  | DuplicateSchemaColumn string
  | ZeroVectorDimensions string
  | UnknownColumn string
  | DuplicateProjection string
  | FilterTypeMismatch string logical_type logical_type
  | NonScalarFilterColumn string
  | InvalidComparisonOperator string comparison_operator logical_type
  | NonScalarGroupColumn string
  | DuplicateGroupColumn string
  | EmptyGroupBy
  | DuplicateAggregateAlias string
  | InvalidAggregateOutputType string logical_type
  | InvalidAggregateType string aggregate_function logical_type
  | InvalidVectorK
  | UnsupportedVectorColumn string
  | NotVectorColumn string logical_type
  | NonFiniteQueryComponent nat
  | VectorDimensionMismatch nat nat

datatype query_execution_error =
    UnsupportedTransactionRead string
  | Engine txn_error
  | PlannerError plan_error
  | Int64SumOverflow string
  | TooManyVectorHits nat nat
  | NegativeVectorDistance nat
  | NonFiniteVectorDistance nat
  | NonMonotonicVectorDistances nat nat
  | UnexpectedHydration nat
  | MissingHydration nat
  | HydrationProjectionMismatch nat "string list" "string list"
  | GroupResultShape nat nat nat nat nat
  | NonScalarGroupResult nat
  | NullCountAggregate string
  | AggregateResultTypeMismatch string logical_type logical_type

datatype query_error = Validation query_validation_error | Execution query_execution_error

section \<open>Validation\<close>

definition validate_user_column_name :: "string \<Rightarrow> (query_error, unit) result" where
  "validate_user_column_name name =
     (if name = ROW_ID_COLUMN \<or> name = TIMESTAMP_COLUMN then Inl (Validation (ReservedColumn name)) else Inr ())"

text \<open>The loop of the schema constructor; \<open>names\<close> is its set of names seen so far.\<close>

fun schema_new_loop :: "string list \<Rightarrow> logical_column list \<Rightarrow> (query_error, unit) result" where
  "schema_new_loop names [] = Inr ()"
| "schema_new_loop names (c # cs) =
     bindE (validate_user_column_name (lc_name c)) (\<lambda>_.
       if lc_type c = TVector 0 then Inl (Validation (ZeroVectorDimensions (lc_name c)))
       else if lc_name c \<in> set names then Inl (Validation (DuplicateSchemaColumn (lc_name c)))
       else schema_new_loop (lc_name c # names) cs)"

definition dataset_schema_new :: "logical_column list \<Rightarrow> (query_error, dataset_schema) result" where
  "dataset_schema_new cs = bindE (schema_new_loop [] cs) (\<lambda>_. Inr \<lparr> schema_columns = cs \<rparr>)"

definition schema_column :: "dataset_schema \<Rightarrow> string \<Rightarrow> (query_error, logical_column) result" where
  "schema_column sch name =
     bindE (validate_user_column_name name) (\<lambda>_.
       case find (\<lambda>c. lc_name c = name) (schema_columns sch) of
         None \<Rightarrow> Inl (Validation (UnknownColumn name))
       | Some c \<Rightarrow> Inr c)"

fun projection_loop :: "dataset_schema \<Rightarrow> string list \<Rightarrow> string list \<Rightarrow> (query_error, unit) result" where
  "projection_loop sch seen [] = Inr ()"
| "projection_loop sch seen (c # cs) =
     bindE (schema_column sch c) (\<lambda>_.
       if c \<in> set seen then Inl (Validation (DuplicateProjection c)) else projection_loop sch (c # seen) cs)"

fun validate_projection :: "dataset_schema \<Rightarrow> projection \<Rightarrow> (query_error, string list) result" where
  "validate_projection sch AllColumns = Inr (map lc_name (schema_columns sch))"
| "validate_projection sch (Columns cs) = bindE (projection_loop sch [] cs) (\<lambda>_. Inr cs)"

definition validate_comparison :: "dataset_schema \<Rightarrow> comparison \<Rightarrow> (query_error, unit) result" where
  "validate_comparison sch c =
     bindE (schema_column sch (cmp_column c)) (\<lambda>field.
       if \<not> is_scalar (lc_type field) then Inl (Validation (NonScalarFilterColumn (cmp_column c)))
       else let actual = literal_type (cmp_literal c) in
       if lc_type field \<noteq> actual
       then Inl (Validation (FilterTypeMismatch (cmp_column c) (lc_type field) actual))
       else if lc_type field = TBoolean \<and> \<not> (cmp_operator c = CEqual \<or> cmp_operator c = CNotEqual)
       then Inl (Validation (InvalidComparisonOperator (cmp_column c) (cmp_operator c) (lc_type field)))
       else Inr ())"

fun validate_filter :: "dataset_schema \<Rightarrow> filter_expression \<Rightarrow> (query_error, unit) result" where
  "validate_filter sch (Compare c) = validate_comparison sch c"
| "validate_filter sch (FAnd l r) = bindE (validate_filter sch l) (\<lambda>_. validate_filter sch r)"
| "validate_filter sch (FOr l r) = bindE (validate_filter sch l) (\<lambda>_. validate_filter sch r)"
| "validate_filter sch (FNot e) = validate_filter sch e"

definition validate_optional_filter :: "dataset_schema \<Rightarrow> filter_expression option \<Rightarrow> (query_error, unit) result" where
  "validate_optional_filter sch f = (case f of None \<Rightarrow> Inr () | Some e \<Rightarrow> validate_filter sch e)"

definition validate_scan :: "dataset_schema \<Rightarrow> scan_request \<Rightarrow> (query_error, string list) result" where
  "validate_scan sch req =
     bindE (validate_projection sch (scan_projection req)) (\<lambda>projection.
       bindE (validate_optional_filter sch (scan_filter req)) (\<lambda>_. Inr projection))"

definition validate_row_lookup :: "dataset_schema \<Rightarrow> row_lookup_request \<Rightarrow> (query_error, string list) result" where
  "validate_row_lookup sch req = validate_projection sch (lookup_projection req)"

fun group_columns_loop :: "dataset_schema \<Rightarrow> string list \<Rightarrow> string list \<Rightarrow> (query_error, string list) result" where
  "group_columns_loop sch names [] = Inr names"
| "group_columns_loop sch names (c # cs) =
     bindE (schema_column sch c) (\<lambda>field.
       if \<not> is_scalar (lc_type field) then Inl (Validation (NonScalarGroupColumn c))
       else if c \<in> set names then Inl (Validation (DuplicateGroupColumn c))
       else group_columns_loop sch (c # names) cs)"

fun aggregates_loop ::
  "dataset_schema \<Rightarrow> string list \<Rightarrow> aggregate list \<Rightarrow> (query_error, aggregate_output list) result" where
  "aggregates_loop sch names [] = Inr []"
| "aggregates_loop sch names (a # as) =
     bindE (validate_user_column_name (agg_alias a)) (\<lambda>_.
       if agg_alias a \<in> set names then Inl (Validation (DuplicateAggregateAlias (agg_alias a)))
       else bindE (schema_column sch (agg_column a)) (\<lambda>input.
         case output_type (agg_function a) (lc_type input) of
           None \<Rightarrow> Inl (Validation (InvalidAggregateType (agg_column a) (agg_function a) (lc_type input)))
         | Some t \<Rightarrow>
             bindE (aggregates_loop sch (agg_alias a # names) as) (\<lambda>outs.
               Inr (\<lparr> ao_alias = agg_alias a, ao_type = t \<rparr> # outs))))"

definition validate_group_by :: "dataset_schema \<Rightarrow> group_by_request \<Rightarrow> (query_error, aggregate_output list) result" where
  "validate_group_by sch req =
     (if gb_columns req = [] then Inl (Validation EmptyGroupBy)
      else bindE (group_columns_loop sch [] (gb_columns req)) (\<lambda>names.
        bindE (validate_optional_filter sch (gb_filter req)) (\<lambda>_.
          aggregates_loop sch names (gb_aggregates req))))"

fun finite_components :: "nat \<Rightarrow> f32 list \<Rightarrow> (query_error, unit) result" where
  "finite_components i [] = Inr ()"
| "finite_components i (x # xs) =
     (if \<not> f32_is_finite x then Inl (Validation (NonFiniteQueryComponent i)) else finite_components (Suc i) xs)"

definition validate_vector_search ::
  "dataset_schema \<Rightarrow> vector_search_request \<Rightarrow> (query_error, string list option) result" where
  "validate_vector_search sch req =
     (if vs_k req = 0 then Inl (Validation InvalidVectorK)
      else if vs_column req \<noteq> ''vector'' then Inl (Validation (UnsupportedVectorColumn (vs_column req)))
      else bindE (schema_column sch (vs_column req)) (\<lambda>field.
        case lc_type field of
          TVector dimensions \<Rightarrow>
            bindE (finite_components 0 (vs_query req)) (\<lambda>_.
              if length (vs_query req) \<noteq> dimensions
              then Inl (Validation (VectorDimensionMismatch dimensions (length (vs_query req))))
              else bindE (validate_optional_filter sch (vs_filter req)) (\<lambda>_.
                case vs_hydration req of
                  HydrationNotRequested \<Rightarrow> Inr None
                | HydrationProjection p \<Rightarrow> bindE (validate_projection sch p) (\<lambda>cs. Inr (Some cs))))
        | t \<Rightarrow> Inl (Validation (NotVectorColumn (vs_column req) t))))"

section \<open>Checked results\<close>

fun result_names_loop :: "string list \<Rightarrow> string list \<Rightarrow> (query_error, string list) result" where
  "result_names_loop names [] = Inr names"
| "result_names_loop names (n # ns) =
     bindE (validate_user_column_name n) (\<lambda>_.
       if n \<in> set names then Inl (Validation (DuplicateGroupColumn n)) else result_names_loop (n # names) ns)"

fun result_aggregates_loop :: "string list \<Rightarrow> aggregate_output list \<Rightarrow> (query_error, unit) result" where
  "result_aggregates_loop names [] = Inr ()"
| "result_aggregates_loop names (a # as) =
     bindE (validate_user_column_name (ao_alias a)) (\<lambda>_.
       if ao_alias a \<in> set names then Inl (Validation (DuplicateAggregateAlias (ao_alias a)))
       else if ao_type a \<notin> {TInt64, TUInt64, TFloat64}
       then Inl (Validation (InvalidAggregateOutputType (ao_alias a) (ao_type a)))
       else result_aggregates_loop (ao_alias a # names) as)"

fun row_aggregates_loop :: "(aggregate_output \<times> result_value) list \<Rightarrow> (query_error, unit) result" where
  "row_aggregates_loop [] = Inr ()"
| "row_aggregates_loop ((out, v) # rest) =
     (if ao_type out = TUInt64 \<and> v = RNull then Inl (Execution (NullCountAggregate (ao_alias out)))
      else case result_type v of
        Some actual \<Rightarrow>
          if actual \<noteq> ao_type out
          then Inl (Execution (AggregateResultTypeMismatch (ao_alias out) (ao_type out) actual))
          else row_aggregates_loop rest
      | None \<Rightarrow> row_aggregates_loop rest)"

definition is_vector_value :: "result_value \<Rightarrow> bool" where
  "is_vector_value v = (case v of RVector _ \<Rightarrow> True | _ \<Rightarrow> False)"

fun result_rows_loop ::
  "string list \<Rightarrow> aggregate_output list \<Rightarrow> nat \<Rightarrow> grouped_row list \<Rightarrow> (query_error, unit) result" where
  "result_rows_loop cols outs i [] = Inr ()"
| "result_rows_loop cols outs i (r # rs) =
     (if length (gr_keys r) \<noteq> length cols \<or> length (gr_aggregates r) \<noteq> length outs
      then Inl (Execution (GroupResultShape i (length cols) (length (gr_keys r)) (length outs)
             (length (gr_aggregates r))))
      else if list_ex is_vector_value (gr_keys r) then Inl (Execution (NonScalarGroupResult i))
      else bindE (row_aggregates_loop (zip outs (gr_aggregates r))) (\<lambda>_. result_rows_loop cols outs (Suc i) rs))"

definition group_by_result_new ::
  "string list \<Rightarrow> aggregate_output list \<Rightarrow> grouped_row list \<Rightarrow> (query_error, group_by_result) result" where
  "group_by_result_new cols outs rows =
     bindE (result_names_loop [] cols) (\<lambda>names.
       bindE (result_aggregates_loop names outs) (\<lambda>_.
         bindE (result_rows_loop cols outs 0 rows) (\<lambda>_.
           Inr \<lparr> gbr_columns = cols, gbr_aggregates = outs, gbr_rows = rows \<rparr>)))"

definition check_hydration :: "string list option \<Rightarrow> vector_hit \<Rightarrow> (query_error, unit) result" where
  "check_hydration projection hit =
     (case (projection, hit_hydration hit) of
        (None, NotRequested) \<Rightarrow> Inr ()
      | (Some _, Unresolved _) \<Rightarrow> Inr ()
      | (None, _) \<Rightarrow> Inl (Execution (UnexpectedHydration (hit_row_id hit)))
      | (Some _, NotRequested) \<Rightarrow> Inl (Execution (MissingHydration (hit_row_id hit)))
      | (Some cols, Hydrated row) \<Rightarrow>
          if map fst row \<noteq> cols
          then Inl (Execution (HydrationProjectionMismatch (hit_row_id hit) cols (map fst row)))
          else Inr ())"

definition hit_before :: "nat \<times> f32 \<Rightarrow> nat \<times> f32 \<Rightarrow> bool" where
  "hit_before a b =
     (case f32_total_cmp (snd a) (snd b) of Less \<Rightarrow> True | Greater \<Rightarrow> False | Equal \<Rightarrow> fst a < fst b)"

fun hits_loop :: "string list option \<Rightarrow> (nat \<times> f32) option \<Rightarrow> vector_hit list \<Rightarrow> (query_error, unit) result" where
  "hits_loop projection previous [] = Inr ()"
| "hits_loop projection previous (h # hs) =
     (if \<not> f32_is_finite (hit_distance h) then Inl (Execution (NonFiniteVectorDistance (hit_row_id h)))
      else if f32_lt (hit_distance h) 0 then Inl (Execution (NegativeVectorDistance (hit_row_id h)))
      else case previous of
        Some p \<Rightarrow>
          if hit_before (hit_row_id h, hit_distance h) p
          then Inl (Execution (NonMonotonicVectorDistances (fst p) (hit_row_id h)))
          else bindE (check_hydration projection h) (\<lambda>_.
            hits_loop projection (Some (hit_row_id h, hit_distance h)) hs)
      | None \<Rightarrow> bindE (check_hydration projection h) (\<lambda>_.
            hits_loop projection (Some (hit_row_id h, hit_distance h)) hs))"

definition vector_search_result_new ::
  "nat \<Rightarrow> string list option \<Rightarrow> vector_hit list \<Rightarrow> (query_error, vector_search_result) result" where
  "vector_search_result_new k projection hits =
     (if length hits > k then Inl (Execution (TooManyVectorHits k (length hits)))
      else bindE (hits_loop projection None hits) (\<lambda>_.
        Inr \<lparr> vsr_requested_k = k, vsr_projection = projection, vsr_hits = hits \<rparr>))"

section \<open>What validation establishes\<close>

named_theorems accepts "when a validation step accepts"

lemma bindE_accepts [accepts]: "bindE m f = Inr y \<longleftrightarrow> (\<exists>x. m = Inr x \<and> f x = Inr y)"
  by (cases m) (auto simp: bindE_def)

definition user_name :: "string \<Rightarrow> bool" where
  "user_name n \<longleftrightarrow> n \<noteq> ROW_ID_COLUMN \<and> n \<noteq> TIMESTAMP_COLUMN"

lemma user_column_accepts [accepts]: "validate_user_column_name n = Inr u \<longleftrightarrow> user_name n"
  by (simp add: validate_user_column_name_def user_name_def)

lemma schema_new_loop_accepts [accepts]:
  "schema_new_loop names cs = Inr u \<longleftrightarrow>
     distinct (map lc_name cs) \<and> set (map lc_name cs) \<inter> set names = {} \<and>
     (\<forall>c\<in>set cs. user_name (lc_name c) \<and> lc_type c \<noteq> TVector 0)"
  by (induction cs arbitrary: names) (auto simp: accepts)

definition schema_ok :: "dataset_schema \<Rightarrow> bool" where
  "schema_ok sch \<longleftrightarrow> distinct (map lc_name (schema_columns sch)) \<and>
     (\<forall>c\<in>set (schema_columns sch). user_name (lc_name c) \<and> lc_type c \<noteq> TVector 0)"

lemma dataset_schema_new_accepts [accepts]:
  "dataset_schema_new cs = Inr sch \<longleftrightarrow> sch = \<lparr> schema_columns = cs \<rparr> \<and> schema_ok sch"
  by (auto simp: dataset_schema_new_def accepts schema_ok_def)

lemma schema_column_accepts [accepts]:
  "schema_column sch n = Inr c \<longleftrightarrow> user_name n \<and> find (\<lambda>c. lc_name c = n) (schema_columns sch) = Some c"
  by (auto simp: schema_column_def accepts split: option.splits)

lemma find_name: "find (\<lambda>c. lc_name c = n) cs = Some c \<Longrightarrow> c \<in> set cs \<and> lc_name c = n"
  by (induction cs) (auto split: if_splits)

lemma schema_columnE:
  assumes "schema_column sch n = Inr c"
  obtains "c \<in> set (schema_columns sch)" "lc_name c = n" "user_name n"
  using assms find_name by (auto simp: accepts)

lemma projection_loop_accepts [accepts]:
  "projection_loop sch seen cs = Inr u \<longleftrightarrow>
     distinct cs \<and> set cs \<inter> set seen = {} \<and> (\<forall>c\<in>set cs. \<exists>f. schema_column sch c = Inr f)"
  by (induction cs arbitrary: seen) (auto simp: bindE_accepts)

lemma finite_components_accepts [accepts]:
  "finite_components i xs = Inr u \<longleftrightarrow> list_all f32_is_finite xs"
  by (induction xs arbitrary: i) auto

lemma group_columns_loop_accepts [accepts]:
  "group_columns_loop sch names cs = Inr ns \<longleftrightarrow>
     ns = rev cs @ names \<and> distinct cs \<and> set cs \<inter> set names = {} \<and>
     (\<forall>c\<in>set cs. \<exists>f. schema_column sch c = Inr f \<and> is_scalar (lc_type f))"
  by (induction cs arbitrary: names) (auto simp: bindE_accepts)

lemma result_names_loop_accepts [accepts]:
  "result_names_loop names ns = Inr r \<longleftrightarrow>
     r = rev ns @ names \<and> distinct ns \<and> set ns \<inter> set names = {} \<and> (\<forall>n\<in>set ns. user_name n)"
  by (induction ns arbitrary: names) (auto simp: accepts)

lemma result_aggregates_loop_accepts [accepts]:
  "result_aggregates_loop names as = Inr u \<longleftrightarrow>
     distinct (map ao_alias as) \<and> set (map ao_alias as) \<inter> set names = {} \<and>
     (\<forall>a\<in>set as. user_name (ao_alias a) \<and> ao_type a \<in> {TInt64, TUInt64, TFloat64})"
  by (induction as arbitrary: names) (auto simp: accepts)

text \<open>A value fits an aggregate output when it has the output's type; a count is never null.\<close>

definition aggregate_fits :: "aggregate_output \<Rightarrow> result_value \<Rightarrow> bool" where
  "aggregate_fits out v \<longleftrightarrow>
     (if v = RNull then ao_type out \<noteq> TUInt64 else result_type v = Some (ao_type out))"

definition grouped_row_ok :: "string list \<Rightarrow> aggregate_output list \<Rightarrow> grouped_row \<Rightarrow> bool" where
  "grouped_row_ok cols outs r \<longleftrightarrow>
     length (gr_keys r) = length cols \<and> \<not> list_ex is_vector_value (gr_keys r) \<and>
     list_all2 aggregate_fits outs (gr_aggregates r)"

lemma row_aggregates_loop_accepts [accepts]:
  "row_aggregates_loop xs = Inr u \<longleftrightarrow> (\<forall>(out, v)\<in>set xs. aggregate_fits out v)"
proof (induction xs rule: row_aggregates_loop.induct)
  case (2 out v rest)
  then show ?case by (cases v) (auto simp: aggregate_fits_def)
qed simp

lemma result_rows_loop_accepts [accepts]:
  "result_rows_loop cols outs i rows = Inr u \<longleftrightarrow> (\<forall>r\<in>set rows. grouped_row_ok cols outs r)"
  by (induction rows arbitrary: i)
    (auto simp: accepts grouped_row_ok_def list_all2_iff split: prod.splits)

lemma output_type_numeric: "output_type f t = Some u \<Longrightarrow> u \<in> {TInt64, TUInt64, TFloat64}"
  by (cases f) (auto simp: is_numeric_def split: if_splits)

lemma aggregates_loop_accepts:
  "aggregates_loop sch names as = Inr outs \<Longrightarrow>
     map ao_alias outs = map agg_alias as \<and> distinct (map agg_alias as) \<and>
     set (map agg_alias as) \<inter> set names = {} \<and>
     (\<forall>out\<in>set outs. user_name (ao_alias out) \<and> ao_type out \<in> {TInt64, TUInt64, TFloat64})"
proof (induction as arbitrary: names outs)
  case (Cons a as)
  obtain t rest and c :: logical_column where "user_name (agg_alias a)" "agg_alias a \<notin> set names"
    "output_type (agg_function a) (lc_type c) = Some t"
    "aggregates_loop sch (agg_alias a # names) as = Inr rest" "outs = \<lparr> ao_alias = agg_alias a, ao_type = t \<rparr> # rest"
    using Cons.prems by (auto simp: bindE_accepts user_column_accepts split: if_splits option.splits)
  then show ?case using Cons.IH [of "agg_alias a # names" rest] output_type_numeric by fastforce
qed simp

text \<open>C20: A validated group-by request leaves the result constructor nothing to reject but a
  malformed row: with the request's key columns and the outputs its validation returned, the
  constructor succeeds exactly when every row has one scalar key per column and one fitting
  value per aggregate, and it then returns its arguments.\<close>

theorem group_by_result_accepts:
  assumes "validate_group_by sch req = Inr outs"
  shows "group_by_result_new (gb_columns req) outs rows = Inr r \<longleftrightarrow>
    r = \<lparr> gbr_columns = gb_columns req, gbr_aggregates = outs, gbr_rows = rows \<rparr> \<and>
    (\<forall>row\<in>set rows. grouped_row_ok (gb_columns req) outs row)"
proof -
  have cols: "distinct (gb_columns req)" "\<forall>c\<in>set (gb_columns req). user_name c"
    and agg: "aggregates_loop sch (rev (gb_columns req)) (gb_aggregates req) = Inr outs"
    using assms by (auto simp: validate_group_by_def accepts split: if_splits)
  have "result_names_loop [] (gb_columns req) = Inr (rev (gb_columns req))"
    using cols by (simp add: accepts)
  moreover have "result_aggregates_loop (rev (gb_columns req)) outs = Inr ()"
    unfolding result_aggregates_loop_accepts using aggregates_loop_accepts [OF agg] by simp
  ultimately show ?thesis
    by (auto simp: group_by_result_new_def bindE_accepts result_rows_loop_accepts)
qed

definition sample_schema :: dataset_schema where
  "sample_schema = \<lparr> schema_columns =
     [\<lparr> lc_name = ''city'', lc_type = TUtf8, lc_nullable = False \<rparr>,
      \<lparr> lc_name = ''n'', lc_type = TInt64, lc_nullable = True \<rparr>] \<rparr>"

definition sample_group :: group_by_request where
  "sample_group = \<lparr> gb_columns = [''city''],
     gb_aggregates = [\<lparr> agg_column = ''n'', agg_function = Count, agg_alias = ''c'' \<rparr>], gb_filter = None \<rparr>"

lemma sample_group_valid:
  "validate_group_by sample_schema sample_group = Inr [\<lparr> ao_alias = ''c'', ao_type = TUInt64 \<rparr>]"
  by (simp add: validate_group_by_def sample_group_def sample_schema_def bindE_def schema_column_def
      validate_user_column_name_def ROW_ID_COLUMN_def TIMESTAMP_COLUMN_def validate_optional_filter_def is_scalar_def)

theorem group_by_result_accepts_witness:
  "(\<exists>r. group_by_result_new (gb_columns sample_group) [\<lparr> ao_alias = ''c'', ao_type = TUInt64 \<rparr>]
     [\<lparr> gr_keys = [RUtf8 ''x''], gr_aggregates = [RUInt64 4] \<rparr>] = Inr r) \<and>
   (\<nexists>r. group_by_result_new (gb_columns sample_group) [\<lparr> ao_alias = ''c'', ao_type = TUInt64 \<rparr>]
     [\<lparr> gr_keys = [RUtf8 ''x''], gr_aggregates = [RNull] \<rparr>] = Inr r)"
  unfolding group_by_result_accepts [OF sample_group_valid]
  by (simp add: grouped_row_ok_def aggregate_fits_def is_vector_value_def sample_group_def)

subsection \<open>Vector results\<close>

abbreviation hit_key :: "vector_hit \<Rightarrow> nat \<times> f32" where
  "hit_key h \<equiv> (hit_row_id h, hit_distance h)"

definition hydration_ok :: "string list option \<Rightarrow> vector_hit \<Rightarrow> bool" where
  "hydration_ok projection h =
     (case projection of
        None \<Rightarrow> hit_hydration h = NotRequested
      | Some cols \<Rightarrow> (case hit_hydration h of NotRequested \<Rightarrow> False | Hydrated row \<Rightarrow> map fst row = cols | Unresolved _ \<Rightarrow> True))"

definition hit_ok :: "string list option \<Rightarrow> vector_hit \<Rightarrow> bool" where
  "hit_ok projection h \<longleftrightarrow> f32_is_finite (hit_distance h) \<and> \<not> f32_lt (hit_distance h) 0 \<and> hydration_ok projection h"

lemma check_hydration_accepts [accepts]: "check_hydration projection h = Inr u \<longleftrightarrow> hydration_ok projection h"
  by (auto simp: check_hydration_def hydration_ok_def split: option.splits vector_hydration_state.splits)

lemma hit_before_iff:
  "hit_before a b \<longleftrightarrow> f32_total (snd a) < f32_total (snd b) \<or> f32_total (snd a) = f32_total (snd b) \<and> fst a < fst b"
  by (auto simp: hit_before_def f32_total_cmp_def ord_of_def)

lemma hits_loop_accepts:
  "hits_loop projection previous hs = Inr u \<longleftrightarrow>
     (\<forall>h\<in>set hs. hit_ok projection h) \<and>
     sorted_wrt (\<lambda>a b. \<not> hit_before b a) (case previous of None \<Rightarrow> map hit_key hs | Some p \<Rightarrow> p # map hit_key hs)"
proof (induction projection previous hs rule: hits_loop.induct)
  case (2 projection previous h hs)
  have step: "hits_loop projection previous (h # hs) = Inr u \<longleftrightarrow>
      hit_ok projection h \<and> (case previous of None \<Rightarrow> True | Some p \<Rightarrow> \<not> hit_before (hit_key h) p) \<and>
      hits_loop projection (Some (hit_key h)) hs = Inr u"
    by (auto simp: hit_ok_def bindE_accepts check_hydration_accepts split: option.splits)
  have trans: "\<not> hit_before b a \<Longrightarrow> \<not> hit_before c b \<Longrightarrow> \<not> hit_before c a" for a b c
    by (auto simp: hit_before_iff)
  show ?case
  proof (cases "hit_ok projection h \<and> (case previous of None \<Rightarrow> True | Some p \<Rightarrow> \<not> hit_before (hit_key h) p)")
    case True
    have ih: "hits_loop projection (Some (hit_key h)) hs = Inr u \<longleftrightarrow>
       (\<forall>h\<in>set hs. hit_ok projection h) \<and> sorted_wrt (\<lambda>a b. \<not> hit_before b a) (hit_key h # map hit_key hs)"
      using 2 True by (auto simp: hit_ok_def accepts split: option.splits)
    show ?thesis unfolding step ih using True by (auto split: option.splits dest: trans [rotated])
  next
    case False
    then show ?thesis unfolding step by (auto split: option.splits)
  qed
qed (auto split: option.splits)



end
