(* ===== verification/QueryPredicate.thy ===== *)
theory QueryPredicate
  imports Stats
begin

text \<open>
  Row filtering and file pruning (\<open>crates/query/src/predicate.rs\<close>) and the structural
  identity key of a predicate (\<open>crates/query/src/predicate_key.rs\<close>).
\<close>

section \<open>Model\<close>

datatype predicate =
    Eq string val
  | Lt string val
  | LtEq string val
  | Gt string val
  | GtEq string val
  | And predicate predicate
  | Or predicate predicate

fun columns :: "predicate \<Rightarrow> string list" where
  "columns (And l r) = columns l @ columns r"
| "columns (Or l r) = columns l @ columns r"
| "columns (Eq c _) = [c]"
| "columns (Lt c _) = [c]"
| "columns (LtEq c _) = [c]"
| "columns (Gt c _) = [c]"
| "columns (GtEq c _) = [c]"

text \<open>The kernel a leaf is compared with and its literal; \<open>None\<close> is the unreachable arm.\<close>

fun leaf_parts :: "predicate \<Rightarrow> (cmp_op \<times> string \<times> val) option" where
  "leaf_parts (Eq c v) = Some (OpEq, c, v)"
| "leaf_parts (Lt c v) = Some (OpLt, c, v)"
| "leaf_parts (LtEq c v) = Some (OpLtEq, c, v)"
| "leaf_parts (Gt c v) = Some (OpGt, c, v)"
| "leaf_parts (GtEq c v) = Some (OpGtEq, c, v)"
| "leaf_parts _ = None"

definition compare :: "arrow_kernels \<Rightarrow> column \<Rightarrow> predicate \<Rightarrow> bool option list option" where
  "compare K col p =
     (case leaf_parts p of None \<Rightarrow> None | Some (oper, _, v) \<Rightarrow> k_compare K oper col v)"

definition leaf_mask :: "arrow_kernels \<Rightarrow> batch \<Rightarrow> string \<Rightarrow> predicate \<Rightarrow> bool option list option" where
  "leaf_mask K b c p = (case map_of b c of None \<Rightarrow> None | Some col \<Rightarrow> compare K col p)"

fun mask :: "arrow_kernels \<Rightarrow> batch \<Rightarrow> predicate \<Rightarrow> bool option list option" where
  "mask K b (And l r) =
     (case mask K b l of None \<Rightarrow> None
      | Some x \<Rightarrow> (case mask K b r of None \<Rightarrow> None | Some y \<Rightarrow> Some (k_and_kleene K x y)))"
| "mask K b (Or l r) =
     (case mask K b l of None \<Rightarrow> None
      | Some x \<Rightarrow> (case mask K b r of None \<Rightarrow> None | Some y \<Rightarrow> Some (k_or_kleene K x y)))"
| "mask K b (Eq c v) = leaf_mask K b c (Eq c v)"
| "mask K b (Lt c v) = leaf_mask K b c (Lt c v)"
| "mask K b (LtEq c v) = leaf_mask K b c (LtEq c v)"
| "mask K b (Gt c v) = leaf_mask K b c (Gt c v)"
| "mask K b (GtEq c v) = leaf_mask K b c (GtEq c v)"

text \<open>The pruning decision of a leaf: \<open>test\<close> is the comparison of its arm.\<close>

definition leaf_scan :: "stats \<Rightarrow> string \<Rightarrow> val \<Rightarrow> (column_stats \<Rightarrow> bool) \<Rightarrow> bool" where
  "leaf_scan st c v test =
     (case st c of
        None \<Rightarrow> True
      | Some e \<Rightarrow>
          if val_discriminant v \<noteq> val_discriminant (min_v e) \<or>
             val_discriminant v \<noteq> val_discriminant (max_v e)
          then True else test e)"

fun should_scan_file :: "stats \<Rightarrow> predicate \<Rightarrow> bool" where
  "should_scan_file st (And l r) \<longleftrightarrow> should_scan_file st l \<and> should_scan_file st r"
| "should_scan_file st (Or l r) \<longleftrightarrow> should_scan_file st l \<or> should_scan_file st r"
| "should_scan_file st (Eq c v) = leaf_scan st c v (\<lambda>e. val_ge v (min_v e) \<and> val_le v (max_v e))"
| "should_scan_file st (Lt c v) = leaf_scan st c v (\<lambda>e. val_gt v (min_v e))"
| "should_scan_file st (LtEq c v) = leaf_scan st c v (\<lambda>e. val_ge v (min_v e))"
| "should_scan_file st (Gt c v) = leaf_scan st c v (\<lambda>e. val_lt v (max_v e))"
| "should_scan_file st (GtEq c v) = leaf_scan st c v (\<lambda>e. val_le v (max_v e))"

section \<open>Identity keys\<close>

datatype key_value = KInt int | KFloat "64 word" | KStr string

fun key_value_of :: "val \<Rightarrow> key_value" where
  "key_value_of (Int64 v) = KInt v"
| "key_value_of (Float64 v) = KFloat v"
| "key_value_of (Utf8 v) = KStr v"

definition NODE_OVERHEAD_BYTES :: nat where
  "NODE_OVERHEAD_BYTES = 128"

datatype pred_node = PLeaf nat string key_value | PAnd pred_node pred_node | POr pred_node pred_node

fun predicate_key :: "predicate \<Rightarrow> pred_node" where
  "predicate_key (Eq c v) = PLeaf 0 c (key_value_of v)"
| "predicate_key (Lt c v) = PLeaf 1 c (key_value_of v)"
| "predicate_key (LtEq c v) = PLeaf 2 c (key_value_of v)"
| "predicate_key (Gt c v) = PLeaf 3 c (key_value_of v)"
| "predicate_key (GtEq c v) = PLeaf 4 c (key_value_of v)"
| "predicate_key (And l r) = PAnd (predicate_key l) (predicate_key r)"
| "predicate_key (Or l r) = POr (predicate_key l) (predicate_key r)"

fun variable_byte_size :: "pred_node \<Rightarrow> nat" where
  "variable_byte_size (PLeaf _ c v) = length c + (case v of KStr s \<Rightarrow> length s | _ \<Rightarrow> 0)"
| "variable_byte_size (PAnd l r) = NODE_OVERHEAD_BYTES + variable_byte_size l + variable_byte_size r"
| "variable_byte_size (POr l r) = NODE_OVERHEAD_BYTES + variable_byte_size l + variable_byte_size r"

section \<open>Leaf comparisons\<close>

text \<open>Whether a column's statistics let a leaf match, by kind of comparison.\<close>

definition op_scan :: "cmp_op \<Rightarrow> val \<Rightarrow> column_stats \<Rightarrow> bool" where
  "op_scan oper v e =
     (case oper of
        OpEq \<Rightarrow> val_ge v (min_v e) \<and> val_le v (max_v e)
      | OpLt \<Rightarrow> val_gt v (min_v e)
      | OpLtEq \<Rightarrow> val_ge v (min_v e)
      | OpGt \<Rightarrow> val_lt v (max_v e)
      | OpGtEq \<Rightarrow> val_le v (max_v e))"

lemma should_scan_leaf:
  "leaf_parts p = Some (oper, c, v) \<Longrightarrow> should_scan_file st p = leaf_scan st c v (op_scan oper v)"
  by (cases p) (auto simp: op_scan_def leaf_scan_def split: option.splits)

lemma mask_leaf:
  "leaf_parts p = Some (oper, c, v) \<Longrightarrow>
   mask K b p = (case map_of b c of None \<Rightarrow> None | Some col \<Rightarrow> k_compare K oper col v)"
  by (cases p) (auto simp: leaf_mask_def compare_def split: option.splits)

lemma val_order_simps [simp]:
  "val_lt (Int64 a) (Int64 b) \<longleftrightarrow> a < b" "val_le (Int64 a) (Int64 b) \<longleftrightarrow> a \<le> b"
  "val_gt (Int64 a) (Int64 b) \<longleftrightarrow> b < a" "val_ge (Int64 a) (Int64 b) \<longleftrightarrow> b \<le> a"
  "val_lt (Utf8 s) (Utf8 t) \<longleftrightarrow> s < t" "val_le (Utf8 s) (Utf8 t) \<longleftrightarrow> s \<le> t"
  "val_gt (Utf8 s) (Utf8 t) \<longleftrightarrow> t < s" "val_ge (Utf8 s) (Utf8 t) \<longleftrightarrow> t \<le> s"
  by (auto simp: val_lt_def val_le_def val_gt_def val_ge_def order.order_iff_strict)

lemma val_order_float [simp]:
  "val_lt (Float64 x) (Float64 y) \<longleftrightarrow> \<not> f64_is_nan x \<and> \<not> f64_is_nan y \<and> f64_key x < f64_key y"
  "val_le (Float64 x) (Float64 y) \<longleftrightarrow> \<not> f64_is_nan x \<and> \<not> f64_is_nan y \<and> f64_key x \<le> f64_key y"
  "val_gt (Float64 x) (Float64 y) \<longleftrightarrow> \<not> f64_is_nan x \<and> \<not> f64_is_nan y \<and> f64_key y < f64_key x"
  "val_ge (Float64 x) (Float64 y) \<longleftrightarrow> \<not> f64_is_nan x \<and> \<not> f64_is_nan y \<and> f64_key y \<le> f64_key x"
  by (auto simp: val_lt_def val_le_def val_gt_def val_ge_def f64_partial_cmp_iff)

text \<open>A value that satisfies a comparison keeps the file in the scan: for ordered values,
  and for floats that are compared as IEEE does.\<close>

lemma int_leaf_scan:
  "bounds_ok e (Int64Col xs) \<Longrightarrow> Some x \<in> set xs \<Longrightarrow> cmp_holds oper (ord_of x v) \<Longrightarrow> op_scan oper (Int64 v) e"
  by (cases oper) (auto simp: bounds_ok_def cmp_holds_def op_scan_def ord_of_def split: if_splits)

lemma utf8_leaf_scan:
  "bounds_ok e (Utf8Col xs) \<Longrightarrow> Some x \<in> set xs \<Longrightarrow> cmp_holds oper (ord_of x v) \<Longrightarrow> op_scan oper (Utf8 v) e"
  by (cases oper) (auto simp: bounds_ok_def cmp_holds_def op_scan_def ord_of_def split: if_splits)

lemma float_leaf_scan:
  assumes "bounds_ok e (Float64Col xs)" "Some x \<in> set (valid_f64 xs)" "\<not> f64_is_nan x" "\<not> f64_is_nan v"
    and "cmp_holds oper (ord_of (f64_key x) (f64_key v))"
  shows "op_scan oper (Float64 v) e"
proof -
  obtain a b where e: "min_v e = Float64 a" "max_v e = Float64 b" "\<not> f64_is_nan a" "\<not> f64_is_nan b"
    and ab: "f64_key a \<le> f64_key x" "f64_key x \<le> f64_key b"
    using assms(1-3) by (auto simp: bounds_ok_def)
  show ?thesis
    using assms(4,5) e ab
    by (cases oper) (auto simp: cmp_holds_def op_scan_def ord_of_def split: if_splits)
qed

section \<open>Total order and IEEE order\<close>

text \<open>Away from NaN, and against a literal that is not a zero, the kernels' total order and
  the language's order agree.\<close>

lemma total_cmp_agrees:
  assumes "f64_key v \<noteq> 0"
  shows "f64_total_cmp x v = ord_of (f64_key x) (f64_key v)"
  using assms by (auto simp: f64_total_cmp_def f64_total_def f64_key_def ord_of_def split: if_splits)

text \<open>The predicates for which pruning and the comparison kernels agree on floats: no literal
  is a NaN or a zero, and no column compared with a float holds a NaN.\<close>

definition float_safe_leaf :: "batch \<Rightarrow> string \<Rightarrow> val \<Rightarrow> bool" where
  "float_safe_leaf b c v =
     (case v of
        Float64 f \<Rightarrow> \<not> f64_is_nan f \<and> f64_key f \<noteq> 0 \<and>
          (case map_of b c of
             Some (Float64Col xs) \<Rightarrow> list_all (\<lambda>x. case x of Some y \<Rightarrow> \<not> f64_is_nan y | None \<Rightarrow> True) (valid_f64 xs)
           | _ \<Rightarrow> True)
      | _ \<Rightarrow> True)"

fun float_safe :: "batch \<Rightarrow> predicate \<Rightarrow> bool" where
  "float_safe b (And l r) \<longleftrightarrow> float_safe b l \<and> float_safe b r"
| "float_safe b (Or l r) \<longleftrightarrow> float_safe b l \<and> float_safe b r"
| "float_safe b (Eq c v) = float_safe_leaf b c v"
| "float_safe b (Lt c v) = float_safe_leaf b c v"
| "float_safe b (LtEq c v) = float_safe_leaf b c v"
| "float_safe b (Gt c v) = float_safe_leaf b c v"
| "float_safe b (GtEq c v) = float_safe_leaf b c v"

lemma float_safe_leaf_parts:
  "leaf_parts p = Some (oper, c, v) \<Longrightarrow> float_safe b p = float_safe_leaf b c v"
  by (cases p) auto

definition equal_lengths :: "batch \<Rightarrow> nat \<Rightarrow> bool" where
  "equal_lengths b n \<longleftrightarrow>
     (\<forall>(_, c)\<in>set b. case c of
        Int64Col xs \<Rightarrow> length xs = n | Float64Col xs \<Rightarrow> length xs = n | Utf8Col xs \<Rightarrow> length xs = n
      | BooleanCol xs \<Rightarrow> length xs = n | UInt64Col xs \<Rightarrow> length xs = n
      | VectorCol _ xs \<Rightarrow> length xs = n | OtherCol k \<Rightarrow> k = n)"

lemma kernel_compare_length:
  "equal_lengths b n \<Longrightarrow> map_of b c = Some col \<Longrightarrow> kernel_compare oper col v = Some ms \<Longrightarrow> length ms = n"
  by (cases "(oper, col, v)" rule: kernel_compare.cases)
    (auto simp: equal_lengths_def valid_f64_def dest!: map_of_SomeD)

lemma leaf_casesE:
  assumes "\<And>l r. p = And l r \<Longrightarrow> thesis" "\<And>l r. p = Or l r \<Longrightarrow> thesis"
    "\<And>oper c v. leaf_parts p = Some (oper, c, v) \<Longrightarrow> thesis"
  shows thesis
  using assms by (cases p) auto

lemma mask_length:
  assumes "arrow_spec K" "equal_lengths b n"
  shows "mask K b p = Some ms \<Longrightarrow> length ms = n"
proof (induction p arbitrary: ms)
  case (And l r)
  then show ?case using arrow_specD(8) [OF assms(1)] by (auto split: option.splits)
next
  case (Or l r)
  then show ?case using arrow_specD(9) [OF assms(1)] by (auto split: option.splits)
qed (auto simp: leaf_mask_def compare_def arrow_specD(7) [OF assms(1)] kernel_compare_length [OF assms(2)]
    split: option.splits)

lemma leaf_row_scan:
  assumes K: "arrow_spec K" and st: "stats_ok st b" and p: "leaf_parts p = Some (oper, c, v)"
    and safe: "float_safe_leaf b c v" and m: "mask K b p = Some ms" "i < length ms" "ms ! i = Some True"
  shows "should_scan_file st p"
proof -
  obtain col where col: "map_of b c = Some col" "kernel_compare oper col v = Some ms"
    using m(1) by (auto simp: mask_leaf [OF p] arrow_specD(7) [OF K] split: option.splits)
  have "op_scan oper v e" if e: "st c = Some e" for e
  proof -
    have ok: "bounds_ok e col" using st e col(1) by (auto simp: stats_ok_def)
    show ?thesis
    proof (cases "(oper, col, v)" rule: kernel_compare.cases)
      case (1 oper' xs w)
      then obtain x where "xs ! i = Some x" "cmp_holds oper (ord_of x w)" "i < length xs"
        using col(2) m(2,3) by (auto simp: map_option_case split: option.splits)
      then show ?thesis using 1 int_leaf_scan ok by (metis Pair_inject nth_mem)
    next
      case (2 oper' xs w)
      then obtain x where x: "valid_f64 xs ! i = Some x" "cmp_holds oper (f64_total_cmp x w)"
          "i < length (valid_f64 xs)"
        using col(2) m(2,3) by (auto simp: map_option_case split: option.splits)
      have s: "\<not> f64_is_nan w" "f64_key w \<noteq> 0" "\<not> f64_is_nan x"
        using safe 2 col(1) x nth_mem [OF x(3)] by (auto simp: float_safe_leaf_def list_all_iff)
      have "cmp_holds oper (ord_of (f64_key x) (f64_key w))" using x(2) total_cmp_agrees [OF s(2)] by simp
      moreover have "Some x \<in> set (valid_f64 xs)" using x nth_mem by metis
      ultimately show ?thesis using 2 float_leaf_scan [of e xs x w oper] ok s by simp
    next
      case (3 oper' xs w)
      then obtain x where "xs ! i = Some x" "cmp_holds oper (ord_of x w)" "i < length xs"
        using col(2) m(2,3) by (auto simp: map_option_case split: option.splits)
      then show ?thesis using 3 utf8_leaf_scan ok by (metis Pair_inject nth_mem)
    qed (use col(2) in auto)
  qed
  then show ?thesis by (auto simp: should_scan_leaf [OF p] leaf_scan_def split: option.splits)
qed

lemma mask_row_scan:
  assumes K: "arrow_spec K" and st: "stats_ok st b" and len: "equal_lengths b n"
  shows "float_safe b p \<Longrightarrow> mask K b p = Some ms \<Longrightarrow> i < n \<Longrightarrow> ms ! i = Some True \<Longrightarrow>
    should_scan_file st p"
proof (induction p arbitrary: ms)
  case (And l r)
  then obtain x y where xy: "mask K b l = Some x" "mask K b r = Some y" "ms = k_and_kleene K x y"
    by (auto split: option.splits)
  have ls: "length x = n" "length y = n" using xy mask_length [OF K len] by auto
  then have "ms ! i = kleene_and (x ! i) (y ! i)" using xy(3) arrow_specD(8) [OF K, of x y] And.prems(3) by simp
  then show ?case using And xy by (simp add: kleene_and_True)
next
  case (Or l r)
  then obtain x y where xy: "mask K b l = Some x" "mask K b r = Some y" "ms = k_or_kleene K x y"
    by (auto split: option.splits)
  have ls: "length x = n" "length y = n" using xy mask_length [OF K len] by auto
  then have "ms ! i = kleene_or (x ! i) (y ! i)" using xy(3) arrow_specD(9) [OF K, of x y] Or.prems(3) by simp
  then show ?case using Or xy by (auto simp: kleene_or_True)
qed (rule leaf_row_scan [OF K st], simp, simp, assumption, use mask_length [OF K len] in blast, assumption)+

section \<open>Reference kernels\<close>

text \<open>Concrete kernels with the documented behaviour, which show that it can be met.\<close>

definition pick_least :: "('a \<Rightarrow> 'a \<Rightarrow> bool) \<Rightarrow> 'a option list \<Rightarrow> 'a option" where
  "pick_least le xs =
     foldl (\<lambda>acc x. case acc of None \<Rightarrow> x | Some m \<Rightarrow> (case x of None \<Rightarrow> acc | Some y \<Rightarrow> if le m y then acc else x))
       None xs"

definition reference_kernels :: arrow_kernels where
  "reference_kernels =
     \<lparr> k_min_i64 = pick_least (\<le>), k_max_i64 = pick_least (\<ge>),
       k_min_f64 = pick_least f64_nan_high_le, k_max_f64 = pick_least (\<lambda>a b. f64_nan_high_le b a),
       k_min_utf8 = pick_least (\<le>), k_max_utf8 = pick_least (\<ge>),
       k_compare = kernel_compare, k_and_kleene = map2 kleene_and, k_or_kleene = map2 kleene_or \<rparr>"

lemma pick_least_correct:
  assumes total: "\<And>a b. le a b \<or> le b a" and trans: "\<And>a b c. le a b \<Longrightarrow> le b c \<Longrightarrow> le a c"
  shows "is_least le xs (pick_least le xs)"
proof (induction xs rule: rev_induct)
  case Nil
  then show ?case by (simp add: pick_least_def is_least_def)
next
  case (snoc x xs)
  have step: "pick_least le (xs @ [x]) =
    (case pick_least le xs of None \<Rightarrow> x
     | Some m \<Rightarrow> (case x of None \<Rightarrow> Some m | Some y \<Rightarrow> if le m y then Some m else x))"
    by (auto simp: pick_least_def split: option.splits)
  have refl: "le a a" for a using total by blast
  have under: "\<not> le a b \<Longrightarrow> le a c \<Longrightarrow> le b c" for a b c using total [of a b] trans [of b a c] by blast
  show ?case
    using snoc unfolding step
    by (cases "pick_least le xs"; cases x) (auto simp: is_least_def refl intro: under)
qed

lemma reference_kernels_spec: "arrow_spec reference_kernels"
proof -
  have f: "f64_nan_high_le a b \<or> f64_nan_high_le b a"
    "f64_nan_high_le a b \<Longrightarrow> f64_nan_high_le b c \<Longrightarrow> f64_nan_high_le a c" for a b c
    by (auto simp: f64_nan_high_le_def)
  have i: "is_least (\<le>) xs (pick_least (\<le>) xs)" "is_least (\<ge>) xs (pick_least (\<ge>) xs)" for xs :: "int option list"
    by (rule pick_least_correct; auto)+
  have u: "is_least (\<le>) xs (pick_least (\<le>) xs)" "is_least (\<ge>) xs (pick_least (\<ge>) xs)" for xs :: "string option list"
    by (rule pick_least_correct; auto)+
  have g: "is_least f64_nan_high_le xs (pick_least f64_nan_high_le xs)" for xs
    by (rule pick_least_correct) (fact f)+
  have h: "is_least (\<lambda>a b. f64_nan_high_le b a) xs (pick_least (\<lambda>a b. f64_nan_high_le b a) xs)" for xs
    by (rule pick_least_correct) (use f in blast)+
  show ?thesis by (simp add: arrow_spec_def reference_kernels_def i u g h)
qed

section \<open>Properties\<close>


definition sample_batch :: batch where
  "sample_batch = [(''a'', Int64Col [Some 3, None, Some 7]), (''b'', Utf8Col [Some ''k'', Some ''m'', None])]"


text \<open>The column of the next property: the numbers 1.0 and NaN, compared with 5.0.\<close>

definition nan_batch :: batch where
  "nan_batch = [(''x'', Float64Col [(True, 0x3FF0000000000000), (True, 0x7FF8000000000000)])]"

definition above_five :: predicate where
  "above_five = Gt ''x'' (Float64 0x4014000000000000)"

lemma nan_batch_stats:
  assumes "arrow_spec K"
  shows "column_entry K (Float64Col [(True, 0x3FF0000000000000), (True, 0x7FF8000000000000)]) =
    Some \<lparr> min_v = Float64 0x3FF0000000000000, max_v = Float64 0x3FF0000000000000 \<rparr>"
proof -
  let ?xs = "[Some 0x3FF0000000000000, Some 0x7FF8000000000000] :: f64 option list"
  have nan: "f64_is_nan 0x7FF8000000000000" "\<not> f64_is_nan 0x3FF0000000000000"
    by (simp_all add: f64_is_nan_def f64_mag_def)
  have v: "valid_f64 [(True, 0x3FF0000000000000), (True, 0x7FF8000000000000)] = ?xs"
    by (simp add: valid_f64_def)
  have least: "is_least (\<lambda>a b. f64_nan_high_le b a) ?xs (k_max_f64 K ?xs)"
    using assms arrow_specD(4) by blast
  then obtain m where m: "k_max_f64 K ?xs = Some m" "f64_nan_high_le 0x7FF8000000000000 m"
    by (cases "k_max_f64 K ?xs") (auto simp: is_least_def)
  then have "f64_is_nan m" using nan by (simp add: f64_nan_high_le_def)
  then show ?thesis using m(1) nan
    by (simp add: v float64_bounds_ignoring_nan_def bound_step_def)
qed



lemma key_value_of_inj: "key_value_of v = key_value_of w \<longleftrightarrow> v = w"
  by (cases v; cases w) auto

text \<open>C29: Predicates with equal identity keys are equal, raw float bits included, so a cache
  keyed by them never confuses two predicates.\<close>

theorem predicate_key_injective: "predicate_key p = predicate_key q \<longleftrightarrow> p = q"
proof (induction p arbitrary: q)
  case (And l r)
  then show ?case by (cases q) auto
next
  case (Or l r)
  then show ?case by (cases q) auto
qed (case_tac [!] q, auto simp: key_value_of_inj)

end
