(* ===== verification/RowFilter.thy ===== *)
theory RowFilter
  imports Query QueryPredicate
begin

text \<open>
  Filter evaluation of the snapshot reader (\<open>crates/txn/src/snapshot.rs\<close>): the row mask
  of a filter expression, the predicate it is pruned with, the columns it reads, the projection
  of rows into result values, and the cache key of a filter (\<open>crates/txn/src/filter_key.rs\<close>).
\<close>

section \<open>Masks\<close>

text \<open>Rust's comparison operators through \<open>partial_cmp\<close>.\<close>

definition operator_holds :: "comparison_operator \<Rightarrow> ordering option \<Rightarrow> bool" where
  "operator_holds oper r =
     (case oper of
        CEqual \<Rightarrow> r = Some Equal
      | CNotEqual \<Rightarrow> r \<noteq> Some Equal
      | CLessThan \<Rightarrow> r = Some Less
      | CLessThanOrEqual \<Rightarrow> r = Some Less \<or> r = Some Equal
      | CGreaterThan \<Rightarrow> r = Some Greater
      | CGreaterThanOrEqual \<Rightarrow> r = Some Greater \<or> r = Some Equal)"

definition comparison_mask_for ::
  "('a \<Rightarrow> 'a \<Rightarrow> ordering option) \<Rightarrow> 'a option list \<Rightarrow> 'a \<Rightarrow> comparison_operator \<Rightarrow> bool option list" where
  "comparison_mask_for partial_cmp xs v oper =
     map (\<lambda>x. case x of None \<Rightarrow> None | Some actual \<Rightarrow> Some (operator_holds oper (partial_cmp actual v))) xs"

definition total_partial :: "'a :: linorder \<Rightarrow> 'a \<Rightarrow> ordering option" where
  "total_partial a b = Some (ord_of a b)"

definition comparison_mask :: "batch \<Rightarrow> comparison \<Rightarrow> (txn_error, bool option list) result" where
  "comparison_mask b c =
     (case map_of b (cmp_column c) of
        None \<Rightarrow> Inl TxnArrow
      | Some array \<Rightarrow>
          (case cmp_literal c of
             LBoolean v \<Rightarrow> (case array of
                 BooleanCol xs \<Rightarrow> Inr (comparison_mask_for total_partial xs v (cmp_operator c)) | _ \<Rightarrow> Inl TxnArrow)
           | LInt64 v \<Rightarrow> (case array of
                 Int64Col xs \<Rightarrow> Inr (comparison_mask_for total_partial xs v (cmp_operator c)) | _ \<Rightarrow> Inl TxnArrow)
           | LUInt64 v \<Rightarrow> (case array of
                 UInt64Col xs \<Rightarrow> Inr (comparison_mask_for total_partial xs v (cmp_operator c)) | _ \<Rightarrow> Inl TxnArrow)
           | LFloat64 v \<Rightarrow> (case array of
                 Float64Col xs \<Rightarrow> Inr (comparison_mask_for f64_partial_cmp (valid_f64 xs) v (cmp_operator c))
               | _ \<Rightarrow> Inl TxnArrow)
           | LUtf8 v \<Rightarrow> (case array of
                 Utf8Col xs \<Rightarrow> Inr (comparison_mask_for total_partial xs v (cmp_operator c)) | _ \<Rightarrow> Inl TxnArrow)))"

definition and_slot :: "bool option \<Rightarrow> bool option \<Rightarrow> bool option" where
  "and_slot l r =
     (if l = Some False \<or> r = Some False then Some False
      else if l = Some True \<and> r = Some True then Some True else None)"

definition or_slot :: "bool option \<Rightarrow> bool option \<Rightarrow> bool option" where
  "or_slot l r =
     (if l = Some True \<or> r = Some True then Some True
      else if l = Some False \<and> r = Some False then Some False else None)"

fun filter_mask :: "batch \<Rightarrow> filter_expression \<Rightarrow> (txn_error, bool option list) result" where
  "filter_mask b (Compare c) = comparison_mask b c"
| "filter_mask b (FAnd l r) =
     bindE (filter_mask b l) (\<lambda>x. bindE (filter_mask b r) (\<lambda>y. Inr (map2 and_slot x y)))"
| "filter_mask b (FOr l r) =
     bindE (filter_mask b l) (\<lambda>x. bindE (filter_mask b r) (\<lambda>y. Inr (map2 or_slot x y)))"
| "filter_mask b (FNot e) = bindE (filter_mask b e) (\<lambda>x. Inr (map (map_option Not) x))"

definition push_unique_column :: "string list \<Rightarrow> string \<Rightarrow> string list" where
  "push_unique_column cols c = (if c \<in> set cols then cols else cols @ [c])"

fun filter_columns :: "filter_expression \<Rightarrow> string list \<Rightarrow> string list" where
  "filter_columns (Compare c) cols = push_unique_column cols (cmp_column c)"
| "filter_columns (FAnd l r) cols = filter_columns r (filter_columns l cols)"
| "filter_columns (FOr l r) cols = filter_columns r (filter_columns l cols)"
| "filter_columns (FNot e) cols = filter_columns e cols"

section \<open>Pruning\<close>

fun pruning_value :: "filter_literal \<Rightarrow> val option" where
  "pruning_value (LInt64 v) = Some (Int64 v)"
| "pruning_value (LFloat64 v) = Some (Float64 v)"
| "pruning_value (LUtf8 v) = Some (Utf8 v)"
| "pruning_value (LBoolean _) = None"
| "pruning_value (LUInt64 _) = None"

fun pruning_leaf :: "comparison_operator \<Rightarrow> string \<Rightarrow> val \<Rightarrow> predicate option" where
  "pruning_leaf CEqual c v = Some (Eq c v)"
| "pruning_leaf CLessThan c v = Some (Lt c v)"
| "pruning_leaf CLessThanOrEqual c v = Some (LtEq c v)"
| "pruning_leaf CGreaterThan c v = Some (Gt c v)"
| "pruning_leaf CGreaterThanOrEqual c v = Some (GtEq c v)"
| "pruning_leaf CNotEqual c v = None"

fun filter_expression_pruning_predicate :: "filter_expression \<Rightarrow> predicate option" where
  "filter_expression_pruning_predicate (Compare c) =
     (case pruning_value (cmp_literal c) of
        None \<Rightarrow> None
      | Some v \<Rightarrow> pruning_leaf (cmp_operator c) (cmp_column c) v)"
| "filter_expression_pruning_predicate (FAnd l r) =
     (case filter_expression_pruning_predicate l of None \<Rightarrow> None
      | Some p \<Rightarrow> (case filter_expression_pruning_predicate r of None \<Rightarrow> None | Some q \<Rightarrow> Some (And p q)))"
| "filter_expression_pruning_predicate (FOr l r) =
     (case filter_expression_pruning_predicate l of None \<Rightarrow> None
      | Some p \<Rightarrow> (case filter_expression_pruning_predicate r of None \<Rightarrow> None | Some q \<Rightarrow> Some (Or p q)))"
| "filter_expression_pruning_predicate (FNot _) = None"

text \<open>The cached payload of a file is either its statistics or something of another type.\<close>

definition zone_map_permits_scan :: "stats option \<Rightarrow> predicate \<Rightarrow> bool" where
  "zone_map_permits_scan zone_map p = (case zone_map of Some st \<Rightarrow> should_scan_file st p | None \<Rightarrow> True)"

section \<open>Projection\<close>

definition result_value :: "column \<Rightarrow> nat \<Rightarrow> (txn_error, result_value) result" where
  "result_value array row =
     (case array of
        BooleanCol xs \<Rightarrow> Inr (case xs ! row of None \<Rightarrow> RNull | Some v \<Rightarrow> RBoolean v)
      | Int64Col xs \<Rightarrow> Inr (case xs ! row of None \<Rightarrow> RNull | Some v \<Rightarrow> RInt64 v)
      | UInt64Col xs \<Rightarrow> Inr (case xs ! row of None \<Rightarrow> RNull | Some v \<Rightarrow> RUInt64 v)
      | Float64Col xs \<Rightarrow> Inr (case valid_f64 xs ! row of None \<Rightarrow> RNull | Some v \<Rightarrow> RFloat64 v)
      | Utf8Col xs \<Rightarrow> Inr (case xs ! row of None \<Rightarrow> RNull | Some v \<Rightarrow> RUtf8 v)
      | VectorCol nullable_child xs \<Rightarrow>
          if nullable_child then Inl TxnArrow
          else Inr (case xs ! row of None \<Rightarrow> RNull | Some v \<Rightarrow> RVector v)
      | OtherCol _ \<Rightarrow> Inl TxnArrow)"

fun projected_row :: "batch \<Rightarrow> nat \<Rightarrow> string list \<Rightarrow> (txn_error, projected_row) result" where
  "projected_row b row [] = Inr []"
| "projected_row b row (name # names) =
     (case map_of b name of
        None \<Rightarrow> Inl TxnArrow
      | Some array \<Rightarrow>
          bindE (result_value array row) (\<lambda>v.
            bindE (projected_row b row names) (\<lambda>fields. Inr ((name, v) # fields))))"

fun collect_results :: "('e, 'a) result list \<Rightarrow> ('e, 'a list) result" where
  "collect_results [] = Inr []"
| "collect_results (r # rs) = bindE r (\<lambda>x. bindE (collect_results rs) (\<lambda>xs. Inr (x # xs)))"

definition projected_rows :: "batch \<Rightarrow> nat \<Rightarrow> string list \<Rightarrow> (txn_error, projected_row list) result" where
  "projected_rows b num_rows projection =
     collect_results (map (\<lambda>row. projected_row b row projection) [0..<num_rows])"

section \<open>Identity keys\<close>

datatype key_literal = KLBoolean bool | KLInt64 int | KLUInt64 nat | KLFloat64 "64 word" | KLUtf8 string

fun key_literal_of :: "filter_literal \<Rightarrow> key_literal" where
  "key_literal_of (LBoolean v) = KLBoolean v"
| "key_literal_of (LInt64 v) = KLInt64 v"
| "key_literal_of (LUInt64 v) = KLUInt64 v"
| "key_literal_of (LFloat64 v) = KLFloat64 v"
| "key_literal_of (LUtf8 v) = KLUtf8 v"

fun operator_code :: "comparison_operator \<Rightarrow> nat" where
  "operator_code CEqual = 0"
| "operator_code CNotEqual = 1"
| "operator_code CLessThan = 2"
| "operator_code CLessThanOrEqual = 3"
| "operator_code CGreaterThan = 4"
| "operator_code CGreaterThanOrEqual = 5"

datatype filter_node =
    NCompare nat string key_literal
  | NAnd filter_node filter_node
  | NOr filter_node filter_node
  | NNot filter_node

fun filter_key :: "filter_expression \<Rightarrow> filter_node" where
  "filter_key (Compare c) = NCompare (operator_code (cmp_operator c)) (cmp_column c) (key_literal_of (cmp_literal c))"
| "filter_key (FAnd l r) = NAnd (filter_key l) (filter_key r)"
| "filter_key (FOr l r) = NOr (filter_key l) (filter_key r)"
| "filter_key (FNot e) = NNot (filter_key e)"

fun filter_key_byte_size :: "filter_node \<Rightarrow> nat" where
  "filter_key_byte_size (NCompare _ c v) = length c + (case v of KLUtf8 s \<Rightarrow> length s | _ \<Rightarrow> 0)"
| "filter_key_byte_size (NAnd l r) = NODE_OVERHEAD_BYTES + filter_key_byte_size l + filter_key_byte_size r"
| "filter_key_byte_size (NOr l r) = NODE_OVERHEAD_BYTES + filter_key_byte_size l + filter_key_byte_size r"
| "filter_key_byte_size (NNot e) = NODE_OVERHEAD_BYTES + filter_key_byte_size e"

section \<open>Filters and pruning\<close>

lemma and_slot_True: "and_slot a b = Some True \<longleftrightarrow> a = Some True \<and> b = Some True"
  by (simp add: and_slot_def)

lemma or_slot_True: "or_slot a b = Some True \<longleftrightarrow> a = Some True \<or> b = Some True"
  by (simp add: or_slot_def)

text \<open>The kernel comparison a filter operator corresponds to, where there is one.\<close>

fun kernel_op :: "comparison_operator \<Rightarrow> cmp_op option" where
  "kernel_op CEqual = Some OpEq"
| "kernel_op CLessThan = Some OpLt"
| "kernel_op CLessThanOrEqual = Some OpLtEq"
| "kernel_op CGreaterThan = Some OpGt"
| "kernel_op CGreaterThanOrEqual = Some OpGtEq"
| "kernel_op CNotEqual = None"

lemma pruning_leaf_parts:
  "pruning_leaf oper c v = Some p \<Longrightarrow> \<exists>k. kernel_op oper = Some k \<and> leaf_parts p = Some (k, c, v)"
  by (cases oper) auto

lemma operator_holds_kernel:
  "kernel_op oper = Some k \<Longrightarrow> operator_holds oper (Some r) = cmp_holds k r"
  by (cases oper; cases r) (auto simp: operator_holds_def cmp_holds_def)

lemma operator_holds_None: "kernel_op oper = Some k \<Longrightarrow> \<not> operator_holds oper None"
  by (cases oper) (auto simp: operator_holds_def)

lemma comparison_mask_row:
  assumes "comparison_mask_for partial_cmp xs v oper ! i = Some True" "i < length (comparison_mask_for partial_cmp xs v oper)"
  obtains x where "Some x \<in> set xs" "operator_holds oper (partial_cmp x v)"
  using assms nth_mem by (fastforce simp: comparison_mask_for_def split: option.splits)

lemma comparison_row_scan:
  assumes st: "stats_ok st b" and m: "comparison_mask b c = Inr ms" "i < length ms" "ms ! i = Some True"
    and v: "pruning_value (cmp_literal c) = Some v" and p: "pruning_leaf (cmp_operator c) (cmp_column c) v = Some p"
  shows "should_scan_file st p"
proof -
  obtain k where k: "kernel_op (cmp_operator c) = Some k" "leaf_parts p = Some (k, cmp_column c, v)"
    using pruning_leaf_parts [OF p] by blast
  obtain array where a: "map_of b (cmp_column c) = Some array" using m(1) by (auto simp: comparison_mask_def split: option.splits)
  have "op_scan k v e" if e: "st (cmp_column c) = Some e" for e
  proof -
    have ok: "bounds_ok e array" using st e a by (auto simp: stats_ok_def)
    show ?thesis
    proof (cases "cmp_literal c")
      case (LInt64 w)
      then obtain xs where xs: "array = Int64Col xs" "ms = comparison_mask_for total_partial xs w (cmp_operator c)"
        using m(1) a by (auto simp: comparison_mask_def split: column.splits)
      obtain x where "Some x \<in> set xs" "operator_holds (cmp_operator c) (total_partial x w)"
        using m(3,2) unfolding xs(2) by (rule comparison_mask_row)
      then show ?thesis using int_leaf_scan [of e xs x k w] ok xs v LInt64 operator_holds_kernel [OF k(1)]
        by (simp add: total_partial_def)
    next
      case (LUtf8 w)
      then obtain xs where xs: "array = Utf8Col xs" "ms = comparison_mask_for total_partial xs w (cmp_operator c)"
        using m(1) a by (auto simp: comparison_mask_def split: column.splits)
      obtain x where "Some x \<in> set xs" "operator_holds (cmp_operator c) (total_partial x w)"
        using m(3,2) unfolding xs(2) by (rule comparison_mask_row)
      then show ?thesis using utf8_leaf_scan [of e xs x k w] ok xs v LUtf8 operator_holds_kernel [OF k(1)]
        by (simp add: total_partial_def)
    next
      case (LFloat64 w)
      then obtain xs where xs: "array = Float64Col xs"
          "ms = comparison_mask_for f64_partial_cmp (valid_f64 xs) w (cmp_operator c)"
        using m(1) a by (auto simp: comparison_mask_def split: column.splits)
      obtain x where x: "Some x \<in> set (valid_f64 xs)" "operator_holds (cmp_operator c) (f64_partial_cmp x w)"
        using m(3,2) unfolding xs(2) by (rule comparison_mask_row)
      then have nan: "\<not> f64_is_nan x" "\<not> f64_is_nan w"
        using operator_holds_None [OF k(1)] by (auto simp: f64_partial_cmp_def split: if_splits)
      then show ?thesis
        using float_leaf_scan [of e xs x w k] x ok xs v LFloat64 operator_holds_kernel [OF k(1)]
        by (simp add: f64_partial_cmp_def)
    qed (use v in auto)
  qed
  then show ?thesis by (auto simp: should_scan_leaf [OF k(2)] leaf_scan_def split: option.splits)
qed

lemma comparison_mask_length:
  "equal_lengths b n \<Longrightarrow> comparison_mask b c = Inr ms \<Longrightarrow> length ms = n"
  by (auto simp: comparison_mask_def comparison_mask_for_def equal_lengths_def valid_f64_def
      dest!: map_of_SomeD split: option.splits filter_literal.splits column.splits)

lemma filter_mask_length:
  assumes "equal_lengths b n"
  shows "filter_mask b f = Inr ms \<Longrightarrow> length ms = n"
  by (induction f arbitrary: ms) (auto simp: bindE_accepts comparison_mask_length [OF assms])

lemma filter_row_scan:
  assumes st: "stats_ok st b" and len: "equal_lengths b n" and i: "i < n"
  shows "filter_mask b f = Inr ms \<Longrightarrow> ms ! i = Some True \<Longrightarrow>
    filter_expression_pruning_predicate f = Some p \<Longrightarrow> should_scan_file st p"
proof (induction f arbitrary: ms p)
  case (Compare c)
  then show ?case
    using comparison_row_scan [OF st, of c ms i] comparison_mask_length [OF len, of c ms] i
    by (auto split: option.splits)
next
  case (FAnd l r)
  then obtain x y q s where xy: "filter_mask b l = Inr x" "filter_mask b r = Inr y" "ms = map2 and_slot x y"
    "filter_expression_pruning_predicate l = Some q" "filter_expression_pruning_predicate r = Some s" "p = And q s"
    by (auto simp: bindE_accepts split: option.splits)
  then have "ms ! i = and_slot (x ! i) (y ! i)" using filter_mask_length [OF len] i by simp
  then show ?case using FAnd xy by (metis and_slot_True should_scan_file.simps(1))
next
  case (FOr l r)
  then obtain x y q s where xy: "filter_mask b l = Inr x" "filter_mask b r = Inr y" "ms = map2 or_slot x y"
    "filter_expression_pruning_predicate l = Some q" "filter_expression_pruning_predicate r = Some s" "p = Or q s"
    by (auto simp: bindE_accepts split: option.splits)
  then have "ms ! i = or_slot (x ! i) (y ! i)" using filter_mask_length [OF len] i by simp
  then show ?case using FOr xy by (metis or_slot_True should_scan_file.simps(2))
qed simp

text \<open>C12: Pruning by filter expression is sound for every value, floats with NaN and signed
  zeros included: a file whose batch has a row the filter selects is never skipped.\<close>

theorem filter_pruning_sound:
  assumes "arrow_spec K" and "distinct (map fst b)" and "equal_lengths b n"
    and "filter_mask b f = Inr ms" and "i < n" and "ms ! i = Some True"
    and "filter_expression_pruning_predicate f = Some p"
  shows "zone_map_permits_scan (Some (compute_stats K b)) p"
  unfolding zone_map_permits_scan_def
  using filter_row_scan [OF compute_stats_ok [OF assms(1,2)] assms(3,5,4,6,7)] by simp

theorem filter_pruning_sound_witness:
  "zone_map_permits_scan (Some (compute_stats reference_kernels nan_batch))
     (Eq ''x'' (Float64 0x3FF0000000000000))"
  by (rule filter_pruning_sound [OF reference_kernels_spec, of _ 2
        "Compare \<lparr> cmp_column = ''x'', cmp_operator = CEqual, cmp_literal = LFloat64 0x3FF0000000000000 \<rparr>"
        "[Some True, Some False]" 0])
    (simp_all add: nan_batch_def equal_lengths_def comparison_mask_def comparison_mask_for_def valid_f64_def
      operator_holds_def f64_partial_cmp_def f64_is_nan_def f64_mag_def ord_of_def)

section \<open>Type safety\<close>

text \<open>A batch fits a schema when it has a column of the declared type and common length for
  every logical column.\<close>

fun column_fits :: "nat \<Rightarrow> logical_type \<Rightarrow> column \<Rightarrow> bool" where
  "column_fits n TBoolean (BooleanCol xs) \<longleftrightarrow> length xs = n"
| "column_fits n TInt64 (Int64Col xs) \<longleftrightarrow> length xs = n"
| "column_fits n TUInt64 (UInt64Col xs) \<longleftrightarrow> length xs = n"
| "column_fits n TFloat64 (Float64Col xs) \<longleftrightarrow> length xs = n"
| "column_fits n TUtf8 (Utf8Col xs) \<longleftrightarrow> length xs = n"
| "column_fits n (TVector d) (VectorCol nullable_child xs) \<longleftrightarrow>
     \<not> nullable_child \<and> length xs = n \<and> list_all (\<lambda>x. case x of None \<Rightarrow> True | Some v \<Rightarrow> length v = d) xs"
| "column_fits n _ _ \<longleftrightarrow> False"

definition batch_fits :: "nat \<Rightarrow> dataset_schema \<Rightarrow> batch \<Rightarrow> bool" where
  "batch_fits n sch b \<longleftrightarrow>
     (\<forall>c\<in>set (schema_columns sch). \<exists>a. map_of b (lc_name c) = Some a \<and> column_fits n (lc_type c) a)"

lemma batch_fitsD:
  assumes "batch_fits n sch b" "schema_column sch name = Inr c"
  obtains a where "map_of b name = Some a" "column_fits n (lc_type c) a"
  using assms by (metis batch_fits_def schema_columnE)

lemma comparison_mask_total:
  assumes "batch_fits n sch b" "validate_comparison sch c = Inr u"
  shows "\<exists>ms. comparison_mask b c = Inr ms \<and> length ms = n"
proof -
  obtain field where f: "schema_column sch (cmp_column c) = Inr field" "lc_type field = literal_type (cmp_literal c)"
    using assms(2) by (auto simp: validate_comparison_def bindE_accepts Let_def split: if_splits)
  obtain a where a: "map_of b (cmp_column c) = Some a" "column_fits n (literal_type (cmp_literal c)) a"
    using batch_fitsD [OF assms(1) f(1)] f(2) by metis
  show ?thesis
    using a by (cases "cmp_literal c"; cases a) (auto simp: comparison_mask_def comparison_mask_for_def valid_f64_def)
qed

lemma filter_mask_total:
  assumes "batch_fits n sch b"
  shows "validate_filter sch f = Inr u \<Longrightarrow> \<exists>ms. filter_mask b f = Inr ms \<and> length ms = n"
proof (induction f arbitrary: u)
  case (Compare c)
  then show ?case using comparison_mask_total [OF assms] by simp
next
  case (FAnd l r)
  then obtain x y where "filter_mask b l = Inr x" "filter_mask b r = Inr y" "length x = n" "length y = n"
    by (auto simp: bindE_accepts)
  then show ?case by (simp add: bindE_def)
next
  case (FOr l r)
  then obtain x y where "filter_mask b l = Inr x" "filter_mask b r = Inr y" "length x = n" "length y = n"
    by (auto simp: bindE_accepts)
  then show ?case by (simp add: bindE_def)
next
  case (FNot e)
  then obtain x where "filter_mask b e = Inr x" "length x = n" by auto
  then show ?case by (simp add: bindE_def)
qed

definition value_has_type :: "logical_type \<Rightarrow> result_value \<Rightarrow> bool" where
  "value_has_type t v \<longleftrightarrow> v = RNull \<or> result_type v = Some t"

lemma result_value_typed:
  "column_fits n t a \<Longrightarrow> row < n \<Longrightarrow> \<exists>v. result_value a row = Inr v \<and> value_has_type t v"
  by (cases "(n, t, a)" rule: column_fits.cases)
    (auto simp: result_value_def value_has_type_def valid_f64_def list_all_length split: option.splits)

lemma projected_row_typed:
  assumes "batch_fits n sch b" "row < n"
  shows "\<forall>c\<in>set cs. \<exists>f. schema_column sch c = Inr f \<Longrightarrow>
    \<exists>fields. projected_row b row cs = Inr fields \<and> map fst fields = cs \<and>
      (\<forall>(c, v)\<in>set fields. \<exists>f. schema_column sch c = Inr f \<and> value_has_type (lc_type f) v)"
proof (induction cs)
  case (Cons c cs)
  obtain f where f: "schema_column sch c = Inr f" using Cons.prems by auto
  obtain a where a: "map_of b c = Some a" "column_fits n (lc_type f) a"
    using batch_fitsD [OF assms(1) f] by blast
  obtain v where v: "result_value a row = Inr v" "value_has_type (lc_type f) v"
    using result_value_typed [OF a(2) assms(2)] by blast
  obtain fields where "projected_row b row cs = Inr fields" "map fst fields = cs"
    "\<forall>(c, v)\<in>set fields. \<exists>f. schema_column sch c = Inr f \<and> value_has_type (lc_type f) v"
    using Cons by auto
  then show ?case using f a v by (auto simp: bindE_def)
qed simp

lemma collect_results_all:
  "\<forall>i<n. \<exists>x. f i = Inr x \<and> P x \<Longrightarrow>
   \<exists>xs. collect_results (map f [0..<n]) = Inr xs \<and> length xs = n \<and> (\<forall>x\<in>set xs. P x)"
proof -
  have "\<forall>i\<in>set is. \<exists>x. f i = Inr x \<and> P x \<Longrightarrow>
    \<exists>xs. collect_results (map f is) = Inr xs \<and> length xs = length is \<and> (\<forall>x\<in>set xs. P x)" for "is"
    by (induction "is") (auto simp: bindE_def)
  from this [of "[0..<n]"] show "\<forall>i<n. \<exists>x. f i = Inr x \<and> P x \<Longrightarrow>
    \<exists>xs. collect_results (map f [0..<n]) = Inr xs \<and> length xs = n \<and> (\<forall>x\<in>set xs. P x)" by simp
qed

lemma validate_projection_columns:
  assumes "schema_ok sch" "validate_projection sch p = Inr cols"
  shows "distinct cols \<and> (\<forall>c\<in>set cols. \<exists>f. schema_column sch c = Inr f)"
proof (cases p)
  case AllColumns
  have "find (\<lambda>d. lc_name d = lc_name c) cs \<noteq> None" if "c \<in> set cs" for c :: logical_column and cs
    using that by (auto simp: find_None_iff)
  then show ?thesis using assms AllColumns by (auto simp: accepts schema_ok_def)
next
  case (Columns cs)
  then show ?thesis using assms(2) by (auto simp: bindE_accepts projection_loop_accepts)
qed

text \<open>C13: A validated scan cannot fail on well-typed data.  On every batch that fits the
  schema the filter yields one slot per row, and every row projects to exactly the requested
  columns, in order, each value null or of the column's declared type.\<close>

theorem validated_scan_is_type_safe:
  assumes "schema_ok sch" and "validate_scan sch req = Inr cols" and "batch_fits n sch b"
  shows "(\<forall>f. scan_filter req = Some f \<longrightarrow> (\<exists>ms. filter_mask b f = Inr ms \<and> length ms = n)) \<and>
    (\<exists>rows. projected_rows b n cols = Inr rows \<and> length rows = n \<and>
      (\<forall>row\<in>set rows. map fst row = cols \<and>
         (\<forall>(c, v)\<in>set row. \<exists>f. schema_column sch c = Inr f \<and> value_has_type (lc_type f) v)))"
proof
  have p: "validate_projection sch (scan_projection req) = Inr cols"
    and f: "validate_optional_filter sch (scan_filter req) = Inr ()"
    using assms(2) by (auto simp: validate_scan_def bindE_accepts)
  show "\<forall>f. scan_filter req = Some f \<longrightarrow> (\<exists>ms. filter_mask b f = Inr ms \<and> length ms = n)"
    using f filter_mask_total [OF assms(3)] by (auto simp: validate_optional_filter_def)
  show "\<exists>rows. projected_rows b n cols = Inr rows \<and> length rows = n \<and>
      (\<forall>row\<in>set rows. map fst row = cols \<and>
         (\<forall>(c, v)\<in>set row. \<exists>f. schema_column sch c = Inr f \<and> value_has_type (lc_type f) v))"
    unfolding projected_rows_def
    by (rule collect_results_all)
      (use projected_row_typed [OF assms(3)] validate_projection_columns [OF assms(1) p] in blast)
qed

theorem validated_scan_is_type_safe_witness:
  "\<exists>rows. projected_rows [(''n'', Int64Col [Some 4, None]), (''city'', Utf8Col [Some ''x'', Some ''y''])] 2
     [''n''] = Inr rows \<and> length rows = 2"
proof -
  have v: "validate_scan sample_schema \<lparr> scan_projection = Columns [''n''], scan_filter = None \<rparr> = Inr [''n'']"
    by (simp add: validate_scan_def sample_schema_def bindE_def schema_column_def validate_user_column_name_def
        ROW_ID_COLUMN_def TIMESTAMP_COLUMN_def validate_optional_filter_def)
  have s: "schema_ok sample_schema"
    by (simp add: schema_ok_def sample_schema_def user_name_def ROW_ID_COLUMN_def TIMESTAMP_COLUMN_def)
  have b: "batch_fits 2 sample_schema [(''n'', Int64Col [Some 4, None]), (''city'', Utf8Col [Some ''x'', Some ''y''])]"
    by (simp add: batch_fits_def sample_schema_def)
  show ?thesis using validated_scan_is_type_safe [OF s v b] by blast
qed

section \<open>Column pushdown and keys\<close>

fun mentions :: "filter_expression \<Rightarrow> string set" where
  "mentions (Compare c) = {cmp_column c}"
| "mentions (FAnd l r) = mentions l \<union> mentions r"
| "mentions (FOr l r) = mentions l \<union> mentions r"
| "mentions (FNot e) = mentions e"

lemma set_filter_columns: "set (filter_columns f cols) = set cols \<union> mentions f"
  by (induction f arbitrary: cols) (auto simp: push_unique_column_def)

lemma distinct_filter_columns: "distinct cols \<Longrightarrow> distinct (filter_columns f cols)"
  by (induction f arbitrary: cols) (auto simp: push_unique_column_def)

lemma map_of_kept: "c \<in> S \<Longrightarrow> map_of (filter (\<lambda>(n, _). n \<in> S) b) c = map_of b c"
  by (induction b) auto

lemma filter_mask_kept:
  "mentions f \<subseteq> S \<Longrightarrow> filter_mask (filter (\<lambda>(n, _). n \<in> S) b) f = filter_mask b f"
  by (induction f) (auto simp: comparison_mask_def map_of_kept)

text \<open>C26: Decoding only the columns a filter mentions, in any batch and after any columns that
  were already requested, gives the mask of the whole batch, errors included, and no column is
  requested twice.\<close>

theorem filter_column_pushdown:
  "filter_mask (filter (\<lambda>(n, _). n \<in> set (filter_columns f cols)) b) f = filter_mask b f \<and>
   (distinct cols \<longrightarrow> distinct (filter_columns f cols))"
  using filter_mask_kept [of f "set (filter_columns f cols)" b] set_filter_columns [of f cols]
  by (simp add: distinct_filter_columns)

theorem filter_column_pushdown_witness:
  "filter_columns (FAnd (Compare \<lparr> cmp_column = ''n'', cmp_operator = CEqual, cmp_literal = LInt64 1 \<rparr>)
     (Compare \<lparr> cmp_column = ''n'', cmp_operator = CNotEqual, cmp_literal = LInt64 2 \<rparr>)) [''a''] = [''a'', ''n''] \<and>
   distinct (filter_columns (Compare \<lparr> cmp_column = ''n'', cmp_operator = CEqual, cmp_literal = LInt64 1 \<rparr>) [''a''])"
  using filter_column_pushdown
    [of "Compare \<lparr> cmp_column = ''n'', cmp_operator = CEqual, cmp_literal = LInt64 1 \<rparr>" "[''a'']" "[]"]
  by (simp add: push_unique_column_def)

lemma operator_code_inj: "operator_code x = operator_code y \<longleftrightarrow> x = y"
  by (cases x; cases y) auto

lemma key_literal_of_inj: "key_literal_of v = key_literal_of w \<longleftrightarrow> v = w"
  by (cases v; cases w) auto

text \<open>C27: Filters with equal identity keys are equal, so live sets cached under a filter's key
  are never served for another filter.\<close>

theorem filter_key_injective: "filter_key f = filter_key g \<longleftrightarrow> f = g"
proof (induction f arbitrary: g)
  case (Compare c)
  then show ?case by (cases g) (auto simp: operator_code_inj key_literal_of_inj)
next
  case (FAnd l r)
  then show ?case by (cases g) auto
next
  case (FOr l r)
  then show ?case by (cases g) auto
next
  case (FNot e)
  then show ?case by (cases g) auto
qed

end
