(* ===== verification/Snapshot.thy ===== *)
theory Snapshot
  imports Manifest SegmentFormat ArrowData RowFilter
begin

text \<open>
  Snapshots and staged transactions: the segment set of a snapshot
  (\<open>crates/index/src/segment_set.rs\<close>), the registry of snapshot leases
  (\<open>crates/txn/src/retention.rs\<close>), ownership and visibility of rows
  (\<open>crates/txn/src/snapshot.rs\<close>) and the staging operations of \<open>Transaction\<close>
  (\<open>crates/txn/src/dataset.rs\<close>).
\<close>

section \<open>Segment sets\<close>

type_synonym stats_table = "(string \<times> column_stats) list"

datatype index_part = Sealed segment_reader stats_table

type_synonym segment_set = "index_part list"

definition with_appended :: "segment_reader \<Rightarrow> stats_table \<Rightarrow> segment_set \<Rightarrow> segment_set" where
  "with_appended reader zone_map parts = parts @ [Sealed reader zone_map]"

fun part_dimension :: "index_part \<Rightarrow> nat" where
  "part_dimension (Sealed reader _) = sr_dim reader"

definition established_dimension :: "segment_set \<Rightarrow> nat" where
  "established_dimension parts =
     (case find (\<lambda>d. d \<noteq> 0) (map part_dimension parts) of None \<Rightarrow> 0 | Some d \<Rightarrow> d)"

section \<open>Snapshot leases\<close>

text \<open>The registry holds weak references.  \<open>alive\<close> says which leases still have an owner; it is
  decided by the snapshots that exist when the registry is used.\<close>

record snapshot_lease =
  ls_id :: nat
  ls_version :: nat

record lease_registry =
  lr_leases :: "snapshot_lease list"
  lr_next_id :: nat

definition register :: "(nat \<Rightarrow> bool) \<Rightarrow> nat \<Rightarrow> lease_registry \<Rightarrow> snapshot_lease \<times> lease_registry" where
  "register alive version reg =
     (let lease = \<lparr> ls_id = lr_next_id reg, ls_version = version \<rparr>
      in (lease, \<lparr> lr_leases = filter (\<lambda>l. alive (ls_id l)) (lr_leases reg) @ [lease],
                   lr_next_id = lr_next_id reg + 1 \<rparr>))"

definition live_versions :: "(nat \<Rightarrow> bool) \<Rightarrow> lease_registry \<Rightarrow> nat list \<times> lease_registry" where
  "live_versions alive reg =
     (let kept = filter (\<lambda>l. alive (ls_id l)) (lr_leases reg)
      in (sorted_list_of_set (ls_version ` set kept), reg\<lparr> lr_leases := kept \<rparr>))"

section \<open>Snapshots\<close>

text \<open>The storage handle and directory are the engine's; the cache of live sets is a cache.\<close>

record snapshot =
  sn_version :: nat
  sn_lease :: snapshot_lease
  sn_schema :: arrow_schema
  sn_manifest :: manifest
  sn_index :: segment_set
  sn_tombstones :: "nat set"

definition in_row_id_range :: "nat \<Rightarrow> data_file_entry \<Rightarrow> bool" where
  "in_row_id_range row_id entry =
     (case df_row_id_range entry of None \<Rightarrow> False | Some (first, final) \<Rightarrow> first \<le> row_id \<and> row_id \<le> final)"

definition owns_row :: "snapshot \<Rightarrow> nat \<Rightarrow> bool" where
  "owns_row sn row_id = list_ex (in_row_id_range row_id) (mf_data_files (sn_manifest sn))"

definition is_visible :: "snapshot \<Rightarrow> nat \<Rightarrow> bool" where
  "is_visible sn row_id \<longleftrightarrow> row_id \<notin> sn_tombstones sn"

definition owns_live_row :: "snapshot \<Rightarrow> nat \<Rightarrow> bool" where
  "owns_live_row sn row_id \<longleftrightarrow> owns_row sn row_id \<and> is_visible sn row_id"

definition field_with_name :: "arrow_schema \<Rightarrow> string \<Rightarrow> field option" where
  "field_with_name sch name = map_option (\<lambda>i. sch_fields sch ! i) (schema_index_of sch name)"

fun projection_fields_ok :: "arrow_schema \<Rightarrow> field list \<Rightarrow> (txn_error, unit) result" where
  "projection_fields_ok sch [] = Inr ()"
| "projection_fields_ok sch (f # fs) =
     bindE (if fd_name f = ROW_ID_COLUMN then Inr (field_new ROW_ID_COLUMN DTUInt64 False)
            else if fd_name f = TIMESTAMP_COLUMN then Inr (field_new TIMESTAMP_COLUMN DTInt64 False)
            else of_option BatchSchemaMismatch (field_with_name sch (fd_name f))) (\<lambda>expected.
       bindE (guardE (f = expected) BatchSchemaMismatch) (\<lambda>_. projection_fields_ok sch fs))"

definition validate_projection_schema :: "snapshot \<Rightarrow> arrow_schema \<Rightarrow> (txn_error, unit) result" where
  "validate_projection_schema sn requested =
     bindE (guardE (sch_metadata requested = sch_metadata (sn_schema sn)) BatchSchemaMismatch) (\<lambda>_.
       projection_fields_ok (sn_schema sn) (sch_fields requested))"

record explain_result =
  ex_total_files :: nat
  ex_scanned :: "string list"
  ex_skipped :: "string list"
  ex_segments_total :: nat
  ex_segments_scanned :: "string list"
  ex_segments_skipped :: "string list"

definition explain :: "snapshot \<Rightarrow> predicate \<Rightarrow> explain_result" where
  "explain sn p =
     (let m = sn_manifest sn;
          scans = (\<lambda>entry. should_scan_file (map_of (df_stats entry)) p);
          seg_scans = (\<lambda>entry. should_scan_file (map_of (sg_zone_map entry)) p)
      in \<lparr> ex_total_files = length (mf_data_files m),
           ex_scanned = map df_name (filter scans (mf_data_files m)),
           ex_skipped = map df_name (filter (Not \<circ> scans) (mf_data_files m)),
           ex_segments_total = length (mf_segments m),
           ex_segments_scanned = map sg_name (filter seg_scans (mf_segments m)),
           ex_segments_skipped = map sg_name (filter (Not \<circ> seg_scans) (mf_segments m)) \<rparr>)"

section \<open>Staging\<close>

record transaction =
  tx_base_version :: nat
  tx_base_snapshot :: snapshot
  tx_schema :: arrow_schema
  tx_pending :: "record_batch list"
  tx_pending_replacements :: "nat \<rightharpoonup> record_batch"
  tx_pending_tombstones :: "nat list"
  tx_write_set :: "nat list"

definition begin_at :: "snapshot \<Rightarrow> transaction" where
  "begin_at sn =
     \<lparr> tx_base_version = sn_version sn, tx_base_snapshot = sn, tx_schema = sn_schema sn, tx_pending = [],
       tx_pending_replacements = Map.empty, tx_pending_tombstones = [], tx_write_set = [] \<rparr>"

definition validate_batch :: "transaction \<Rightarrow> record_batch \<Rightarrow> (txn_error, unit) result" where
  "validate_batch tx b = guardE (rb_schema b = tx_schema tx) BatchSchemaMismatch"

definition validate_target :: "transaction \<Rightarrow> nat \<Rightarrow> (txn_error, unit) result" where
  "validate_target tx row_id =
     (if row_id \<in> set (tx_pending_tombstones tx) then Inl (DuplicateTarget row_id)
      else if \<not> owns_row (tx_base_snapshot tx) row_id then Inl (RowNotFound row_id)
      else if \<not> is_visible (tx_base_snapshot tx) row_id then Inl (RowNotLive row_id)
      else Inr ())"

definition txn_insert :: "record_batch \<Rightarrow> (transaction, txn_error, unit) effect" where
  "txn_insert b tx =
     (case validate_batch tx b of
        Inl e \<Rightarrow> (Inl e, tx)
      | Inr _ \<Rightarrow> (Inr (), tx\<lparr> tx_pending := tx_pending tx @ [b] \<rparr>))"

definition txn_delete :: "nat \<Rightarrow> (transaction, txn_error, unit) effect" where
  "txn_delete row_id tx =
     (case validate_target tx row_id of
        Inl e \<Rightarrow> (Inl e, tx)
      | Inr _ \<Rightarrow> (Inr (), tx\<lparr> tx_pending_tombstones := tx_pending_tombstones tx @ [row_id],
                             tx_write_set := tx_write_set tx @ [row_id] \<rparr>))"

definition txn_update :: "nat \<Rightarrow> record_batch \<Rightarrow> (transaction, txn_error, unit) effect" where
  "txn_update row_id b tx =
     (case validate_batch tx b of
        Inl e \<Rightarrow> (Inl e, tx)
      | Inr _ \<Rightarrow>
          if rb_num_rows b \<noteq> 1 then (Inl (InvalidUpdateShape (rb_num_rows b)), tx)
          else case validate_target tx row_id of
            Inl e \<Rightarrow> (Inl e, tx)
          | Inr _ \<Rightarrow>
              (Inr (), tx\<lparr> tx_pending_tombstones := tx_pending_tombstones tx @ [row_id],
                          tx_write_set := tx_write_set tx @ [row_id],
                          tx_pending_replacements := (tx_pending_replacements tx)(row_id \<mapsto> b),
                          tx_pending := tx_pending tx @ [b] \<rparr>))"

datatype staged_op = StageInsert record_batch | StageDelete nat | StageUpdate nat record_batch

fun stage :: "staged_op \<Rightarrow> (transaction, txn_error, unit) effect" where
  "stage (StageInsert b) = txn_insert b"
| "stage (StageDelete row_id) = txn_delete row_id"
| "stage (StageUpdate row_id b) = txn_update row_id b"

definition stage_all :: "staged_op list \<Rightarrow> transaction \<Rightarrow> transaction" where
  "stage_all ops tx = fold (\<lambda>oper t. snd (stage oper t)) ops tx"

section \<open>What staging keeps\<close>

text \<open>The write set is the list of tombstones, without repetition, and names rows that are live in
  the base snapshot; staged batches have the transaction's schema, and a replacement is a staged
  batch of one row for a row of the write set.\<close>

definition staged_ok :: "transaction \<Rightarrow> bool" where
  "staged_ok tx \<longleftrightarrow>
     tx_base_version tx = sn_version (tx_base_snapshot tx) \<and> tx_schema tx = sn_schema (tx_base_snapshot tx) \<and>
     tx_write_set tx = tx_pending_tombstones tx \<and> distinct (tx_write_set tx) \<and>
     (\<forall>r\<in>set (tx_write_set tx). owns_live_row (tx_base_snapshot tx) r) \<and>
     (\<forall>b\<in>set (tx_pending tx). rb_schema b = tx_schema tx) \<and>
     (\<forall>r b. tx_pending_replacements tx r = Some b \<longrightarrow>
        r \<in> set (tx_write_set tx) \<and> b \<in> set (tx_pending tx) \<and> rb_num_rows b = 1)"

lemma begin_staged_ok: "staged_ok (begin_at sn)"
  by (simp add: staged_ok_def begin_at_def)

lemma validate_target_ok:
  "validate_target tx r = Inr u \<longleftrightarrow>
     r \<notin> set (tx_pending_tombstones tx) \<and> owns_live_row (tx_base_snapshot tx) r"
  by (auto simp: validate_target_def owns_live_row_def)

lemma stage_keeps:
  assumes "stage oper tx = (r, tx')"
  shows "tx_base_version tx' = tx_base_version tx \<and> tx_base_snapshot tx' = tx_base_snapshot tx \<and>
    tx_schema tx' = tx_schema tx \<and> (r \<noteq> Inr () \<longrightarrow> tx' = tx)"
  using assms
  by (cases oper) (auto simp: txn_insert_def txn_delete_def txn_update_def split: sum.splits if_splits)

lemma stage_staged_ok:
  assumes "stage oper tx = (r, tx')" "staged_ok tx"
  shows "staged_ok tx'"
proof (cases oper)
  case (StageInsert b)
  then show ?thesis using assms
    by (auto simp: txn_insert_def validate_batch_def staged_ok_def split: sum.splits)
next
  case (StageDelete row_id)
  show ?thesis
  proof (cases "validate_target tx row_id")
    case (Inl e)
    then show ?thesis using assms StageDelete by (simp add: txn_delete_def)
  next
    case (Inr u)
    note t = Inr [unfolded validate_target_ok]
    have "tx' = tx\<lparr> tx_pending_tombstones := tx_pending_tombstones tx @ [row_id],
                    tx_write_set := tx_write_set tx @ [row_id] \<rparr>"
      using assms(1) StageDelete Inr by (simp add: txn_delete_def)
    then show ?thesis using assms(2) t by (auto simp: staged_ok_def)
  qed
next
  case (StageUpdate row_id b)
  show ?thesis
  proof (cases "validate_batch tx b = Inr () \<and> rb_num_rows b = 1 \<and> validate_target tx row_id = Inr ()")
    case False
    then have "tx' = tx"
      using assms(1) StageUpdate by (auto simp: txn_update_def split: sum.splits if_splits)
    then show ?thesis using assms(2) by simp
  next
    case True
    then have t: "row_id \<notin> set (tx_pending_tombstones tx)" "owns_live_row (tx_base_snapshot tx) row_id"
        "rb_schema b = tx_schema tx"
      by (auto simp: validate_target_ok validate_batch_def)
    have "tx' = tx\<lparr> tx_pending_tombstones := tx_pending_tombstones tx @ [row_id],
                    tx_write_set := tx_write_set tx @ [row_id],
                    tx_pending_replacements := (tx_pending_replacements tx)(row_id \<mapsto> b),
                    tx_pending := tx_pending tx @ [b] \<rparr>"
      using assms(1) StageUpdate True by (simp add: txn_update_def)
    then show ?thesis using assms(2) t True by (auto simp: staged_ok_def)
  qed
qed

lemma established_dimension_appended:
  "established_dimension (with_appended r z parts) =
     (if established_dimension parts = 0 then sr_dim r else established_dimension parts)"
proof -
  have "find P (xs @ [x]) = (case find P xs of None \<Rightarrow> (if P x then Some x else None) | Some y \<Rightarrow> Some y)"
    for P and xs :: "nat list" and x by (induction xs) auto
  moreover have "find (\<lambda>d. d \<noteq> 0) xs = Some y \<Longrightarrow> y \<noteq> 0" for xs :: "nat list" and y
    by (auto simp: find_Some_iff)
  ultimately show ?thesis
    by (auto simp: established_dimension_def with_appended_def split: option.splits)
qed

end
