(* ===== verification/Catalog.thy ===== *)
theory Catalog
  imports Snapshot
begin

text \<open>
  The checks that recovery and maintenance make on what a manifest lists
  (\<open>crates/txn/src/dataset.rs\<close>): every data file against its catalog entry and the dataset's
  schema, every tombstone against the rows, every segment against its entry, the rows and the
  other segments.
\<close>

section \<open>Model\<close>

definition corrupt_catalog :: txn_error where
  "corrupt_catalog = Storage CorruptManifest"

text \<open>The components of a relative path are all normal ones: \<open>Path::components\<close> skips empty and
  inner dot segments, and keeps a leading dot.\<close>

definition safe_join :: "string \<Rightarrow> (txn_error, unit) result" where
  "safe_join name =
     guardE (\<not> prefix ''/'' name \<and> hd (split_on (CHR ''/'') name) \<noteq> ''.'' \<and>
             ''..'' \<notin> set (split_on (CHR ''/'') name)) (UnsafeManifestPath name)"

definition expected_hidden :: "(string \<times> data_type) list" where
  "expected_hidden = [(ROW_ID_COLUMN, DTUInt64), (TIMESTAMP_COLUMN, DTInt64)]"

definition hidden_field_ok :: "field \<Rightarrow> string \<times> data_type \<Rightarrow> bool" where
  "hidden_field_ok stored = (\<lambda>(name, ty).
     fd_name stored = name \<and>
     (if name = TIMESTAMP_COLUMN then stored_type_matches_owned_schema (fd_type stored) ty
      else fd_type stored = ty) \<and> \<not> fd_nullable stored)"

definition validate_physical_batch_schema :: "arrow_schema \<Rightarrow> record_batch \<Rightarrow> (txn_error, unit) result" where
  "validate_physical_batch_schema logical b =
     (let physical = rb_schema b in
      bindE (guardE (sch_metadata physical = sch_metadata logical) corrupt_catalog) (\<lambda>_.
      bindE (guardE (length (sch_fields physical) = length (sch_fields logical) + length HIDDEN_COLUMNS) corrupt_catalog) (\<lambda>_.
      bindE (guardE (list_all (\<lambda>(stored, own). stored_field_matches stored own)
                       (zip (sch_fields physical) (sch_fields logical))) corrupt_catalog) (\<lambda>_.
      guardE (list_all (\<lambda>(stored, expected). hidden_field_ok stored expected)
                (zip (drop (length (sch_fields logical)) (sch_fields physical)) expected_hidden)) corrupt_catalog))))"

fun check_row_ids :: "(nat \<times> nat) option \<Rightarrow> nat \<Rightarrow> nat list \<Rightarrow> nat set \<Rightarrow> (txn_error, nat set) result" where
  "check_row_ids expected_range offset [] owned_rows = Inr owned_rows"
| "check_row_ids expected_range offset (row_id # rest) owned_rows =
     (case expected_range of
        None \<Rightarrow> Inl corrupt_catalog
      | Some (first, _) \<Rightarrow>
          bindE (of_option corrupt_catalog (checked_add first offset)) (\<lambda>expected.
            if row_id \<noteq> expected then Inl corrupt_catalog
            else if row_id \<in> owned_rows then Inl corrupt_catalog
            else check_row_ids expected_range (Suc offset) rest (insert row_id owned_rows)))"

text \<open>The value buffer of an array, defined where the array has no null.\<close>

definition row_id_values :: "record_batch \<Rightarrow> nat option list option" where
  "row_id_values b =
     (case schema_index_of (rb_schema b) ROW_ID_COLUMN of
        None \<Rightarrow> None
      | Some i \<Rightarrow> (case rb_columns b ! i of PlainArr (UInt64Col xs) \<Rightarrow> Some xs | _ \<Rightarrow> None))"

definition validate_data_file_row_ids ::
  "record_batch \<Rightarrow> (nat \<times> nat) option \<Rightarrow> nat set \<Rightarrow> (txn_error, nat set) result" where
  "validate_data_file_row_ids b expected_range owned_rows =
     (if schema_index_of (rb_schema b) ROW_ID_COLUMN = None then Inl TxnArrow
      else case row_id_values b of
        None \<Rightarrow> Inl corrupt_catalog
      | Some xs \<Rightarrow>
          if None \<in> set xs then Inl corrupt_catalog
          else check_row_ids expected_range 0 (map the xs) owned_rows)"

definition catalog_row_id_range :: "data_file_entry \<Rightarrow> (txn_error, (nat \<times> nat) option) result" where
  "catalog_row_id_range entry =
     (if df_row_count entry = 0
      then (if df_row_id_range entry \<noteq> None then Inl corrupt_catalog else Inr None)
      else case df_row_id_range entry of
        None \<Rightarrow> Inl corrupt_catalog
      | Some (first, final) \<Rightarrow>
          bindE (of_option corrupt_catalog (checked_add first (df_row_count entry - 1))) (\<lambda>expected_last.
            if final \<noteq> expected_last then Inl corrupt_catalog else Inr (Some (first, final))))"

definition check_data_file ::
  "arrow_lib \<Rightarrow> checksum \<Rightarrow> arrow_schema \<Rightarrow> data_file_entry \<Rightarrow> bytes \<Rightarrow> nat set \<Rightarrow> (txn_error, nat set) result" where
  "check_data_file A crc logical entry b owned_rows =
     bindE (guardE (length b = df_byte_len entry) (Storage CorruptDataFile)) (\<lambda>_.
     bindE (guardE (unat (crc b) = df_crc32c entry) (Storage CorruptDataFile)) (\<lambda>_.
     bindE (map_errE Storage (read_batch_from_bytes A b)) (\<lambda>batch.
     bindE (validate_physical_batch_schema logical batch) (\<lambda>_.
     bindE (guardE (rb_num_rows batch = df_row_count entry) (Storage CorruptDataFile)) (\<lambda>_.
     bindE (catalog_row_id_range entry) (\<lambda>expected_range.
       validate_data_file_row_ids batch expected_range owned_rows))))))"

fun validate_data_files_loop ::
  "'s backend \<Rightarrow> arrow_lib \<Rightarrow> checksum \<Rightarrow> arrow_schema \<Rightarrow> data_file_entry list \<Rightarrow> string set \<Rightarrow> nat set
   \<Rightarrow> ('s, txn_error, nat set) effect" where
  "validate_data_files_loop be A crc logical [] data_file_names owned_rows = returnSE owned_rows"
| "validate_data_files_loop be A crc logical (entry # rest) data_file_names owned_rows =
     (if df_name entry \<in> data_file_names then throwSE corrupt_catalog
      else bindSE (liftSE (safe_join (df_name entry))) (\<lambda>_.
           bindSE (liftSE (map_errE Storage (data_object_key (df_name entry)))) (\<lambda>key.
           bindSE (map_errSE Storage (be_get be key)) (\<lambda>b.
           bindSE (liftSE (check_data_file A crc logical entry b owned_rows)) (\<lambda>owned_rows'.
           validate_data_files_loop be A crc logical rest (insert (df_name entry) data_file_names) owned_rows')))))"

definition validate_data_files_with_owner ::
  "'s backend \<Rightarrow> arrow_lib \<Rightarrow> checksum \<Rightarrow> manifest \<Rightarrow> arrow_schema \<Rightarrow> ('s, txn_error, nat set) effect" where
  "validate_data_files_with_owner be A crc m logical =
     validate_data_files_loop be A crc logical (mf_data_files m) {} {}"

fun validate_tombstones_loop :: "nat list \<Rightarrow> nat set \<Rightarrow> nat set \<Rightarrow> (txn_error, unit) result" where
  "validate_tombstones_loop [] owned_rows seen = Inr ()"
| "validate_tombstones_loop (row_id # rest) owned_rows seen =
     (if row_id \<notin> owned_rows then Inl corrupt_catalog
      else if row_id \<in> seen then Inl corrupt_catalog
      else validate_tombstones_loop rest owned_rows (insert row_id seen))"

definition validate_tombstones :: "manifest \<Rightarrow> nat set \<Rightarrow> (txn_error, unit) result" where
  "validate_tombstones m owned_rows = validate_tombstones_loop (mf_tombstones m) owned_rows {}"

fun check_vector_rows :: "nat list \<Rightarrow> nat set \<Rightarrow> nat set \<Rightarrow> (txn_error, nat set) result" where
  "check_vector_rows [] owned_rows seen = Inr seen"
| "check_vector_rows (row_id # rest) owned_rows seen =
     (if row_id \<notin> owned_rows then Inl CorruptSegment
      else if row_id \<in> seen then Inl CorruptSegment
      else check_vector_rows rest owned_rows (insert row_id seen))"

definition check_segment ::
  "checksum \<Rightarrow> segment_entry \<Rightarrow> bytes \<Rightarrow> nat option \<Rightarrow> nat set \<Rightarrow> nat set
   \<Rightarrow> (txn_error, segment_reader \<times> nat set) result" where
  "check_segment crc entry b established owned_rows seen =
     bindE (guardE (length b = sg_byte_len entry) CorruptSegment) (\<lambda>_.
     bindE (map_errE Index (segment_from_bytes crc b)) (\<lambda>reader.
     bindE (guardE (sr_format_version reader = sg_format_version entry) CorruptSegment) (\<lambda>_.
     bindE (guardE (sr_node_count reader = sg_vector_count entry) CorruptSegment) (\<lambda>_.
     bindE (guardE (sr_dim reader \<le> u32_max) TryFromInt) (\<lambda>_.
     bindE (guardE (sr_dim reader = sg_dimension entry) CorruptSegment) (\<lambda>_.
     bindE (guardE (reader_row_id_range reader = (sg_row_id_min entry, sg_row_id_max entry)) CorruptSegment) (\<lambda>_.
     bindE (guardE (case established of None \<Rightarrow> True | Some expected \<Rightarrow> sg_dimension entry = expected) CorruptSegment) (\<lambda>_.
     bindE (check_vector_rows (row_id_slice reader) owned_rows seen) (\<lambda>seen'.
       Inr (reader, seen'))))))))))"

fun load_segments_loop ::
  "'s backend \<Rightarrow> checksum \<Rightarrow> segment_entry list \<Rightarrow> string set \<Rightarrow> nat option \<Rightarrow> nat set \<Rightarrow> nat set
   \<Rightarrow> ('s, txn_error, segment_set) effect" where
  "load_segments_loop be crc [] segment_names established owned_rows seen = returnSE []"
| "load_segments_loop be crc (entry # rest) segment_names established owned_rows seen =
     (if sg_name entry \<in> segment_names then throwSE CorruptSegment
      else bindSE (liftSE (safe_join (sg_name entry))) (\<lambda>_.
           bindSE (liftSE (map_errE Storage (data_object_key (sg_name entry)))) (\<lambda>key.
           bindSE (map_errSE Storage (be_get be key)) (\<lambda>b.
           bindSE (liftSE (check_segment crc entry b established owned_rows seen)) (\<lambda>(reader, seen').
           bindSE (load_segments_loop be crc rest (insert (sg_name entry) segment_names)
                     (Some (case established of None \<Rightarrow> sg_dimension entry | Some expected \<Rightarrow> expected))
                     owned_rows seen') (\<lambda>parts.
           returnSE (Sealed reader (sg_zone_map entry) # parts)))))))"

definition load_segments_with_owner ::
  "'s backend \<Rightarrow> checksum \<Rightarrow> manifest \<Rightarrow> nat set \<Rightarrow> ('s, txn_error, segment_set) effect" where
  "load_segments_with_owner be crc m owned_rows =
     load_segments_loop be crc (mf_segments m) {} None owned_rows {}"

section \<open>The rows a file holds\<close>

text \<open>A value of a column, and a row as the user sees it: its values without the hidden columns.\<close>

datatype cell =
    CInt "int option"
  | CFloat "f64 option"
  | CUtf8 "string option"
  | CBool "bool option"
  | CUInt "nat option"
  | CVector "f32 list option"
  | COther

type_synonym row = "(string \<times> cell) list"

fun cell_at :: "column \<Rightarrow> nat \<Rightarrow> cell" where
  "cell_at (Int64Col xs) i = CInt (xs ! i)"
| "cell_at (Float64Col xs) i = CFloat (valid_f64 xs ! i)"
| "cell_at (Utf8Col xs) i = CUtf8 (xs ! i)"
| "cell_at (BooleanCol xs) i = CBool (xs ! i)"
| "cell_at (UInt64Col xs) i = CUInt (xs ! i)"
| "cell_at (VectorCol _ xs) i = CVector (xs ! i)"
| "cell_at (OtherCol _) i = COther"

definition logical_columns :: "record_batch \<Rightarrow> (string \<times> column) list" where
  "logical_columns b =
     map (\<lambda>(f, a). (fd_name f, arr_values a))
       (filter (\<lambda>(f, a). fd_name f \<notin> set HIDDEN_COLUMNS) (zip (sch_fields (rb_schema b)) (rb_columns b)))"

definition logical_row :: "record_batch \<Rightarrow> nat \<Rightarrow> row" where
  "logical_row b i = map (\<lambda>(name, c). (name, cell_at c i)) (logical_columns b)"

definition stored_rows :: "record_batch \<Rightarrow> (nat \<times> row) list" where
  "stored_rows b =
     (case row_id_values b of
        None \<Rightarrow> []
      | Some xs \<Rightarrow> map (\<lambda>i. (the (xs ! i), logical_row b i)) [0..<rb_num_rows b])"

definition file_rows :: "(string \<Rightarrow> bytes option) \<Rightarrow> arrow_lib \<Rightarrow> data_file_entry \<Rightarrow> (nat \<times> row) list" where
  "file_rows objects A entry =
     (case objects (''data/'' @ df_name entry) of
        None \<Rightarrow> []
      | Some b \<Rightarrow> (case al_ipc_read A b of IpcFirst batch \<Rightarrow> stored_rows batch | _ \<Rightarrow> []))"

text \<open>What a snapshot shows over the objects of a store: the rows of its files, in order, that are
  not tombstoned.\<close>

definition visible_rows :: "(string \<Rightarrow> bytes option) \<Rightarrow> arrow_lib \<Rightarrow> snapshot \<Rightarrow> (nat \<times> row) list" where
  "visible_rows objects A sn =
     filter (\<lambda>(row_id, _). is_visible sn row_id)
       (concat (map (file_rows objects A) (mf_data_files (sn_manifest sn))))"

section \<open>Acceptance\<close>

definition entry_ids :: "data_file_entry \<Rightarrow> nat list" where
  "entry_ids entry = (case df_row_id_range entry of None \<Rightarrow> [] | Some (first, final) \<Rightarrow> [first..<Suc final])"

lemma check_row_ids_ok:
  "is_u64 (first + offset + n) \<Longrightarrow> set [first + offset..<first + offset + n] \<inter> owned_rows = {} \<Longrightarrow>
   check_row_ids (Some (first, final)) offset [first + offset..<first + offset + n] owned_rows =
     Inr (owned_rows \<union> set [first + offset..<first + offset + n])"
proof (induction n arbitrary: offset owned_rows)
  case (Suc n)
  have l: "[first + offset..<first + offset + Suc n] = (first + offset) # [first + Suc offset..<first + Suc offset + n]"
    by (simp add: upt_conv_Cons)
  have c: "checked_add first offset = Some (first + offset)"
    using Suc.prems(1) by (simp add: checked_add_def is_u64_def)
  have ih: "check_row_ids (Some (first, final)) (Suc offset) [first + Suc offset..<first + Suc offset + n]
      (insert (first + offset) owned_rows) =
      Inr (insert (first + offset) owned_rows \<union> set [first + Suc offset..<first + Suc offset + n])"
    by (rule Suc.IH) (use Suc.prems in \<open>auto simp: disjoint_iff\<close>)
  have "first + offset \<in> set [first + offset..<first + offset + Suc n]" unfolding l by simp
  then have "first + offset \<notin> owned_rows" using Suc.prems(2) by blast
  then show ?case using ih unfolding l by (simp add: c del: upt_Suc)
qed simp

lemma check_row_ids_owned:
  "check_row_ids r offset ids owned_rows = Inr rows \<Longrightarrow> rows = owned_rows \<union> set ids"
proof (induction ids arbitrary: offset owned_rows)
  case (Cons row_id rest)
  then have "check_row_ids r (Suc offset) rest (insert row_id owned_rows) = Inr rows"
    by (auto simp: bindE_Inr_iff split: option.splits if_splits)
  from Cons.IH [OF this] show ?case by auto
qed simp

lemma check_row_ids_frame:
  "check_row_ids r offset ids owned_rows = Inr rows \<Longrightarrow> set ids \<inter> other = {} \<Longrightarrow>
   check_row_ids r offset ids (owned_rows \<union> other) = Inr (rows \<union> other)"
proof (induction r offset ids owned_rows rule: check_row_ids.induct)
  case (2 r offset row_id rest owned_rows)
  obtain first final where r: "r = Some (first, final)" using "2.prems"(1) by (auto split: option.splits)
  then have c: "checked_add first offset = Some row_id" "row_id \<notin> owned_rows"
      "check_row_ids r (Suc offset) rest (insert row_id owned_rows) = Inr rows"
    using "2.prems"(1) by (auto simp: bindE_Inr_iff split: if_splits)
  have "check_row_ids r (Suc offset) rest (insert row_id owned_rows \<union> other) = Inr (rows \<union> other)"
    using "2.IH" [of "(first, final)" first final row_id] r c "2.prems"(2) by auto
  then show ?case using r c "2.prems"(2) by (auto simp: insert_commute Un_commute)
qed simp

lemma check_data_file_frame:
  assumes "check_data_file A crc logical f b {} = Inr rows" "rows \<inter> owned_rows = {}"
  shows "check_data_file A crc logical f b owned_rows = Inr (rows \<union> owned_rows)"
proof -
  obtain batch r where c: "length b = df_byte_len f" "unat (crc b) = df_crc32c f"
      "read_batch_from_bytes A b = Inr batch" "validate_physical_batch_schema logical batch = Inr ()"
      "rb_num_rows batch = df_row_count f" "catalog_row_id_range f = Inr r"
      "validate_data_file_row_ids batch r {} = Inr rows"
    using assms(1) by (auto simp: check_data_file_def bindE_Inr_iff)
  obtain xs where x: "schema_index_of (rb_schema batch) ROW_ID_COLUMN \<noteq> None" "row_id_values batch = Some xs"
      "None \<notin> set xs" "check_row_ids r 0 (map the xs) {} = Inr rows"
    using c(7) by (auto simp: validate_data_file_row_ids_def split: if_splits option.splits)
  have "set (map the xs) = rows" using check_row_ids_owned [OF x(4)] by simp
  then have "check_row_ids r 0 (map the xs) owned_rows = Inr (rows \<union> owned_rows)"
    using check_row_ids_frame [OF x(4), of owned_rows] assms(2) by simp
  then have "validate_data_file_row_ids batch r owned_rows = Inr (rows \<union> owned_rows)"
    using x by (simp add: validate_data_file_row_ids_def)
  then show ?thesis using c by (simp add: check_data_file_def guardE_def)
qed

definition listed_name :: "string \<Rightarrow> bool" where
  "listed_name name \<longleftrightarrow> safe_join name = Inr () \<and> data_object_key name = Inr (''data/'' @ name) \<and>
     valid_key (''data/'' @ name)"

text \<open>A file the checks accept, alone and together with the other files of a manifest.\<close>

definition file_ok :: "(string \<Rightarrow> bytes option) \<Rightarrow> arrow_lib \<Rightarrow> checksum \<Rightarrow> arrow_schema \<Rightarrow> data_file_entry \<Rightarrow> bool" where
  "file_ok objects A crc logical f \<longleftrightarrow> listed_name (df_name f) \<and>
     (\<exists>b. objects (''data/'' @ df_name f) = Some b \<and> check_data_file A crc logical f b {} = Inr (set (entry_ids f)))"

definition files_ok :: "(string \<Rightarrow> bytes option) \<Rightarrow> arrow_lib \<Rightarrow> checksum \<Rightarrow> arrow_schema \<Rightarrow> data_file_entry list \<Rightarrow> bool" where
  "files_ok objects A crc logical fs \<longleftrightarrow>
     list_all (file_ok objects A crc logical) fs \<and> distinct (map df_name fs) \<and> distinct (concat (map entry_ids fs))"

definition rows_owned :: "data_file_entry list \<Rightarrow> nat set" where
  "rows_owned fs = set (concat (map entry_ids fs))"

lemma rows_owned_iff: "r \<in> rows_owned fs \<longleftrightarrow> list_ex (in_row_id_range r) fs"
proof -
  have "r \<in> set (entry_ids f) \<longleftrightarrow> in_row_id_range r f" for f
    by (cases "df_row_id_range f") (auto simp: entry_ids_def in_row_id_range_def)
  then show ?thesis by (auto simp: rows_owned_def list_ex_iff)
qed

lemma owns_row_iff: "owns_row sn r \<longleftrightarrow> r \<in> rows_owned (mf_data_files (sn_manifest sn))"
  by (simp add: owns_row_def rows_owned_iff)

definition segment_loaded :: "(string \<Rightarrow> bytes option) \<Rightarrow> checksum \<Rightarrow> nat set \<Rightarrow> segment_entry \<Rightarrow> index_part \<Rightarrow> bool" where
  "segment_loaded objects crc owned_rows e part \<longleftrightarrow> listed_name (sg_name e) \<and>
     (\<exists>b reader seen. objects (''data/'' @ sg_name e) = Some b \<and> part = Sealed reader (sg_zone_map e) \<and>
        check_segment crc e b None owned_rows {} = Inr (reader, seen))"

fun part_rows :: "index_part \<Rightarrow> nat list" where
  "part_rows (Sealed reader _) = row_id_slice reader"

definition segments_loaded ::
  "(string \<Rightarrow> bytes option) \<Rightarrow> checksum \<Rightarrow> nat set \<Rightarrow> segment_entry list \<Rightarrow> segment_set \<Rightarrow> bool" where
  "segments_loaded objects crc owned_rows es parts \<longleftrightarrow>
     list_all2 (segment_loaded objects crc owned_rows) es parts \<and> distinct (map sg_name es) \<and>
     (\<forall>e\<in>set es. sg_dimension e = sg_dimension (hd es)) \<and> distinct (concat (map part_rows parts))"

lemma check_vector_rows_ok:
  "set ids \<subseteq> owned_rows \<Longrightarrow> distinct ids \<Longrightarrow> set ids \<inter> seen = {} \<Longrightarrow>
   check_vector_rows ids owned_rows seen = Inr (seen \<union> set ids)"
  by (induction ids arbitrary: seen) auto

lemma check_vector_rows_subset:
  "check_vector_rows ids owned_rows seen = Inr seen' \<Longrightarrow> set ids \<subseteq> owned_rows"
  by (induction ids arbitrary: seen) (auto split: if_splits)

lemma check_segment_frame:
  assumes "check_segment crc e b None owned_rows {} = Inr (reader, seen0)"
    and "established = None \<or> established = Some (sg_dimension e)"
    and "distinct (row_id_slice reader)" "set (row_id_slice reader) \<inter> seen = {}"
  shows "check_segment crc e b established owned_rows seen = Inr (reader, seen \<union> set (row_id_slice reader))"
proof -
  have c: "length b = sg_byte_len e" "segment_from_bytes crc b = Inr reader"
      "sr_format_version reader = sg_format_version e" "sr_node_count reader = sg_vector_count e"
      "sr_dim reader \<le> u32_max" "sr_dim reader = sg_dimension e"
      "reader_row_id_range reader = (sg_row_id_min e, sg_row_id_max e)"
      "check_vector_rows (row_id_slice reader) owned_rows {} = Inr seen0"
    using assms(1) by (auto simp: check_segment_def bindE_Inr_iff)
  have "check_vector_rows (row_id_slice reader) owned_rows seen = Inr (seen \<union> set (row_id_slice reader))"
    by (rule check_vector_rows_ok [OF check_vector_rows_subset [OF c(8)] assms(3,4)])
  moreover have "case established of None \<Rightarrow> True | Some expected \<Rightarrow> sg_dimension e = expected"
    using assms(2) by auto
  ultimately show ?thesis using c by (simp add: check_segment_def guardE_def)
qed

section \<open>Over a contract\<close>

text \<open>A read of the owner that failed is the only reason to stop.\<close>

definition read_failed :: "'s backend \<Rightarrow> txn_error \<Rightarrow> 's \<Rightarrow> bool" where
  "read_failed be e t \<longleftrightarrow> (\<exists>key u e'. be_get be key u = (Inl e', t) \<and> e = Storage e')"

context backend_contract
begin

lemma validate_data_files_accepts:
  assumes "good s" "list_all (file_ok (content s) A crc logical) fs" "distinct (map df_name fs)"
    "set (map df_name fs) \<inter> names = {}" "distinct (concat (map entry_ids fs))" "rows_owned fs \<inter> owned_rows = {}"
    and "validate_data_files_loop be A crc logical fs names owned_rows s = (r, t)"
  shows "good t \<and> content t = content s \<and>
    (r = Inr (owned_rows \<union> rows_owned fs) \<or> (\<exists>e. r = Inl e \<and> read_failed be e t))"
  using assms
proof (induction fs arbitrary: s names owned_rows)
  case Nil
  then show ?case by (simp add: rows_owned_def)
next
  case (Cons f fs)
  obtain b where n: "listed_name (df_name f)" and b: "content s (''data/'' @ df_name f) = Some b"
      "check_data_file A crc logical f b {} = Inr (set (entry_ids f))"
    using Cons.prems(2) by (auto simp: file_ok_def)
  let ?key = "''data/'' @ df_name f"
  have rest: "bindSE (map_errSE Storage (be_get be ?key)) (\<lambda>b.
      bindSE (liftSE (check_data_file A crc logical f b owned_rows)) (\<lambda>owned_rows'.
      validate_data_files_loop be A crc logical fs (insert (df_name f) names) owned_rows')) s = (r, t)"
    using Cons.prems(4,7) n by (simp add: listed_name_def bindSE_def map_errE_def)
  from rest show ?case
  proof (cases rule: bindSE_cases)
    case (failed e)
    then obtain e' where e': "be_get be ?key s = (Inl e', t)" "e = Storage e'" by (auto simp: map_errSE_iff)
    then show ?thesis using failed get_frame [OF Cons.prems(1) e'(1)] by (auto simp: read_failed_def)
  next
    case (passed b' u)
    then have g: "be_get be ?key s = (Inr b', u)" by (simp add: map_errSE_iff)
    have "b' = b" using get_ok [OF Cons.prems(1) _ g] n b(1) by (simp add: listed_name_def)
    note gu = get_frame [OF Cons.prems(1) g]
    have disj: "set (entry_ids f) \<inter> owned_rows = {}"
      using Cons.prems(6) by (auto simp: rows_owned_def)
    have loop: "validate_data_files_loop be A crc logical fs (insert (df_name f) names)
        (set (entry_ids f) \<union> owned_rows) u = (r, t)"
      using passed(2) check_data_file_frame [OF b(2) disj] \<open>b' = b\<close> by (simp add: bindSE_def)
    have "good t \<and> content t = content u \<and>
        (r = Inr (set (entry_ids f) \<union> owned_rows \<union> rows_owned fs) \<or> (\<exists>e. r = Inl e \<and> read_failed be e t))"
    proof (rule Cons.IH [OF _ _ _ _ _ _ loop])
      show "rows_owned fs \<inter> (set (entry_ids f) \<union> owned_rows) = {}"
        using Cons.prems(5,6) unfolding rows_owned_def by (simp add: Int_Un_distrib Int_Un_distrib2) blast
    qed (use Cons.prems(2-5) gu in \<open>simp_all add: Int_commute\<close>)
    moreover have "set (entry_ids f) \<union> owned_rows \<union> rows_owned fs = owned_rows \<union> rows_owned (f # fs)"
      by (auto simp: rows_owned_def)
    ultimately show ?thesis using gu by simp
  qed
qed

lemma load_segments_accepts:
  assumes "good s" "list_all2 (segment_loaded (content s) crc owned_rows) es parts" "distinct (map sg_name es)"
    "set (map sg_name es) \<inter> names = {}"
    "established = None \<or> established = Some d" "\<forall>e\<in>set es. sg_dimension e = d"
    "distinct (concat (map part_rows parts))" "set (concat (map part_rows parts)) \<inter> seen = {}"
    and "load_segments_loop be crc es names established owned_rows seen s = (r, t)"
  shows "good t \<and> content t = content s \<and> (r = Inr parts \<or> (\<exists>e. r = Inl e \<and> read_failed be e t))"
  using assms
proof (induction es arbitrary: s names established seen parts r t)
  case Nil
  then show ?case by simp
next
  case (Cons e es)
  obtain part ps where parts: "parts = part # ps" "segment_loaded (content s) crc owned_rows e part"
      "list_all2 (segment_loaded (content s) crc owned_rows) es ps"
    using Cons.prems(2) by (auto simp: list_all2_Cons1)
  obtain b reader seen0 where n: "listed_name (sg_name e)" and b: "content s (''data/'' @ sg_name e) = Some b"
      "part = Sealed reader (sg_zone_map e)" "check_segment crc e b None owned_rows {} = Inr (reader, seen0)"
    using parts(2) by (auto simp: segment_loaded_def)
  let ?key = "''data/'' @ sg_name e"
  let ?est = "Some (case established of None \<Rightarrow> sg_dimension e | Some expected \<Rightarrow> expected)"
  have rest: "bindSE (map_errSE Storage (be_get be ?key)) (\<lambda>b.
      bindSE (liftSE (check_segment crc e b established owned_rows seen)) (\<lambda>(reader, seen').
      bindSE (load_segments_loop be crc es (insert (sg_name e) names) ?est owned_rows seen') (\<lambda>parts.
      returnSE (Sealed reader (sg_zone_map e) # parts)))) s = (r, t)"
    using Cons.prems(4,9) n by (simp add: listed_name_def bindSE_def map_errE_def)
  from rest show ?case
  proof (cases rule: bindSE_cases)
    case (failed x)
    then obtain e' where e': "be_get be ?key s = (Inl e', t)" "x = Storage e'" by (auto simp: map_errSE_iff)
    then show ?thesis using failed get_frame [OF Cons.prems(1) e'(1)] by (auto simp: read_failed_def)
  next
    case (passed b' u)
    then have g: "be_get be ?key s = (Inr b', u)" by (simp add: map_errSE_iff)
    have "b' = b" using get_ok [OF Cons.prems(1) _ g] n b(1) by (simp add: listed_name_def)
    note gu = get_frame [OF Cons.prems(1) g]
    have rows: "distinct (row_id_slice reader)" "set (row_id_slice reader) \<inter> seen = {}"
      using Cons.prems(7,8) unfolding parts(1) b(2) by (simp_all add: Int_Un_distrib2)
    have chk: "check_segment crc e b established owned_rows seen = Inr (reader, seen \<union> set (row_id_slice reader))"
      by (rule check_segment_frame [OF b(3) _ rows]) (use Cons.prems(5,6) in simp)
    obtain r1 v where l: "load_segments_loop be crc es (insert (sg_name e) names) ?est owned_rows
        (seen \<union> set (row_id_slice reader)) u = (r1, v)" by fastforce
    have ih: "good v \<and> content v = content u \<and> (r1 = Inr ps \<or> (\<exists>e. r1 = Inl e \<and> read_failed be e v))"
    proof (rule Cons.IH [OF _ _ _ _ _ _ _ _ l])
      show "?est = None \<or> ?est = Some d" using Cons.prems(5,6) by (auto split: option.splits)
      show "set (concat (map part_rows ps)) \<inter> (seen \<union> set (row_id_slice reader)) = {}"
        using Cons.prems(7,8) unfolding parts(1) b(2) by simp blast
    qed (use Cons.prems(3,4,6,7) gu parts in auto)
    have "(case r1 of Inl x \<Rightarrow> (Inl x, v) | Inr ps' \<Rightarrow> (Inr (Sealed reader (sg_zone_map e) # ps'), v)) = (r, t)"
      using passed(2) chk l \<open>b' = b\<close> by (cases r1) (auto simp: bindSE_def)
    then show ?thesis using ih gu parts(1) b(2) by (auto split: sum.splits)
  qed
qed

end

end
