(* ===== verification/LocalFs.thy ===== *)
theory LocalFs
  imports Backend
begin

text \<open>
  The local-filesystem backend (\<open>crates/storage/src/backend/local.rs\<close>) over a
  tree of directories, files and symbolic links.  Every system call may fail: the
  state carries a script of faults that the calls consume one by one, so a
  statement about every state covers every pattern of failures.  The operations
  are composed of the system calls in the order of the source, and together they
  satisfy the \<open>Backend\<close> contract.
\<close>

section \<open>The file tree\<close>

datatype fs_node =
    FileN bytes
  | SymlinkN
  | DirN "(string \<times> fs_node) list"

fun lookup_path :: "fs_node \<Rightarrow> string list \<Rightarrow> fs_node option" where
  "lookup_path t [] = Some t"
| "lookup_path (DirN es) (c # cs) =
     (case map_of es c of None \<Rightarrow> None | Some m \<Rightarrow> lookup_path m cs)"
| "lookup_path t (c # cs) = None"

text \<open>\<open>create_dir_all\<close>, creating a file in an existing directory, and unlinking.
  \<open>None\<close> is a failing system call: a path component that is not a directory, or a
  target that is a directory or a link.\<close>

fun mkdirs :: "string list \<Rightarrow> fs_node \<Rightarrow> fs_node option" where
  "mkdirs [] (DirN es) = Some (DirN es)"
| "mkdirs (c # cs) (DirN es) =
     (case mkdirs cs (case map_of es c of None \<Rightarrow> DirN [] | Some m \<Rightarrow> m) of
        None \<Rightarrow> None
      | Some m' \<Rightarrow> Some (DirN (AList.update c m' es)))"
| "mkdirs cs t = None"

fun put_file :: "string list \<Rightarrow> bytes \<Rightarrow> fs_node \<Rightarrow> fs_node option" where
  "put_file [c] b (DirN es) =
     (case map_of es c of
        None \<Rightarrow> Some (DirN (AList.update c (FileN b) es))
      | Some (FileN _) \<Rightarrow> Some (DirN (AList.update c (FileN b) es))
      | Some _ \<Rightarrow> None)"
| "put_file (c # c' # cs) b (DirN es) =
     (case map_of es c of
        None \<Rightarrow> None
      | Some m \<Rightarrow> (case put_file (c' # cs) b m of
                   None \<Rightarrow> None | Some m' \<Rightarrow> Some (DirN (AList.update c m' es))))"
| "put_file cs b t = None"

fun del_file :: "string list \<Rightarrow> fs_node \<Rightarrow> fs_node option" where
  "del_file [c] (DirN es) =
     (case map_of es c of Some (FileN _) \<Rightarrow> Some (DirN (AList.delete c es)) | _ \<Rightarrow> None)"
| "del_file (c # c' # cs) (DirN es) =
     (case map_of es c of
        None \<Rightarrow> None
      | Some m \<Rightarrow> (case del_file (c' # cs) m of
                   None \<Rightarrow> None | Some m' \<Rightarrow> Some (DirN (AList.update c m' es))))"
| "del_file cs t = None"

section \<open>Keys and paths\<close>

datatype component = RootDir | CurDir | ParentDir | Normal string

text \<open>\<open>std::path::Path::components\<close> on a Unix path.\<close>

definition segment_component :: "string \<Rightarrow> component list" where
  "segment_component x =
     (if x = [] \<or> x = ''.'' then [] else if x = ''..'' then [ParentDir] else [Normal x])"

definition path_components :: "string \<Rightarrow> component list" where
  "path_components s =
     (let segs = split_on (CHR ''/'') s in
      (if prefix ''/'' s then [RootDir] else if hd segs = ''.'' then [CurDir] else [])
      @ concat (map segment_component segs))"

definition validate_key :: "string \<Rightarrow> (storage_error, unit) result" where
  "validate_key key =
     (if key = [] then Inl (Io InvalidInput)
      else if CHR 0x5C \<in> set key then Inl (Io InvalidInput)
      else if list_ex unsafe_segment (split_on (CHR ''/'') key) then Inl (Io InvalidInput)
      else if list_ex (\<lambda>c. case c of Normal _ \<Rightarrow> False | _ \<Rightarrow> True) (path_components key)
      then Inl (Io InvalidInput)
      else Inr ())"

abbreviation path_of :: "string \<Rightarrow> string list" where
  "path_of key \<equiv> split_on (CHR ''/'') key"

abbreviation key_of :: "string list \<Rightarrow> string" where
  "key_of path \<equiv> join_with (CHR ''/'') path"

section \<open>State and faults\<close>

text \<open>A fault is the error kind of a failing call and how far the call got.\<close>

datatype fault = Fault io_kind nat

record lfs =
  root_node :: "fs_node option"
  tmp_counter :: nat
  pid :: nat
  faults :: "fault option list"

definition take_fault :: "lfs \<Rightarrow> fault option \<times> lfs" where
  "take_fault s = (case faults s of [] \<Rightarrow> (None, s) | f # fs \<Rightarrow> (f, s\<lparr> faults := fs \<rparr>))"

text \<open>A call with no effect of its own that may fail.\<close>

definition may_fail :: "(lfs, storage_error, unit) effect" where
  "may_fail s = (case take_fault s of (None, s') \<Rightarrow> (Inr (), s') | (Some (Fault k _), s') \<Rightarrow> (Inl (Io k), s'))"

definition validate_root :: "(lfs, storage_error, bool) effect" where
  "validate_root s = bindSE may_fail (\<lambda>_ s. case root_node s of
       None \<Rightarrow> (Inr False, s)
     | Some SymlinkN \<Rightarrow> (Inl (Io InvalidInput), s)
     | Some (FileN _) \<Rightarrow> (Inl (Io InvalidInput), s)
     | Some (DirN _) \<Rightarrow> (Inr True, s)) s"

text \<open>The component walk that refuses links: a missing component ends it.\<close>

fun check_path :: "fs_node \<Rightarrow> string list \<Rightarrow> (storage_error, unit) result" where
  "check_path t [] = Inr ()"
| "check_path (DirN es) (c # cs) =
     (case map_of es c of
        None \<Rightarrow> Inr ()
      | Some SymlinkN \<Rightarrow> Inl (Io InvalidInput)
      | Some m \<Rightarrow> check_path m cs)"
| "check_path t (c # cs) = Inl (Io OtherIo)"

definition validate_existing_key_path :: "string \<Rightarrow> bool \<Rightarrow> (lfs, storage_error, unit) effect" where
  "validate_existing_key_path key require_root =
     bindSE validate_root (\<lambda>present s.
       if \<not> present then (if require_root then Inl (Io NotFound) else Inr (), s)
       else (case root_node s of
               None \<Rightarrow> (Inr (), s)
             | Some t \<Rightarrow> (check_path t (path_of key), s)))"

text \<open>As above for a list prefix, whose components need not be normal.\<close>

fun check_prefix :: "fs_node \<Rightarrow> component list \<Rightarrow> (storage_error, unit) result" where
  "check_prefix t [] = Inr ()"
| "check_prefix (DirN es) (Normal c # cs) =
     (case map_of es c of
        None \<Rightarrow> Inr ()
      | Some SymlinkN \<Rightarrow> Inl (Io InvalidInput)
      | Some m \<Rightarrow> check_prefix m cs)"
| "check_prefix t (Normal c # cs) = Inl (Io OtherIo)"
| "check_prefix t (_ # cs) = Inl (Io InvalidInput)"

definition validate_list_prefix :: "string \<Rightarrow> (lfs, storage_error, bool) effect" where
  "validate_list_prefix p =
     bindSE validate_root (\<lambda>present s.
       if \<not> present then (Inr False, s)
       else (case root_node s of
               None \<Rightarrow> (Inr False, s)
             | Some t \<Rightarrow> (bindE (check_prefix t (path_components p)) (\<lambda>_. Inr True), s)))"

definition tmp_path_for :: "string list \<Rightarrow> lfs \<Rightarrow> string list \<times> lfs" where
  "tmp_path_for final s =
     (butlast final @
        [''.tmp-'' @ dec (pid s) @ ''-'' @ dec (tmp_counter s) @ ''-'' @ last final],
      s\<lparr> tmp_counter := (tmp_counter s + 1) mod 2 ^ 64 \<rparr>)"

section \<open>System calls\<close>

definition on_root :: "(fs_node \<Rightarrow> fs_node option) \<Rightarrow> io_kind \<Rightarrow> (lfs, storage_error, unit) effect" where
  "on_root f k s =
     (case root_node s of
        None \<Rightarrow> (Inl (Io NotFound), s)
      | Some t \<Rightarrow> (case f t of None \<Rightarrow> (Inl (Io k), s)
                             | Some t' \<Rightarrow> (Inr (), s\<lparr> root_node := Some t' \<rparr>)))"

definition create_dir_all :: "string list \<Rightarrow> (lfs, storage_error, unit) effect" where
  "create_dir_all path s =
     (case take_fault s of
        (None, s1) \<Rightarrow> on_root (mkdirs path) OtherIo s1
      | (Some (Fault k prog), s1) \<Rightarrow>
          (Inl (Io k), snd (on_root (mkdirs (take prog path)) OtherIo s1)))"

text \<open>\<open>File::create\<close>, \<open>write_all\<close>, \<open>sync_all\<close> on the temporary name: a failure may leave
  no file, or one with part of the bytes.\<close>

definition write_tmp :: "string list \<Rightarrow> bytes \<Rightarrow> (lfs, storage_error, unit) effect" where
  "write_tmp path b s =
     (case take_fault s of
        (None, s1) \<Rightarrow> on_root (put_file path b) OtherIo s1
      | (Some (Fault k 0), s1) \<Rightarrow> (Inl (Io k), s1)
      | (Some (Fault k (Suc prog)), s1) \<Rightarrow>
          (Inl (Io k), snd (on_root (put_file path (take prog b)) OtherIo s1)))"

definition rename_file :: "string list \<Rightarrow> string list \<Rightarrow> bytes \<Rightarrow> (lfs, storage_error, unit) effect" where
  "rename_file src dst b =
     bindSE may_fail (\<lambda>_.
       on_root (\<lambda>t. case del_file src t of None \<Rightarrow> None | Some t' \<Rightarrow> put_file dst b t') OtherIo)"

definition hard_link :: "string list \<Rightarrow> bytes \<Rightarrow> (lfs, storage_error, unit) effect" where
  "hard_link dst b =
     bindSE may_fail (\<lambda>_ s.
       case root_node s of
         None \<Rightarrow> (Inl (Io NotFound), s)
       | Some t \<Rightarrow> if lookup_path t dst \<noteq> None then (Inl (Io IoExists), s)
                  else on_root (put_file dst b) OtherIo s)"

definition remove_file :: "string list \<Rightarrow> (lfs, storage_error, unit) effect" where
  "remove_file path = bindSE may_fail (\<lambda>_. on_root (del_file path) NotFound)"

definition read_file :: "string list \<Rightarrow> (lfs, storage_error, bytes) effect" where
  "read_file path =
     bindSE may_fail (\<lambda>_ s.
       case root_node s of
         None \<Rightarrow> (Inl (Io NotFound), s)
       | Some t \<Rightarrow> (case lookup_path t path of
                     Some (FileN b) \<Rightarrow> (Inr b, s)
                   | None \<Rightarrow> (Inl (Io NotFound), s)
                   | Some _ \<Rightarrow> (Inl (Io OtherIo), s)))"

text \<open>The loop of \<open>sync_containing_directory_chain\<close> changes no visible name.\<close>

definition sync_chain :: "(lfs, storage_error, unit) effect" where
  "sync_chain = may_fail"

section \<open>Operations\<close>

definition lfs_get :: "string \<Rightarrow> (lfs, storage_error, bytes) effect" where
  "lfs_get key =
     bindSE (liftSE (validate_key key)) (\<lambda>_.
     bindSE (validate_existing_key_path key False) (\<lambda>_.
     read_file (path_of key)))"

definition lfs_get_range :: "string \<Rightarrow> nat \<Rightarrow> nat \<Rightarrow> (lfs, storage_error, bytes) effect" where
  "lfs_get_range key start stop =
     bindSE (liftSE (validate_key key)) (\<lambda>_.
     bindSE (validate_existing_key_path key False) (\<lambda>_.
     bindSE (read_file (path_of key)) (\<lambda>b.
       case checked_sub stop start of
         None \<Rightarrow> throwSE (Io InvalidInput)
       | Some span \<Rightarrow> if stop \<le> length b then returnSE (take span (drop start b))
                      else throwSE (Io InvalidInput))))"

definition lfs_put :: "string \<Rightarrow> bytes \<Rightarrow> (lfs, storage_error, unit) effect" where
  "lfs_put key b =
     bindSE (liftSE (validate_key key)) (\<lambda>_.
     bindSE (validate_existing_key_path key True) (\<lambda>_.
     bindSE (create_dir_all (butlast (path_of key))) (\<lambda>_ s.
       case tmp_path_for (path_of key) s of (tmp, s1) \<Rightarrow>
         bindSE (write_tmp tmp b) (\<lambda>_.
         bindSE (rename_file tmp (path_of key) b) (\<lambda>_.
         sync_chain)) s1)))"

definition lfs_put_if_absent :: "string \<Rightarrow> bytes \<Rightarrow> (lfs, storage_error, unit) effect" where
  "lfs_put_if_absent key b =
     bindSE (liftSE (validate_key key)) (\<lambda>_.
     bindSE (validate_existing_key_path key True) (\<lambda>_.
     bindSE (create_dir_all (butlast (path_of key))) (\<lambda>_ s.
       case tmp_path_for (path_of key) s of (tmp, s1) \<Rightarrow>
         bindSE (write_tmp tmp b) (\<lambda>_ s2.
           case hard_link (path_of key) b s2 of (link_result, s3) \<Rightarrow>
             let s4 = snd (remove_file tmp s3) in
             case link_result of
               Inr _ \<Rightarrow> sync_chain s4
             | Inl (Io IoExists) \<Rightarrow> (Inl (AlreadyExists key), s4)
             | Inl e \<Rightarrow> (Inl e, s4)) s1)))"

fun walk :: "string list \<Rightarrow> string \<Rightarrow> (string \<times> fs_node) list \<Rightarrow> (storage_error, object_meta list) result" where
  "walk dir p [] = Inr []"
| "walk dir p ((c, SymlinkN) # es) = Inl (Io InvalidInput)"
| "walk dir p ((c, FileN b) # es) =
     (let key = key_of (dir @ [c]) in
      bindE (walk dir p es) (\<lambda>rest. Inr (if prefix p key then (key, length b) # rest else rest)))"
| "walk dir p ((c, DirN sub) # es) =
     (let sub_key = key_of (dir @ [c]) in
      bindE (if prefix p sub_key \<or> prefix sub_key p then walk (dir @ [c]) p sub else Inr [])
        (\<lambda>found. bindE (walk dir p es) (\<lambda>rest. Inr (found @ rest))))"

definition lfs_list :: "string \<Rightarrow> (lfs, storage_error, object_meta list) effect" where
  "lfs_list p =
     bindSE (validate_list_prefix p) (\<lambda>present.
       if \<not> present then returnSE []
       else bindSE may_fail (\<lambda>_ s.
         case root_node s of
           Some (DirN es) \<Rightarrow> (bindE (walk [] p es) (\<lambda>found. Inr (sort_key fst found)), s)
         | _ \<Rightarrow> (Inl (Io OtherIo), s)))"

definition lfs_delete :: "string \<Rightarrow> (lfs, storage_error, unit) effect" where
  "lfs_delete key =
     bindSE (liftSE (validate_key key)) (\<lambda>_.
     bindSE (validate_existing_key_path key False) (\<lambda>_.
     bindSE (remove_file (path_of key)) (\<lambda>_.
     sync_chain)))"

definition local_fs :: "lfs backend" where
  "local_fs =
     \<lparr> be_get = lfs_get, be_get_range = lfs_get_range, be_put = lfs_put,
       be_put_if_absent = lfs_put_if_absent, be_list = lfs_list, be_delete = lfs_delete \<rparr>"

section \<open>What a reader sees\<close>

definition file_at :: "fs_node \<Rightarrow> string list \<Rightarrow> bytes option" where
  "file_at t path = (case lookup_path t path of Some (FileN b) \<Rightarrow> Some b | _ \<Rightarrow> None)"

lemma file_at_DirN [simp]:
  "file_at (DirN es) [] = None"
  "file_at (DirN es) (c # cs) = (case map_of es c of None \<Rightarrow> None | Some m \<Rightarrow> file_at m cs)"
  by (auto simp: file_at_def split: option.splits)

lemma file_at_FileN [simp]: "file_at (FileN b) cs = (if cs = [] then Some b else None)"
  by (cases cs) (auto simp: file_at_def)

lemma file_at_SymlinkN [simp]: "file_at SymlinkN cs = None"
  by (cases cs) (auto simp: file_at_def)

lemma file_at_empty_dir [simp]: "file_at (DirN []) cs = None"
  by (cases cs) auto

lemma mkdirs_file_at: "mkdirs cs t = Some t' \<Longrightarrow> file_at t' q = file_at t q"
proof (induction cs t arbitrary: t' q rule: mkdirs.induct)
  case (2 c cs es)
  then obtain m' where m': "mkdirs cs (case map_of es c of None \<Rightarrow> DirN [] | Some m \<Rightarrow> m) = Some m'"
    and t': "t' = DirN (AList.update c m' es)"
    by (auto split: option.splits)
  show ?case
    using 2(1) [OF m'] t' by (cases q) (auto simp: update_conv' split: option.splits)
qed auto

lemma put_file_file_at:
  "put_file p b t = Some t' \<Longrightarrow> file_at t' q = (if q = p then Some b else file_at t q)"
proof (induction p b t arbitrary: t' q rule: put_file.induct)
  case (1 c b es)
  then show ?case
    by (cases q) (auto simp: update_conv' split: option.splits fs_node.splits)
next
  case (2 c c' cs b es)
  then obtain m m' where m: "map_of es c = Some m" "put_file (c' # cs) b m = Some m'"
    and t': "t' = DirN (AList.update c m' es)"
    by (auto split: option.splits)
  show ?case
    using 2(1) [OF m] t' m(1) by (cases q) (auto simp: update_conv')
qed auto

lemma del_file_file_at:
  "del_file p t = Some t' \<Longrightarrow> file_at t p \<noteq> None \<and> file_at t' q = (if q = p then None else file_at t q)"
proof (induction p t arbitrary: t' q rule: del_file.induct)
  case (1 c es)
  then show ?case
    by (cases q) (auto simp: delete_conv' split: option.splits fs_node.splits)
next
  case (2 c c' cs es)
  then obtain m m' where m: "map_of es c = Some m" "del_file (c' # cs) m = Some m'"
    and t': "t' = DirN (AList.update c m' es)"
    by (auto split: option.splits)
  show ?case
    using 2(1) [OF m] t' m(1) by (cases q) (auto simp: update_conv')
qed auto

section \<open>Well-formed trees\<close>

definition good_name :: "string \<Rightarrow> bool" where
  "good_name c \<longleftrightarrow> \<not> unsafe_segment c \<and> CHR ''/'' \<notin> set c \<and> CHR 0x5C \<notin> set c"

fun wf_node :: "fs_node \<Rightarrow> bool" where
  "wf_node (FileN b) = True"
| "wf_node SymlinkN = True"
| "wf_node (DirN es) =
     (distinct (map fst es) \<and> (\<forall>e\<in>set es. good_name (fst e) \<and> wf_node (snd e)))"

lemma wf_map_of: "wf_node (DirN es) \<Longrightarrow> map_of es c = Some m \<Longrightarrow> good_name c \<and> wf_node m"
  by (auto dest!: map_of_SomeD)

lemma wf_update:
  assumes "wf_node (DirN es)" "good_name c" "wf_node m"
  shows "wf_node (DirN (AList.update c m es))"
proof -
  have "distinct (map fst (AList.update c m es))"
    using assms(1) by (simp add: distinct_update)
  moreover have "good_name (fst e) \<and> wf_node (snd e)" if "e \<in> set (AList.update c m es)" for e
  proof -
    have "map_of (AList.update c m es) (fst e) = Some (snd e)"
      using that \<open>distinct (map fst (AList.update c m es))\<close> by simp
    then show ?thesis
      using assms wf_map_of [OF assms(1), of "fst e" "snd e"]
      by (auto simp: update_conv' split: if_splits)
  qed
  ultimately show ?thesis by simp
qed

lemma wf_delete: "wf_node (DirN es) \<Longrightarrow> wf_node (DirN (AList.delete c es))"
  using AList.distinct_delete [of es c] by (auto simp: AList.delete_eq)

declare wf_node.simps(3) [simp del]

lemma wf_empty_dir [simp]: "wf_node (DirN [])"
  by (simp add: wf_node.simps(3))

lemma mkdirs_wf:
  "mkdirs cs t = Some t' \<Longrightarrow> wf_node t \<Longrightarrow> \<forall>c\<in>set cs. good_name c \<Longrightarrow> wf_node t'"
proof (induction cs t arbitrary: t' rule: mkdirs.induct)
  case (2 c cs es)
  then obtain m' where m': "mkdirs cs (case map_of es c of None \<Rightarrow> DirN [] | Some m \<Rightarrow> m) = Some m'"
    and t': "t' = DirN (AList.update c m' es)"
    by (auto split: option.splits)
  have "wf_node (case map_of es c of None \<Rightarrow> DirN [] | Some m \<Rightarrow> m)"
    using wf_map_of [OF 2(3)] by (auto split: option.splits)
  then have "wf_node m'" using 2(1) [OF m'] 2(4) by simp
  then show ?case using t' wf_update [OF 2(3)] 2(4) by simp
qed auto

lemma put_file_wf:
  "put_file p b t = Some t' \<Longrightarrow> wf_node t \<Longrightarrow> \<forall>c\<in>set p. good_name c \<Longrightarrow> wf_node t'"
proof (induction p b t arbitrary: t' rule: put_file.induct)
  case (1 c b es)
  then have "t' = DirN (AList.update c (FileN b) es)"
    by (auto split: option.splits fs_node.splits)
  then show ?case using wf_update [OF 1(2)] 1(3) by simp
next
  case (2 c c' cs b es)
  then obtain m m' where m: "map_of es c = Some m" "put_file (c' # cs) b m = Some m'"
    and t': "t' = DirN (AList.update c m' es)"
    by (auto split: option.splits)
  have "wf_node m'" using 2(1) [OF m] wf_map_of [OF 2(3) m(1)] 2(4) by simp
  then show ?case using t' wf_update [OF 2(3)] 2(4) by simp
qed auto

lemma del_file_wf: "del_file p t = Some t' \<Longrightarrow> wf_node t \<Longrightarrow> wf_node t'"
proof (induction p t arbitrary: t' rule: del_file.induct)
  case (1 c es)
  then have "t' = DirN (AList.delete c es)"
    by (auto split: option.splits fs_node.splits)
  then show ?case using wf_delete [OF 1(2)] by simp
next
  case (2 c c' cs es)
  then obtain m m' where m: "map_of es c = Some m" "del_file (c' # cs) m = Some m'"
    and t': "t' = DirN (AList.update c m' es)"
    by (auto split: option.splits)
  have "wf_node m'" "good_name c" using 2(1) [OF m] wf_map_of [OF 2(3) m(1)] by auto
  then show ?case using t' wf_update [OF 2(3)] by simp
qed auto

section \<open>Effects of the system calls\<close>

definition files :: "lfs \<Rightarrow> string list \<Rightarrow> bytes option" where
  "files s path = (case root_node s of None \<Rightarrow> None | Some t \<Rightarrow> file_at t path)"

definition lfs_good :: "lfs \<Rightarrow> bool" where
  "lfs_good s \<longleftrightarrow> (\<forall>t. root_node s = Some t \<longrightarrow> wf_node t)"

definition lfs_content :: "lfs \<Rightarrow> string \<Rightarrow> bytes option" where
  "lfs_content s k = (if validate_key k = Inr () then files s (path_of k) else None)"

lemma take_fault_root: "take_fault s = (f, t) \<Longrightarrow> root_node t = root_node s"
  by (auto simp: take_fault_def split: list.splits)

lemma may_fail_root: "may_fail s = (r, t) \<Longrightarrow> root_node t = root_node s"
  by (auto simp: may_fail_def take_fault_root split: prod.splits option.splits fault.splits
      dest: take_fault_root)

lemma validate_root_root: "validate_root s = (r, t) \<Longrightarrow> root_node t = root_node s"
  by (auto simp: validate_root_def bindSE_def split: prod.splits sum.splits option.splits fs_node.splits
      dest: may_fail_root)

lemma validate_existing_root: "validate_existing_key_path k b s = (r, t) \<Longrightarrow> root_node t = root_node s"
  by (auto simp: validate_existing_key_path_def bindSE_def split: prod.splits sum.splits option.splits if_splits
      dest: validate_root_root)

lemma validate_list_root: "validate_list_prefix p s = (r, t) \<Longrightarrow> root_node t = root_node s"
  by (auto simp: validate_list_prefix_def bindSE_def split: prod.splits sum.splits option.splits if_splits
      dest: validate_root_root)

lemma read_file_root: "read_file p s = (r, t) \<Longrightarrow> root_node t = root_node s"
  by (auto simp: read_file_def bindSE_def split: prod.splits sum.splits option.splits fs_node.splits
      dest: may_fail_root)

lemma read_file_ok: "read_file p s = (Inr b, t) \<Longrightarrow> files s p = Some b"
  by (auto simp: read_file_def bindSE_def files_def file_at_def
      split: prod.splits sum.splits option.splits fs_node.splits dest: may_fail_root)

lemma sync_chain_root: "sync_chain s = (r, t) \<Longrightarrow> root_node t = root_node s"
  by (simp add: sync_chain_def may_fail_root)

lemma same_root:
  "root_node t = root_node s \<Longrightarrow> files t = files s"
  "root_node t = root_node s \<Longrightarrow> lfs_good t = lfs_good s"
  by (auto simp: files_def lfs_good_def)

lemma on_root_ok:
  "on_root f k s = (Inr u, t) \<Longrightarrow>
   \<exists>n n'. root_node s = Some n \<and> f n = Some n' \<and> root_node t = Some n'"
  by (auto simp: on_root_def split: option.splits)

lemma on_root_err: "on_root f k s = (Inl e, t) \<Longrightarrow> t = s"
  by (auto simp: on_root_def split: option.splits)

lemma on_root_mkdirs:
  assumes "on_root (mkdirs p) k s = (r, t)" "lfs_good s" "\<forall>c\<in>set p. good_name c"
  shows "files t = files s \<and> lfs_good t"
proof (cases r)
  case (Inl e)
  then show ?thesis using assms on_root_err by blast
next
  case (Inr u)
  then obtain n n' where "root_node s = Some n" "mkdirs p n = Some n'" "root_node t = Some n'"
    using assms(1) on_root_ok by blast
  then show ?thesis
    using assms(2,3) mkdirs_file_at [of p n n'] mkdirs_wf [of p n n']
    by (auto simp: files_def lfs_good_def fun_eq_iff)
qed

lemma on_root_put_file:
  assumes "on_root (put_file p b) k s = (r, t)" "lfs_good s" "\<forall>c\<in>set p. good_name c"
  shows "lfs_good t \<and> (\<forall>q. q \<noteq> p \<longrightarrow> files t q = files s q) \<and>
    (case r of Inl _ \<Rightarrow> root_node t = root_node s | Inr _ \<Rightarrow> files t p = Some b)"
proof (cases r)
  case (Inl e)
  then have "t = s" using assms(1) by (auto dest: on_root_err)
  then show ?thesis using Inl assms(2) by simp
next
  case (Inr u)
  then obtain n n' where "root_node s = Some n" "put_file p b n = Some n'" "root_node t = Some n'"
    using assms(1) on_root_ok by blast
  then show ?thesis
    using assms(2,3) put_file_file_at [of p b n n'] put_file_wf [of p b n n'] Inr
    by (auto simp: files_def lfs_good_def)
qed

lemma on_root_del_file:
  assumes "on_root (del_file p) k s = (r, t)" "lfs_good s"
  shows "lfs_good t \<and> (\<forall>q. q \<noteq> p \<longrightarrow> files t q = files s q) \<and>
    (case r of Inl _ \<Rightarrow> root_node t = root_node s | Inr _ \<Rightarrow> files s p \<noteq> None \<and> files t p = None)"
proof (cases r)
  case (Inl e)
  then have "t = s" using assms(1) by (auto dest: on_root_err)
  then show ?thesis using Inl assms(2) by simp
next
  case (Inr u)
  then obtain n n' where "root_node s = Some n" "del_file p n = Some n'" "root_node t = Some n'"
    using assms(1) on_root_ok by blast
  then show ?thesis
    using assms(2) del_file_file_at [of p n n'] del_file_wf [of p n n'] Inr
    by (auto simp: files_def lfs_good_def)
qed

lemma create_dir_all_frame:
  assumes "create_dir_all p s = (r, t)" "lfs_good s" "\<forall>c\<in>set p. good_name c"
  shows "files t = files s \<and> lfs_good t"
proof -
  obtain f s1 where f: "take_fault s = (f, s1)" by (cases "take_fault s")
  note s1 = same_root [OF take_fault_root [OF f]]
  have "\<exists>q r'. set q \<subseteq> set p \<and> on_root (mkdirs q) OtherIo s1 = (r', t)"
  proof (cases f)
    case None
    then show ?thesis using assms(1) f by (auto simp: create_dir_all_def)
  next
    case (Some x)
    then obtain k prog where "f = Some (Fault k prog)" by (cases x) auto
    then show ?thesis using assms(1) f
      by (cases "on_root (mkdirs (take prog p)) OtherIo s1")
        (auto simp: create_dir_all_def intro!: exI [of _ "take prog p"] dest: in_set_takeD)
  qed
  then obtain q r' where q: "set q \<subseteq> set p" "on_root (mkdirs q) OtherIo s1 = (r', t)" by blast
  show ?thesis using on_root_mkdirs [OF q(2)] s1 assms(2,3) q(1) by auto
qed

lemma write_tmp_frame:
  assumes "write_tmp p b s = (r, t)" "lfs_good s" "\<forall>c\<in>set p. good_name c"
  shows "lfs_good t \<and> (\<forall>q. q \<noteq> p \<longrightarrow> files t q = files s q) \<and> (\<forall>u. r = Inr u \<longrightarrow> files t p = Some b)"
proof -
  obtain f s1 where f: "take_fault s = (f, s1)" by (cases "take_fault s")
  note s1 = same_root [OF take_fault_root [OF f]]
  consider "f = None" | k where "f = Some (Fault k 0)" | k prog where "f = Some (Fault k (Suc prog))"
    by (metis fault.exhaust nat.exhaust option.exhaust)
  then show ?thesis
  proof cases
    case 1
    then show ?thesis
      using assms f s1 on_root_put_file [of p b OtherIo s1 r t] by (auto simp: write_tmp_def)
  next
    case 2
    then show ?thesis using assms f s1 by (auto simp: write_tmp_def)
  next
    case 3
    obtain r' where "on_root (put_file p (take prog b)) OtherIo s1 = (r', t)" "\<exists>e. r = Inl e"
      using assms(1) f 3
      by (cases "on_root (put_file p (take prog b)) OtherIo s1") (auto simp: write_tmp_def)
    then show ?thesis
      using assms s1 on_root_put_file [of p "take prog b" OtherIo s1 r' t] by auto
  qed
qed

lemma bind_may_fail:
  assumes "bindSE may_fail f s = (r, t)"
  obtains (failed) e where "r = Inl e" "root_node t = root_node s"
  | (passed) s1 where "root_node s1 = root_node s" "f () s1 = (r, t)"
proof -
  obtain m s1 where m: "may_fail s = (m, s1)" by (cases "may_fail s")
  show ?thesis
  proof (cases m)
    case (Inl e)
    then have "r = Inl e" "t = s1" using assms m by (simp_all add: bindSE_def)
    then show ?thesis using failed may_fail_root [OF m] by blast
  next
    case (Inr u)
    then have "f () s1 = (r, t)" using assms m by (simp add: bindSE_def)
    then show ?thesis using passed may_fail_root [OF m] by blast
  qed
qed

lemma rename_frame:
  assumes "rename_file src dst b s = (r, t)" "lfs_good s" "\<forall>c\<in>set dst. good_name c"
  shows "lfs_good t \<and> (\<forall>q. q \<noteq> src \<longrightarrow> q \<noteq> dst \<longrightarrow> files t q = files s q) \<and>
    (case r of Inl _ \<Rightarrow> root_node t = root_node s | Inr _ \<Rightarrow> files t dst = Some b)"
  using assms(1) unfolding rename_file_def
proof (cases rule: bind_may_fail)
  case (failed e)
  then show ?thesis using assms(2) same_root [OF failed(2)] by simp
next
  case (passed s1)
  show ?thesis
  proof (cases r)
    case (Inl e)
    then have "t = s1" using passed(2) by (auto dest: on_root_err)
    then show ?thesis using Inl passed(1) same_root [OF passed(1)] assms(2) by simp
  next
    case (Inr u)
    then obtain n n2 where n: "root_node s1 = Some n" "root_node t = Some n2"
        "(case del_file src n of None \<Rightarrow> None | Some t' \<Rightarrow> put_file dst b t') = Some n2"
      using on_root_ok passed(2) by blast
    then obtain n1 where n1: "del_file src n = Some n1" "put_file dst b n1 = Some n2"
      by (auto split: option.splits)
    have wf: "wf_node n" using assms(2) passed(1) n(1) by (simp add: lfs_good_def)
    have "files t q = (if q = dst then Some b else if q = src then None else files s q)" for q
      using put_file_file_at [OF n1(2), of q] del_file_file_at [OF n1(1), of q] n passed(1)
      by (simp add: files_def)
    moreover have "lfs_good t"
      using put_file_wf [OF n1(2) del_file_wf [OF n1(1) wf] assms(3)] n(2) by (simp add: lfs_good_def)
    ultimately show ?thesis using Inr by simp
  qed
qed

lemma hard_link_frame:
  assumes "hard_link dst b s = (r, t)" "lfs_good s" "\<forall>c\<in>set dst. good_name c"
  shows "lfs_good t \<and> (\<forall>q. q \<noteq> dst \<longrightarrow> files t q = files s q) \<and>
    (case r of Inl _ \<Rightarrow> root_node t = root_node s | Inr _ \<Rightarrow> files s dst = None \<and> files t dst = Some b)"
  using assms(1) unfolding hard_link_def
proof (cases rule: bind_may_fail)
  case (failed e)
  then show ?thesis using assms(2) same_root [OF failed(2)] by simp
next
  case (passed s1)
  note s1 = same_root [OF passed(1)]
  show ?thesis
  proof (cases "\<exists>n. root_node s1 = Some n \<and> lookup_path n dst = None")
    case True
    then have "on_root (put_file dst b) OtherIo s1 = (r, t)" "files s dst = None"
      using passed by (auto simp: files_def file_at_def)
    then show ?thesis
      using on_root_put_file [of dst b OtherIo s1 r t] s1 passed(1) assms(2,3) by (auto split: sum.splits)
  next
    case False
    then have "t = s1 \<and> (\<exists>e. r = Inl e)"
      using passed(2) by (auto split: option.splits if_splits)
    then show ?thesis using s1 passed(1) assms(2) by auto
  qed
qed

lemma remove_file_frame:
  assumes "remove_file p s = (r, t)" "lfs_good s"
  shows "lfs_good t \<and> (\<forall>q. q \<noteq> p \<longrightarrow> files t q = files s q) \<and>
    (case r of Inl _ \<Rightarrow> root_node t = root_node s | Inr _ \<Rightarrow> files s p \<noteq> None \<and> files t p = None)"
  using assms(1) unfolding remove_file_def
proof (cases rule: bind_may_fail)
  case (failed e)
  then show ?thesis using assms(2) same_root [OF failed(2)] by simp
next
  case (passed s1)
  from on_root_del_file [OF passed(2)] show ?thesis
    using same_root [OF passed(1)] passed(1) assms(2) by (auto split: sum.splits)
qed

section \<open>Keys of well-formed trees\<close>

lemma set_split_on: "x \<in> set (split_on c s) \<Longrightarrow> set x \<subseteq> set s"
proof (induction s arbitrary: x)
  case (Cons a s)
  obtain y ys where "split_on c s = y # ys"
    using split_on_not_Nil [of c s] by (cases "split_on c s") auto
  with Cons show ?case by (fastforce split: if_splits)
qed simp

lemma set_join_with: "set (join_with c xs) \<subseteq> insert c (\<Union>x\<in>set xs. set x)"
  by (induction c xs rule: join_with.induct) auto

lemma valid_path_names: "valid_key k \<Longrightarrow> \<forall>c\<in>set (path_of k). good_name c"
  using split_on_no_sep_in [of _ "CHR ''/''" k] set_split_on [of _ "CHR ''/''" k]
  by (fastforce simp: valid_key_iff good_name_def)

lemma safe_segments:
  "\<forall>x\<in>set xs. \<not> unsafe_segment x \<Longrightarrow> concat (map segment_component xs) = map Normal xs"
  by (induction xs) (auto simp: segment_component_def unsafe_segment_def)

lemma path_components_valid:
  assumes "valid_key k"
  shows "path_components k = map Normal (path_of k)"
proof -
  have safe: "\<not> unsafe_segment x" if "x \<in> set (path_of k)" for x
    using assms that by (auto simp: valid_key_iff)
  then have "concat (map segment_component (path_of k)) = map Normal (path_of k)"
    by (simp add: safe_segments)
  moreover have "hd (path_of k) \<noteq> ''.''" "\<not> prefix ''/'' k"
    using safe [of "hd (path_of k)"] safe [of "[]"]
    by (auto simp: unsafe_segment_def prefix_def)
  ultimately show ?thesis by (simp add: path_components_def Let_def)
qed

lemma validate_key_iff: "validate_key k = Inr () \<longleftrightarrow> valid_key k"
proof
  assume "validate_key k = Inr ()"
  then show "valid_key k"
    by (auto simp: validate_key_def valid_key_iff list_ex_iff split: if_splits)
next
  assume v: "valid_key k"
  then show "validate_key k = Inr ()"
    by (simp add: validate_key_def path_components_valid list_ex_iff)
      (auto simp: valid_key_iff)
qed

lemma key_of_valid:
  assumes "path \<noteq> []" "\<forall>c\<in>set path. good_name c"
  shows "valid_key (key_of path)" and "path_of (key_of path) = path"
proof -
  show eq: "path_of (key_of path) = path"
    using assms by (intro split_join_with) (auto simp: good_name_def)
  have "key_of path \<noteq> []"
  proof
    assume "key_of path = []"
    then have "path = [[]]" using eq by simp
    then show False using assms(2) by (simp add: good_name_def unsafe_segment_def)
  qed
  moreover have "CHR 0x5C \<notin> set (key_of path)"
  proof
    assume "CHR 0x5C \<in> set (key_of path)"
    then have "CHR 0x5C \<in> insert (CHR ''/'') (\<Union>x\<in>set path. set x)"
      by (rule subsetD [OF set_join_with])
    then show False using assms(2) by (auto simp: good_name_def)
  qed
  moreover have "\<forall>x\<in>set path. \<not> unsafe_segment x" using assms(2) by (simp add: good_name_def)
  ultimately show "valid_key (key_of path)" unfolding valid_key_iff eq by blast
qed

lemma key_of_inject:
  assumes "\<forall>c\<in>set xs \<union> set ys. good_name c" "xs \<noteq> []" "ys \<noteq> []"
  shows "key_of xs = key_of ys \<longleftrightarrow> xs = ys"
proof -
  have "path_of (key_of xs) = xs" "path_of (key_of ys) = ys"
    by (rule key_of_valid(2); use assms in simp)+
  then show ?thesis by metis
qed

lemma file_at_names: "file_at t path = Some b \<Longrightarrow> wf_node t \<Longrightarrow> \<forall>c\<in>set path. good_name c"
proof (induction path arbitrary: t)
  case (Cons c cs)
  then obtain es m where "t = DirN es" "map_of es c = Some m" "file_at m cs = Some b"
    by (cases t) (auto split: option.splits)
  then show ?case using Cons wf_map_of [of es c m] by auto
qed simp

section \<open>The pruned walk\<close>

lemma wf_Cons:
  "wf_node (DirN ((c, m) # es)) \<longleftrightarrow> good_name c \<and> wf_node m \<and> c \<notin> fst ` set es \<and> wf_node (DirN es)"
  by (auto simp: wf_node.simps(3))

lemma file_at_Cons:
  "c \<notin> fst ` set es \<Longrightarrow>
   file_at (DirN ((c, m) # es)) path = Some b \<longleftrightarrow>
   (\<exists>ds. path = c # ds \<and> file_at m ds = Some b) \<or> file_at (DirN es) path = Some b"
  using map_of_eq_None_iff [of es c] by (cases path) (auto split: option.splits)

definition walk_spec ::
  "string list \<Rightarrow> string \<Rightarrow> (string \<times> fs_node) list \<Rightarrow> string \<Rightarrow> nat \<Rightarrow> bool" where
  "walk_spec dir p es k n \<longleftrightarrow>
     (\<exists>path b. file_at (DirN es) path = Some b \<and> k = key_of (dir @ path) \<and> prefix p k \<and> n = length b)"

lemma walk_spec_Cons:
  assumes "c \<notin> fst ` set es"
  shows "walk_spec dir p ((c, m) # es) k n \<longleftrightarrow>
    (\<exists>ds b. file_at m ds = Some b \<and> k = key_of (dir @ c # ds) \<and> prefix p k \<and> n = length b) \<or>
    walk_spec dir p es k n"
  unfolding walk_spec_def file_at_Cons [OF assms] by blast

lemma pruned_subtree_empty:
  assumes "\<not> (prefix p (key_of (dir @ [c])) \<or> prefix (key_of (dir @ [c])) p)"
    "file_at (DirN sub) ds = Some b"
  shows "\<not> prefix p (key_of (dir @ c # ds))"
proof -
  have "ds \<noteq> []" using assms(2) by auto
  then have "key_of (dir @ c # ds) = key_of (dir @ [c]) @ CHR ''/'' # key_of ds"
    using join_with_append [of "dir @ [c]" ds "CHR ''/''"] by simp
  then show ?thesis using assms(1) prefix_same_cases by (metis prefixI)
qed

lemma walk_exact:
  "walk dir p es = Inr ms \<Longrightarrow> wf_node (DirN es) \<Longrightarrow> (k, n) \<in> set ms \<longleftrightarrow> walk_spec dir p es k n"
proof (induction dir p es arbitrary: ms rule: walk.induct)
  case (1 dir p)
  then show ?case by (simp add: walk_spec_def)
next
  case (3 dir p c b es)
  then obtain rest where r: "walk dir p es = Inr rest"
    and ms: "ms = (if prefix p (key_of (dir @ [c])) then (key_of (dir @ [c]), length b) # rest else rest)"
    by (auto simp: Let_def result_simps)
  have wf: "c \<notin> fst ` set es" "wf_node (DirN es)" using 3(3) by (auto simp: wf_Cons)
  show ?case
    using 3(1) [OF refl r wf(2)] ms by (auto simp: walk_spec_Cons [OF wf(1)] split: if_splits)
next
  case (4 dir p c sub es)
  let ?go = "prefix p (key_of (dir @ [c])) \<or> prefix (key_of (dir @ [c])) p"
  obtain found rest where f: "(if ?go then walk (dir @ [c]) p sub else Inr []) = Inr found"
    and r: "walk dir p es = Inr rest" and ms: "ms = found @ rest"
    using 4(3) by (auto simp: Let_def result_simps simp del: if_split)
  have wf: "c \<notin> fst ` set es" "wf_node (DirN es)" "wf_node (DirN sub)" using 4(4) by (auto simp: wf_Cons)
  have "(k, n) \<in> set found \<longleftrightarrow>
    (\<exists>ds b. file_at (DirN sub) ds = Some b \<and> k = key_of (dir @ c # ds) \<and> prefix p k \<and> n = length b)"
  proof (cases ?go)
    case True
    then show ?thesis using 4(1) [OF refl True _ wf(3)] f by (simp add: walk_spec_def)
  next
    case False
    then show ?thesis using pruned_subtree_empty [OF False] f by auto
  qed
  then show ?case
    using 4(2) [OF refl r wf(2)] ms walk_spec_Cons [OF wf(1)] by auto
qed simp

lemma walk_distinct:
  "walk dir p es = Inr ms \<Longrightarrow> wf_node (DirN es) \<Longrightarrow> \<forall>c\<in>set dir. good_name c \<Longrightarrow> distinct (map fst ms)"
proof (induction dir p es arbitrary: ms rule: walk.induct)
  case (3 dir p c b es)
  then obtain rest where r: "walk dir p es = Inr rest"
    and ms: "ms = (if prefix p (key_of (dir @ [c])) then (key_of (dir @ [c]), length b) # rest else rest)"
    by (auto simp: Let_def result_simps)
  have wf: "c \<notin> fst ` set es" "wf_node (DirN es)" "good_name c" using 3(3) by (auto simp: wf_Cons)
  have "key_of (dir @ [c]) \<notin> fst ` set rest"
  proof
    assume "key_of (dir @ [c]) \<in> fst ` set rest"
    then obtain path b' where f: "file_at (DirN es) path = Some b'" "key_of (dir @ [c]) = key_of (dir @ path)"
      using walk_exact [OF r wf(2)] by (auto simp: walk_spec_def)
    then have "path = [c]"
      using key_of_inject [of "dir @ [c]" "dir @ path"] file_at_names [OF f(1) wf(2)] wf(3) 3(4)
      by (cases path) auto
    then show False using f(1) wf(1) map_of_eq_None_iff [of es c] by (auto split: option.splits)
  qed
  then show ?case using 3(1) [OF refl r wf(2)] 3(4) ms by simp
next
  case (4 dir p c sub es)
  let ?go = "prefix p (key_of (dir @ [c])) \<or> prefix (key_of (dir @ [c])) p"
  obtain found rest where f: "(if ?go then walk (dir @ [c]) p sub else Inr []) = Inr found"
    and r: "walk dir p es = Inr rest" and ms: "ms = found @ rest"
    using 4(3) by (auto simp: Let_def result_simps simp del: if_split)
  have wf: "c \<notin> fst ` set es" "wf_node (DirN es)" "wf_node (DirN sub)" "good_name c"
    using 4(4) by (auto simp: wf_Cons)
  have "fst ` set found \<inter> fst ` set rest = {}"
  proof (rule ccontr)
    assume "\<not> ?thesis"
    then obtain k m n where kk: "(k, m) \<in> set found" "(k, n) \<in> set rest" by force
    then obtain ds b where d: "file_at (DirN sub) ds = Some b" "k = key_of (dir @ c # ds)"
      using f walk_exact [of "dir @ [c]" p sub found k m] wf(3)
      by (auto simp: walk_spec_def split: if_splits)
    obtain path b' where e: "file_at (DirN es) path = Some b'" "k = key_of (dir @ path)"
      using kk(2) walk_exact [OF r wf(2)] by (auto simp: walk_spec_def)
    have "path = c # ds"
      using key_of_inject [of "dir @ c # ds" "dir @ path"] d e wf(4) 4(5)
        file_at_names [OF e(1) wf(2)] file_at_names [OF d(1) wf(3)]
      by (cases path) auto
    then show False using e(1) wf(1) map_of_eq_None_iff [of es c] by (auto split: option.splits)
  qed
  moreover have "distinct (map fst found)"
    using f 4(1) [OF refl _ _ wf(3)] 4(5) wf(4) by (auto split: if_splits)
  ultimately show ?case using 4(2) [OF refl r wf(2)] 4(5) ms by auto
qed auto

section \<open>The contract holds\<close>

lemma digits_good: "list_all is_ascii_digit s \<Longrightarrow> CHR ''/'' \<notin> set s \<and> CHR 0x5C \<notin> set s"
  by (auto simp: list_all_iff is_ascii_digit_def)

lemma tmp_path_good:
  assumes "tmp_path_for final s = (tmp, s1)" "final \<noteq> []" "\<forall>c\<in>set final. good_name c"
  shows "(\<forall>c\<in>set tmp. good_name c) \<and> prefix ''.tmp-'' (last tmp) \<and> root_node s1 = root_node s"
proof -
  have "good_name (last final)" "\<forall>c\<in>set (butlast final). good_name c"
    using assms(2,3) by (auto dest: in_set_butlastD)
  moreover define name where
    "name = ''.tmp-'' @ dec (pid s) @ ''-'' @ dec (tmp_counter s) @ ''-'' @ last final"
  moreover have "CHR ''/'' \<notin> set name" "CHR 0x5C \<notin> set name"
    using \<open>good_name (last final)\<close> digits_good [OF dec_digits [of "pid s"]]
      digits_good [OF dec_digits [of "tmp_counter s"]]
    unfolding name_def good_name_def by simp_all
  moreover have "\<not> unsafe_segment name" "prefix ''.tmp-'' name"
    unfolding name_def unsafe_segment_def by simp_all
  moreover have "tmp = butlast final @ [name]" "root_node s1 = root_node s"
    using assms(1) unfolding tmp_path_for_def name_def by auto
  ultimately show ?thesis by (simp add: good_name_def)
qed

text \<open>What a publication leaves of the other names: everything that is not a temporary.\<close>

definition keeps_others :: "string list \<Rightarrow> lfs \<Rightarrow> lfs \<Rightarrow> bool" where
  "keeps_others path s t \<longleftrightarrow>
     (\<forall>q. q \<noteq> path \<longrightarrow> \<not> prefix ''.tmp-'' (last q) \<longrightarrow> files t q = files s q)"

lemma keeps_others_content:
  "keeps_others (path_of k) s t \<Longrightarrow> k' \<noteq> k \<Longrightarrow> \<not> temporary k' \<Longrightarrow> lfs_content t k' = lfs_content s k'"
  by (simp add: keeps_others_def lfs_content_def temporary_def split_on_inject)

lemma valid_content: "valid_key k \<Longrightarrow> lfs_content s k = files s (path_of k)"
  by (simp add: lfs_content_def validate_key_iff)

lemma prepare_publication:
  assumes "bindSE (liftSE (validate_key k)) (\<lambda>_.
      bindSE (validate_existing_key_path k True) (\<lambda>_.
      bindSE (create_dir_all (butlast (path_of k))) (\<lambda>_ s.
        case tmp_path_for (path_of k) s of (tmp, s1) \<Rightarrow> g tmp s1))) s = (r, t)"
    and "lfs_good s" "valid_key k"
  obtains (early) e where "r = Inl e" "files t = files s" "lfs_good t"
    "\<And>x. e \<noteq> AlreadyExists x"
  | (late) tmp s1 where "g tmp s1 = (r, t)" "files s1 = files s" "lfs_good s1"
      "\<forall>c\<in>set tmp. good_name c" "prefix ''.tmp-'' (last tmp)"
proof -
  have names: "\<forall>c\<in>set (path_of k). good_name c" by (rule valid_path_names [OF assms(3)])
  have names': "\<forall>c\<in>set (butlast (path_of k)). good_name c" using names by (auto dest: in_set_butlastD)
  have no_exists: "e \<noteq> AlreadyExists x"
    if "validate_existing_key_path k True u = (Inl e, v) \<or> create_dir_all q u = (Inl e, v)" for e u v q x
  proof -
    have "check_path n p \<noteq> Inl (AlreadyExists x)" for n p
      by (induction n p rule: check_path.induct) (auto split: option.splits fs_node.splits)
    then show ?thesis using that
      by (auto simp: validate_existing_key_path_def validate_root_def may_fail_def create_dir_all_def
          on_root_def bindSE_def split: prod.splits sum.splits option.splits fault.splits fs_node.splits if_splits)
  qed
  from assms(1) validate_key_iff [of k] assms(3)
  have *: "bindSE (validate_existing_key_path k True) (\<lambda>_.
      bindSE (create_dir_all (butlast (path_of k))) (\<lambda>_ s.
        case tmp_path_for (path_of k) s of (tmp, s1) \<Rightarrow> g tmp s1)) s = (r, t)"
    by (simp add: bindSE_def)
  show ?thesis
    using *
  proof (cases rule: bindSE_cases)
    case (failed e)
    note same = same_root [OF validate_existing_root [OF failed(1)]]
    have "\<And>x. e \<noteq> AlreadyExists x" using no_exists failed(1) by blast
    then show ?thesis using early failed(2) same assms(2) by blast
  next
    case (passed a u)
    note same = same_root [OF validate_existing_root [OF passed(1)]]
    from passed(2) show ?thesis
    proof (cases rule: bindSE_cases)
      case (failed e)
      have "files t = files u \<and> lfs_good t"
        using create_dir_all_frame [OF failed(1)] same(2) assms(2) names' by simp
      moreover have "\<And>x. e \<noteq> AlreadyExists x" using no_exists failed(1) by blast
      ultimately show ?thesis using early failed(2) same(1) by simp
    next
      case (passed a' v)
      have v: "files v = files u \<and> lfs_good v"
        using create_dir_all_frame [OF passed(1)] same(2) assms(2) names' by simp
      obtain tmp s1 where t1: "tmp_path_for (path_of k) v = (tmp, s1)"
        by (cases "tmp_path_for (path_of k) v")
      note g = tmp_path_good [OF t1 split_on_not_Nil names]
      show ?thesis
        by (rule late [of tmp s1])
          (use passed(2) t1 v same(1) g same_root [of s1 v] in auto)
    qed
  qed
qed

lemma lfs_put_correct:
  assumes "lfs_put k b s = (r, t)" "lfs_good s" "valid_key k" "\<not> temporary k"
  shows "lfs_good t \<and> keeps_others (path_of k) s t \<and>
    (files t (path_of k) = files s (path_of k) \<or> files t (path_of k) = Some b) \<and>
    (\<forall>u. r = Inr u \<longrightarrow> files t (path_of k) = Some b)"
proof -
  have names: "\<forall>c\<in>set (path_of k). good_name c" by (rule valid_path_names [OF assms(3)])
  from assms(1) [unfolded lfs_put_def] assms(2,3) show ?thesis
  proof (cases rule: prepare_publication)
    case (early e)
    then show ?thesis by (simp add: keeps_others_def)
  next
    case (late tmp s1)
    have ne: "path_of k \<noteq> tmp" using assms(4) late(5) by (auto simp: temporary_def)
    have nt: "q \<noteq> tmp" if "\<not> prefix ''.tmp-'' (last q)" for q using that late(5) by auto
    from late(1) show ?thesis
    proof (cases rule: bindSE_cases)
      case (failed e)
      show ?thesis
        using write_tmp_frame [OF failed(1) late(3,4)] late(2,5) ne failed(2)
        by (auto simp: keeps_others_def)
    next
      case (passed a u)
      note w = write_tmp_frame [OF passed(1) late(3,4)]
      have wf: "lfs_good u" and wo: "\<And>q. q \<noteq> tmp \<Longrightarrow> files u q = files s q"
        using w late(2) by auto
      from passed(2) show ?thesis
      proof (cases rule: bindSE_cases)
        case (failed e)
        note root = rename_frame [OF failed(1) wf names]
        then show ?thesis using wo nt ne failed(2) same_root [of t u]
          by (simp add: keeps_others_def)
      next
        case (passed a' v)
        note m = rename_frame [OF passed(1) wf names]
        note y = same_root [OF sync_chain_root [OF passed(2)]]
        show ?thesis using m y wo nt ne by (auto simp: keeps_others_def)
      qed
    qed
  qed
qed

lemma lfs_put_if_absent_correct:
  assumes "lfs_put_if_absent k b s = (r, t)" "lfs_good s" "valid_key k" "\<not> temporary k"
  shows "lfs_good t \<and> keeps_others (path_of k) s t \<and>
    (files t (path_of k) = files s (path_of k) \<or>
     files s (path_of k) = None \<and> files t (path_of k) = Some b) \<and>
    (\<forall>u. r = Inr u \<longrightarrow> files s (path_of k) = None \<and> files t (path_of k) = Some b) \<and>
    (\<forall>x. r = Inl (AlreadyExists x) \<longrightarrow> files t (path_of k) = files s (path_of k))"
proof -
  have names: "\<forall>c\<in>set (path_of k). good_name c" by (rule valid_path_names [OF assms(3)])
  from assms(1) [unfolded lfs_put_if_absent_def] assms(2,3) show ?thesis
  proof (cases rule: prepare_publication)
    case (early e)
    then show ?thesis by (simp add: keeps_others_def)
  next
    case (late tmp s1)
    have ne: "path_of k \<noteq> tmp" using assms(4) late(5) by (auto simp: temporary_def)
    have nt: "q \<noteq> tmp" if "\<not> prefix ''.tmp-'' (last q)" for q using that late(5) by auto
    from late(1) show ?thesis
    proof (cases rule: bindSE_cases)
      case (failed e)
      show ?thesis
        using write_tmp_frame [OF failed(1) late(3,4)] late(2,5) ne failed(2)
        by (auto simp: keeps_others_def)
    next
      case (passed a u)
      note w = write_tmp_frame [OF passed(1) late(3,4)]
      have wf: "lfs_good u" and wo: "\<And>q. q \<noteq> tmp \<Longrightarrow> files u q = files s q"
        using w late(2) by auto
      obtain lr s3 where l: "hard_link (path_of k) b u = (lr, s3)" by (cases "hard_link (path_of k) b u")
      note h = hard_link_frame [OF l wf names]
      obtain rr s4 where rm: "remove_file tmp s3 = (rr, s4)" by (cases "remove_file tmp s3")
      have m4: "lfs_good s4" "\<And>q. q \<noteq> tmp \<Longrightarrow> files s4 q = files s3 q"
        using remove_file_frame [OF rm] h by auto
      show ?thesis
      proof (cases lr)
        case (Inl e)
        then have "t = s4" "\<exists>e'. r = Inl e'"
          using passed(2) l rm by (auto split: storage_error.splits io_kind.splits)
        then show ?thesis using h m4 Inl wo ne nt same_root [of s3 u] by (auto simp: keeps_others_def)
      next
        case (Inr x)
        then have "sync_chain s4 = (r, t)" using passed(2) l rm by simp
        note y = same_root [OF sync_chain_root [OF this]] this
        have "\<And>x. r \<noteq> Inl (AlreadyExists x)"
          using y(3) by (auto simp: sync_chain_def may_fail_def split: prod.splits option.splits fault.splits)
        then show ?thesis using h m4 Inr wo ne nt y(1,2) by (auto simp: keeps_others_def)
      qed
    qed
  qed
qed

lemma lfs_delete_correct:
  assumes "lfs_delete k s = (r, t)" "lfs_good s" "valid_key k"
  shows "lfs_good t \<and> (\<forall>q. q \<noteq> path_of k \<longrightarrow> files t q = files s q) \<and>
    (files t (path_of k) = files s (path_of k) \<or> files t (path_of k) = None) \<and>
    (\<forall>u. r = Inr u \<longrightarrow> files s (path_of k) \<noteq> None \<and> files t (path_of k) = None)"
proof -
  have *: "bindSE (validate_existing_key_path k False) (\<lambda>_.
      bindSE (remove_file (path_of k)) (\<lambda>_. sync_chain)) s = (r, t)"
    using assms(1,3) validate_key_iff [of k] by (simp add: lfs_delete_def bindSE_def)
  then show ?thesis
  proof (cases rule: bindSE_cases)
    case (failed e)
    then show ?thesis using same_root [OF validate_existing_root [OF failed(1)]] assms(2) by simp
  next
    case (passed a u)
    note same = same_root [OF validate_existing_root [OF passed(1)]]
    from passed(2) show ?thesis
    proof (cases rule: bindSE_cases)
      case (failed e)
      then show ?thesis
        using remove_file_frame [OF failed(1)] same assms(2) same_root [of t u] by auto
    next
      case (passed a' v)
      show ?thesis
        using remove_file_frame [OF passed(1)] same assms(2)
          same_root [OF sync_chain_root [OF passed(2)]] by auto
    qed
  qed
qed

lemma lfs_get_root: "lfs_get k s = (r, t) \<Longrightarrow> root_node t = root_node s"
  unfolding lfs_get_def
  by (elim bindSE_cases) (auto dest!: validate_existing_root read_file_root)

lemma lfs_get_ok:
  assumes "lfs_get k s = (Inr b, t)"
  shows "lfs_content s k = Some b"
proof -
  obtain u where u: "validate_key k = Inr ()" "validate_existing_key_path k False s = (Inr (), u)"
    "read_file (path_of k) u = (Inr b, t)"
    using assms by (auto simp: lfs_get_def result_simps)
  show ?thesis
    using read_file_ok [OF u(3)] same_root(1) [OF validate_existing_root [OF u(2)]] u(1)
    by (simp add: lfs_content_def)
qed

lemma lfs_get_range_root: "lfs_get_range k i j s = (r, t) \<Longrightarrow> root_node t = root_node s"
  unfolding lfs_get_range_def
  by (elim bindSE_cases)
    (auto dest!: validate_existing_root read_file_root split: option.splits if_splits)

lemma lfs_get_range_ok:
  assumes "lfs_get_range k i j s = (Inr b, t)"
  shows "\<exists>w. lfs_content s k = Some w \<and> i \<le> j \<and> j \<le> length w \<and> b = take (j - i) (drop i w)"
proof -
  obtain u w v where v: "validate_key k = Inr ()" "validate_existing_key_path k False s = (Inr (), u)"
      "read_file (path_of k) u = (Inr w, v)"
    and b: "i \<le> j \<and> j \<le> length w \<and> b = take (j - i) (drop i w)"
    using assms
    by (auto simp: lfs_get_range_def result_simps checked_sub_def split: option.splits if_splits)
  have "lfs_content s k = Some w"
    using read_file_ok [OF v(3)] same_root(1) [OF validate_existing_root [OF v(2)]] v(1)
    by (simp add: lfs_content_def)
  with b show ?thesis by blast
qed

lemma lfs_list_root: "lfs_list p s = (r, t) \<Longrightarrow> root_node t = root_node s"
  unfolding lfs_list_def
  by (elim bindSE_cases) (auto split: if_splits option.splits fs_node.splits elim!: bindSE_cases
      dest!: validate_list_root may_fail_root)

lemma validate_root_ok: "validate_root s = (Inr b, t) \<Longrightarrow> b = (root_node t \<noteq> None)"
  unfolding validate_root_def
  by (erule bind_may_fail) (auto split: option.splits fs_node.splits)

lemma validate_list_False:
  assumes "validate_list_prefix p s = (Inr False, t)"
  shows "root_node s = None"
proof -
  obtain present u where u: "validate_root s = (Inr present, u)"
    and rest: "(if \<not> present then (Inr False, u)
       else (case root_node u of
               None \<Rightarrow> (Inr False, u)
             | Some n \<Rightarrow> (bindE (check_prefix n (path_components p)) (\<lambda>_. Inr True), u))) = (Inr False, t)"
    using assms unfolding validate_list_prefix_def bindSE_Inr_iff by blast
  have "root_node u = None"
    using rest validate_root_ok [OF u]
    by (cases "root_node u") (auto simp: bindE_def split: sum.splits)
  then show ?thesis using validate_root_root [OF u] by simp
qed

lemma lfs_list_cases:
  assumes "lfs_list p s = (Inr ms, t)"
  obtains (missing) "root_node s = None" "ms = []"
  | (found) es xs where "root_node s = Some (DirN es)" "walk [] p es = Inr xs" "ms = sort_key fst xs"
proof -
  obtain present u where u: "validate_list_prefix p s = (Inr present, u)"
    and rest: "(if \<not> present then returnSE []
       else bindSE may_fail (\<lambda>_ s.
         case root_node s of
           Some (DirN es) \<Rightarrow> (bindE (walk [] p es) (\<lambda>found. Inr (sort_key fst found)), s)
         | _ \<Rightarrow> (Inl (Io OtherIo), s))) u = (Inr ms, t)"
    using assms by (auto simp: lfs_list_def result_simps)
  show ?thesis
  proof (cases present)
    case False
    then show ?thesis using missing validate_list_False u rest by simp
  next
    case True
    then obtain v where "may_fail u = (Inr (), v)"
      and v: "(case root_node v of
           Some (DirN es) \<Rightarrow> (bindE (walk [] p es) (\<lambda>found. Inr (sort_key fst found)), v)
         | _ \<Rightarrow> (Inl (Io OtherIo), v)) = (Inr ms, t)"
      using rest by (auto simp: result_simps)
    then have "root_node v = root_node s" using may_fail_root validate_list_root u by metis
    then show ?thesis
      using v found by (auto simp: result_simps split: option.splits fs_node.splits)
  qed
qed

lemma lfs_list_exact:
  assumes "lfs_list p s = (Inr ms, t)" "lfs_good s"
  shows "(k, n) \<in> set ms \<longleftrightarrow> prefix p k \<and> (\<exists>b. lfs_content s k = Some b \<and> n = length b)"
  using assms(1)
proof (cases rule: lfs_list_cases)
  case missing
  then show ?thesis by (simp add: lfs_content_def files_def)
next
  case (found es xs)
  have wf: "wf_node (DirN es)" using assms(2) found(1) by (simp add: lfs_good_def)
  have files: "files s path = file_at (DirN es) path" for path using found(1) by (simp add: files_def)
  have "(k, n) \<in> set ms \<longleftrightarrow> walk_spec [] p es k n"
    using walk_exact [OF found(2) wf] found(3) by simp
  also have "\<dots> \<longleftrightarrow> prefix p k \<and> (\<exists>b. lfs_content s k = Some b \<and> n = length b)" (is "?l \<longleftrightarrow> ?r")
  proof
    assume ?l
    then obtain path b where w: "file_at (DirN es) path = Some b" "k = key_of path" "prefix p k" "n = length b"
      by (auto simp: walk_spec_def)
    have "path \<noteq> []" using w(1) by auto
    then have "valid_key k" "path_of k = path"
      using key_of_valid [of path] file_at_names [OF w(1) wf] w(2) by auto
    then show ?r using w files by (simp add: lfs_content_def validate_key_iff)
  next
    assume ?r
    then show ?l using files
      by (auto simp: walk_spec_def lfs_content_def split: if_splits intro!: exI [of _ "path_of k"])
  qed
  finally show ?thesis .
qed

lemma lfs_list_sorted:
  assumes "lfs_list p s = (Inr ms, t)" "lfs_good s"
  shows "sorted (map fst ms) \<and> distinct (map fst ms)"
  using assms(1)
proof (cases rule: lfs_list_cases)
  case (found es xs)
  have "wf_node (DirN es)" using assms(2) found(1) by (simp add: lfs_good_def)
  then have "distinct (map fst xs)" using walk_distinct [OF found(2)] by simp
  then have "distinct (map fst (sort_key fst xs))" by (simp add: distinct_map)
  then show ?thesis using found(3) by simp
qed simp

interpretation local_fs: backend_contract local_fs lfs_content lfs_good
proof (unfold_locales, goal_cases)
  case (1 s k)
  then show ?case by (auto simp: lfs_content_def validate_key_iff split: if_splits)
next
  case (2 s k r t)
  then show ?case using same_root [OF lfs_get_root [of k s r t]]
    by (auto simp: local_fs_def lfs_content_def fun_eq_iff)
next
  case (3 s k b t)
  then show ?case by (simp add: local_fs_def lfs_get_ok)
next
  case (4 s k i j r t)
  then show ?case using same_root [OF lfs_get_range_root [of k i j s r t]]
    by (auto simp: local_fs_def lfs_content_def fun_eq_iff)
next
  case (5 s k i j b t)
  then show ?case by (simp add: local_fs_def lfs_get_range_ok)
next
  case (6 s p rl t)
  then show ?case using same_root [OF lfs_list_root [of p s rl t]]
    by (auto simp: local_fs_def lfs_content_def fun_eq_iff)
next
  case (7 s p ms t)
  then show ?case by (simp add: local_fs_def lfs_list_sorted)
next
  case (8 s p ms t k n)
  then show ?case by (simp add: local_fs_def lfs_list_exact)
next
  case (9 s k b ru t)
  then show ?case using lfs_put_correct [of k b s ru t] keeps_others_content [of k s t]
    by (simp add: local_fs_def valid_content)
next
  case (10 s k b u t)
  then show ?case using lfs_put_correct [of k b s "Inr u" t] by (simp add: local_fs_def valid_content)
next
  case (11 s k b ru t)
  then show ?case using lfs_put_if_absent_correct [of k b s ru t] keeps_others_content [of k s t]
    by (simp add: local_fs_def valid_content)
next
  case (12 s k b u t)
  then show ?case using lfs_put_if_absent_correct [of k b s "Inr u" t]
    by (simp add: local_fs_def valid_content)
next
  case (13 s k b x t)
  then show ?case using lfs_put_if_absent_correct [of k b s "Inl (AlreadyExists x)" t]
    by (simp add: local_fs_def valid_content)
next
  case (14 s k ru t)
  then show ?case using lfs_delete_correct [of k s ru t]
    by (auto simp: local_fs_def valid_content) (simp_all add: lfs_content_def split_on_inject)
next
  case (15 s k u t)
  then show ?case using lfs_delete_correct [of k s "Inr u" t]
    by (simp add: local_fs_def valid_content)
qed

text \<open>\<open>StorageOwner::local\<close> owns the backend with the empty prefix.\<close>

abbreviation local_owner :: "lfs backend" where
  "local_owner \<equiv> owned local_fs []"

abbreviation owner_content :: "lfs \<Rightarrow> string \<Rightarrow> bytes option" where
  "owner_content \<equiv> owned_content lfs_content []"

interpretation local_dataset: owned_backend local_fs lfs_content lfs_good "[]"
  by unfold_locales (simp add: dataset_prefix_new_def)

section \<open>Properties\<close>

lemmas fs_eval =
  lfs_put_if_absent_def lfs_put_def lfs_get_def lfs_list_def lfs_delete_def bindSE_def
  validate_key_def unsafe_segment_def path_components_def segment_component_def
  validate_existing_key_path_def validate_list_prefix_def validate_root_def may_fail_def
  take_fault_def create_dir_all_def on_root_def tmp_path_for_def write_tmp_def rename_file_def
  hard_link_def remove_file_def read_file_def sync_chain_def lfs_content_def files_def file_at_def

text \<open>A small dataset directory; the sixth system call of the next operation fails.\<close>

definition example_fs :: lfs where
  "example_fs =
     \<lparr> root_node = Some (DirN
         [(''data'', DirN [(''b.arrow'', FileN [1, 2]), (''a.arrow'', FileN [3])]),
          (''data_old'', DirN [(''c'', FileN [])]),
          (''_versions'', DirN [(''1'', FileN [7])])]),
       tmp_counter = 0, pid = 42,
       faults = [None, None, None, None, None, Some (Fault OtherIo 0)] \<rparr>"

lemma example_fs_good: "lfs_good example_fs"
  by (simp add: lfs_good_def example_fs_def wf_node.simps(3) good_name_def unsafe_segment_def)



text \<open>C15: Listing is exact.  On a well-formed tree the pruned recursive walk of \<open>list\<close> returns,
  in lexicographic key order and without repetition, exactly the objects whose key
  starts with the prefix, each with its length: skipping a directory never loses an
  object and descending into a textual sibling never adds one.\<close>

theorem local_list_exact:
  assumes "lfs_good s" "lfs_list p s = (Inr ms, t)"
  shows "sorted (map fst ms) \<and> distinct (map fst ms) \<and>
    (\<forall>k n. (k, n) \<in> set ms \<longleftrightarrow> prefix p k \<and> (\<exists>b. lfs_content s k = Some b \<and> n = length b)) \<and>
    lfs_content t = lfs_content s"
proof -
  have l: "be_list local_fs p s = (Inr ms, t)" using assms(2) by (simp add: local_fs_def)
  show ?thesis
    using local_fs.list_sorted [OF assms(1) l] local_fs.list_exact [OF assms(1) l]
      local_fs.list_frame [OF assms(1) l] by blast
qed

theorem local_list_exact_witness:
  "fst (lfs_list ''data/'' example_fs) = Inr [(''data/a.arrow'', 1), (''data/b.arrow'', 2)] \<and>
   (''data/a.arrow'', 1) \<in> set [(''data/a.arrow'', 1), (''data/b.arrow'', 2 :: nat)] \<and>
   lfs_content (snd (lfs_list ''data/'' example_fs)) = lfs_content example_fs"
proof -
  have out: "fst (lfs_list ''data/'' example_fs) = Inr [(''data/a.arrow'', 1), (''data/b.arrow'', 2)]"
    by (simp add: fs_eval example_fs_def less_eq_char_def)
  then have "lfs_list ''data/'' example_fs =
      (Inr [(''data/a.arrow'', 1), (''data/b.arrow'', 2)], snd (lfs_list ''data/'' example_fs))"
    by (metis prod.collapse)
  from local_list_exact [OF example_fs_good this] out show ?thesis by simp
qed

end
