(* ===== verification/RowIdHighWater.thy ===== *)
theory RowIdHighWater
  imports LocalFs
begin

text \<open>
  Durable row-id reservations (\<open>crates/storage/src/row_id_high_water.rs\<close>): the
  immutable records named by their exclusive end, their checksummed encoding,
  the recovery scan that refuses malformed records, and the publication of a
  new floor with its definite and its possibly-published failures.  The
  checksum function is a parameter.
\<close>

section \<open>Records\<close>

definition ROW_ID_HIGH_WATER_PREFIX :: string where
  "ROW_ID_HIGH_WATER_PREFIX = ''_meta/row-id-high-water/''"

definition RECORD_SUFFIX :: string where
  "RECORD_SUFFIX = ''.reservation''"

definition RECORD_LEN :: nat where
  "RECORD_LEN = 12"

datatype high_water_error =
    Definite storage_error
  | PossiblyPublished nat storage_error

definition possibly_published_end :: "high_water_error \<Rightarrow> nat option" where
  "possibly_published_end e = (case e of Definite _ \<Rightarrow> None | PossiblyPublished n _ \<Rightarrow> Some n)"

definition into_storage_error :: "high_water_error \<Rightarrow> storage_error" where
  "into_storage_error e = (case e of Definite s \<Rightarrow> s | PossiblyPublished _ s \<Rightarrow> s)"

definition corrupt_record :: storage_error where
  "corrupt_record = Io InvalidData"

definition record_key :: "nat \<Rightarrow> string" where
  "record_key end_id = ROW_ID_HIGH_WATER_PREFIX @ fmt020 end_id @ RECORD_SUFFIX"

definition end_from_key :: "string \<Rightarrow> nat option" where
  "end_from_key key =
     (case strip_prefix ROW_ID_HIGH_WATER_PREFIX key of
        None \<Rightarrow> None
      | Some name \<Rightarrow> (case strip_suffix RECORD_SUFFIX name of
          None \<Rightarrow> None
        | Some e \<Rightarrow> if length e \<noteq> 20 \<or> \<not> list_all is_ascii_digit e then None else parse_u64 e))"

definition temporary_key :: "string \<Rightarrow> bool" where
  "temporary_key key =
     (case strip_prefix ROW_ID_HIGH_WATER_PREFIX key of
        None \<Rightarrow> False
      | Some name \<Rightarrow> prefix ''.tmp-'' name)"

definition encode_record :: "checksum \<Rightarrow> nat \<Rightarrow> bytes" where
  "encode_record crc end_id = le_bytes 8 end_id @ le_bytes 4 (unat (crc (le_bytes 8 end_id)))"

definition decode_record :: "checksum \<Rightarrow> bytes \<Rightarrow> (storage_error, nat) result" where
  "decode_record crc bs =
     (if length bs \<noteq> RECORD_LEN then Inl corrupt_record
      else let end_id = from_le (take 8 bs);
               found_checksum = from_le (drop 8 bs) in
           if found_checksum \<noteq> unat (crc (take 8 bs)) then Inl corrupt_record
           else Inr end_id)"

section \<open>Recovery and publication\<close>

record row_id_high_water_read =
  high_water :: "nat option"
  bytes_read :: nat

fun read_records ::
  "checksum \<Rightarrow> 's backend \<Rightarrow> object_meta list \<Rightarrow> nat option \<Rightarrow> nat
   \<Rightarrow> ('s, storage_error, row_id_high_water_read) effect" where
  "read_records crc be [] greatest n = returnSE \<lparr> high_water = greatest, bytes_read = n \<rparr>"
| "read_records crc be ((key, _) # ms) greatest n =
     (case end_from_key key of
        None \<Rightarrow> if temporary_key key then read_records crc be ms greatest n
                else throwSE corrupt_record
      | Some end_id \<Rightarrow>
          bindSE (liftSE (dataset_key_new key)) (\<lambda>k.
          bindSE (be_get be k) (\<lambda>bs.
          bindSE (liftSE (decode_record crc bs)) (\<lambda>recorded_end.
            if recorded_end \<noteq> end_id then throwSE corrupt_record
            else read_records crc be ms
                   (Some (case greatest of None \<Rightarrow> end_id | Some current \<Rightarrow> max current end_id))
                   (n + length bs)))))"

definition read_row_id_high_water_with_byte_count_with ::
  "checksum \<Rightarrow> 's backend \<Rightarrow> ('s, storage_error, row_id_high_water_read) effect" where
  "read_row_id_high_water_with_byte_count_with crc be =
     bindSE (be_list be (butlast ROW_ID_HIGH_WATER_PREFIX)) (\<lambda>ms. read_records crc be ms None 0)"

definition read_row_id_high_water_with ::
  "checksum \<Rightarrow> 's backend \<Rightarrow> ('s, storage_error, nat option) effect" where
  "read_row_id_high_water_with crc be =
     bindSE (read_row_id_high_water_with_byte_count_with crc be) (\<lambda>r. returnSE (high_water r))"

definition at_least :: "nat \<Rightarrow> nat option \<Rightarrow> nat option" where
  "at_least n observed = (case observed of Some e \<Rightarrow> if e \<ge> n then Some e else None | None \<Rightarrow> None)"

definition persist_row_id_high_water_at_least_with ::
  "checksum \<Rightarrow> 's backend \<Rightarrow> nat \<Rightarrow> ('s, high_water_error, nat) effect" where
  "persist_row_id_high_water_at_least_with crc be requested_end =
     bindSE (map_errSE Definite (read_row_id_high_water_with crc be)) (\<lambda>observed.
       case at_least requested_end observed of
         Some end_id \<Rightarrow> returnSE end_id
       | None \<Rightarrow>
           bindSE (map_errSE Definite (liftSE (dataset_key_new (record_key requested_end)))) (\<lambda>key s.
             case be_put_if_absent be key (encode_record crc requested_end) s of
               (Inr _, s') \<Rightarrow> (Inr requested_end, s')
             | (Inl (AlreadyExists _), s') \<Rightarrow>
                 bindSE (map_errSE Definite (read_row_id_high_water_with crc be)) (\<lambda>observed.
                   case at_least requested_end observed of
                     Some observed_end \<Rightarrow> returnSE observed_end
                   | None \<Rightarrow> throwSE (Definite corrupt_record)) s'
             | (Inl source, s') \<Rightarrow>
                 (case read_row_id_high_water_with crc be s' of
                    (Inr observed, s'') \<Rightarrow>
                      (case at_least requested_end observed of
                         Some observed_end \<Rightarrow> (Inl (PossiblyPublished observed_end source), s'')
                       | None \<Rightarrow> (Inl (Definite source), s''))
                  | (Inl observation_error, s'') \<Rightarrow> (Inl (Definite observation_error), s''))))"

definition initialize_row_id_high_water_with ::
  "checksum \<Rightarrow> 's backend \<Rightarrow> ('s, storage_error, unit) effect" where
  "initialize_row_id_high_water_with crc be =
     bindSE (map_errSE into_storage_error (persist_row_id_high_water_at_least_with crc be 0))
       (\<lambda>_. returnSE ())"

section \<open>Records round trip\<close>

lemma unat_crc_less: "unat (w :: 32 word) < 256 ^ 4"
  using unsigned_less [of w] by simp

lemma u64_less_bytes: "is_u64 n \<Longrightarrow> n < 256 ^ 8"
  by (simp add: is_u64_def u64_max_def)

lemma decode_encode: "is_u64 n \<Longrightarrow> decode_record crc (encode_record crc n) = Inr n"
  using from_le_bytes_id [OF u64_less_bytes] from_le_bytes_id [OF unat_crc_less]
  by (simp add: decode_record_def encode_record_def RECORD_LEN_def)

lemma decode_encode_iff:
  "decode_record crc bs = Inr n \<longleftrightarrow> is_u64 n \<and> bs = encode_record crc n"
proof
  assume d: "decode_record crc bs = Inr n"
  then have len: "length bs = 12" and n: "n = from_le (take 8 bs)"
    and c: "from_le (drop 8 bs) = unat (crc (take 8 bs))"
    by (auto simp: decode_record_def RECORD_LEN_def Let_def split: if_splits)
  have t: "take 8 bs = le_bytes 8 n" using le_bytes_from_le [of "take 8 bs"] len n by simp
  have "drop 8 bs = le_bytes 4 (unat (crc (take 8 bs)))"
    using le_bytes_from_le [of "drop 8 bs"] len c by simp
  then have "bs = encode_record crc n"
    unfolding encode_record_def t [symmetric] by (metis append_take_drop_id)
  moreover have "is_u64 n"
    using from_le_less [of "take 8 bs"] len n by (simp add: is_u64_def u64_max_def)
  ultimately show "is_u64 n \<and> bs = encode_record crc n" by simp
qed (simp add: decode_encode)

lemma end_from_record_key: "is_u64 n \<Longrightarrow> end_from_key (record_key n) = Some n"
  using fmt020_length [of n] fmt020_digits [of n] parse_u64_fmt020 [of n]
  by (simp add: end_from_key_def record_key_def)

lemma end_from_key_iff: "end_from_key k = Some n \<longleftrightarrow> is_u64 n \<and> k = record_key n"
proof
  assume e: "end_from_key k = Some n"
  then obtain d where k: "k = ROW_ID_HIGH_WATER_PREFIX @ d @ RECORD_SUFFIX" and d: "length d = 20"
    "list_all is_ascii_digit d" "parse_u64 d = Some n"
    by (auto simp: end_from_key_def strip_prefix_Some_iff strip_suffix_Some_iff
        split: option.splits if_splits)
  then show "is_u64 n \<and> k = record_key n"
    using fmt020_unique [OF d] parse_u64_bound [OF d(3)] by (simp add: record_key_def)
qed (auto simp: end_from_record_key)

lemma record_key_inject: "record_key m = record_key n \<longleftrightarrow> m = n"
  by (simp add: record_key_def fmt020_inject)

lemma path_of_record_key:
  "path_of (record_key n) = [''_meta'', ''row-id-high-water'', fmt020 n @ ''.reservation'']"
proof -
  have "CHR ''/'' \<notin> set (fmt020 n @ ''.reservation'')"
    using not_digit_in_fmt020 [of "CHR ''/''" n] by (simp add: is_ascii_digit_def)
  then have "path_of (fmt020 n @ ''.reservation'') = [fmt020 n @ ''.reservation'']"
    by (rule split_on_no_sep)
  then show ?thesis by (simp add: record_key_def ROW_ID_HIGH_WATER_PREFIX_def RECORD_SUFFIX_def)
qed

lemma record_key_valid: "valid_key (record_key n)"
proof -
  have "CHR 0x5C \<notin> set (record_key n)"
    using not_digit_in_fmt020 [of "CHR 0x5C" n]
    by (simp add: record_key_def ROW_ID_HIGH_WATER_PREFIX_def RECORD_SUFFIX_def is_ascii_digit_def)
  then show ?thesis
    by (simp add: valid_key_iff path_of_record_key unsafe_segment_def)
      (simp add: record_key_def ROW_ID_HIGH_WATER_PREFIX_def append_eq_Cons_conv)
qed

lemma record_key_not_temporary: "\<not> temporary (record_key n)"
proof -
  obtain c cs where "fmt020 n = c # cs" using fmt020_not_Nil [of n] by (cases "fmt020 n") auto
  then have "c \<noteq> CHR ''.''" using fmt020_digits [of n] by (auto simp: is_ascii_digit_def)
  then show ?thesis using \<open>fmt020 n = c # cs\<close> by (simp add: temporary_def path_of_record_key)
qed

lemma record_key_prefix: "prefix (butlast ROW_ID_HIGH_WATER_PREFIX) (record_key n)"
  by (simp add: record_key_def ROW_ID_HIGH_WATER_PREFIX_def)

lemma dataset_key_record: "dataset_key_new (record_key n) = Inr (record_key n)"
  using record_key_valid [of n] by (simp add: dataset_key_new_def valid_key_def)

lemma at_least_Some_iff: "at_least n o' = Some e \<longleftrightarrow> o' = Some e \<and> n \<le> e"
  by (auto simp: at_least_def split: option.splits if_splits)

section \<open>The floor\<close>

text \<open>A reservation is visible when its record can be read; \<open>floor_is\<close> says that the
  scan's answer is the greatest visible reservation.\<close>

definition reserved :: "('s \<Rightarrow> string \<Rightarrow> bytes option) \<Rightarrow> 's \<Rightarrow> nat \<Rightarrow> bool" where
  "reserved content s n \<longleftrightarrow> is_u64 n \<and> content s (record_key n) \<noteq> None"

definition floor_is :: "('s \<Rightarrow> string \<Rightarrow> bytes option) \<Rightarrow> 's \<Rightarrow> nat option \<Rightarrow> bool" where
  "floor_is content s hw \<longleftrightarrow>
     (case hw of
        None \<Rightarrow> \<forall>n. \<not> reserved content s n
      | Some e \<Rightarrow> reserved content s e \<and> (\<forall>n. reserved content s n \<longrightarrow> n \<le> e))"

lemma reserved_cong: "content t = content s \<Longrightarrow> reserved content t = reserved content s"
  by (simp add: reserved_def fun_eq_iff)

lemma floor_is_cong: "content t = content s \<Longrightarrow> floor_is content t = floor_is content s"
  by (rule ext, drule reserved_cong) (simp add: floor_is_def split: option.split)

context backend_contract
begin

lemma read_records_frame:
  "good s \<Longrightarrow> read_records crc be ms g n s = (rr, t) \<Longrightarrow> good t \<and> content t = content s"
proof (induction ms arbitrary: g n s)
  case (Cons m ms)
  obtain key x where m: "m = (key, x)" by (cases m)
  show ?case
  proof (cases "end_from_key key")
    case None
    then show ?thesis using Cons m by (auto split: if_splits)
  next
    case (Some e)
    then have "bindSE (liftSE (dataset_key_new key)) (\<lambda>k.
          bindSE (be_get be k) (\<lambda>bs.
          bindSE (liftSE (decode_record crc bs)) (\<lambda>recorded_end.
            if recorded_end \<noteq> e then throwSE corrupt_record
            else read_records crc be ms
                   (Some (case g of None \<Rightarrow> e | Some current \<Rightarrow> max current e))
                   (n + length bs)))) s = (rr, t)"
      using Cons.prems(2) m by simp
    then show ?thesis
    proof (cases rule: bindSE_cases)
      case (passed k u)
      then have "u = s" by simp
      with passed(2) have "bindSE (be_get be k) (\<lambda>bs.
          bindSE (liftSE (decode_record crc bs)) (\<lambda>recorded_end.
            if recorded_end \<noteq> e then throwSE corrupt_record
            else read_records crc be ms
                   (Some (case g of None \<Rightarrow> e | Some current \<Rightarrow> max current e))
                   (n + length bs))) s = (rr, t)" by simp
      then show ?thesis
      proof (cases rule: bindSE_cases)
        case (failed err)
        then show ?thesis using get_frame Cons.prems(1) by blast
      next
        case (passed bs v)
        have "good v \<and> content v = content s" using get_frame [OF Cons.prems(1) passed(1)] .
        then show ?thesis
          using passed(2) Cons.IH [of v]
          by (auto simp: bindSE_def split: sum.splits if_splits)
      qed
    qed (use Cons.prems in auto)
  qed
qed simp

lemma read_records_ok:
  "good s \<Longrightarrow> read_records crc be ms g n s = (Inr res, t) \<Longrightarrow>
   (\<forall>e. is_u64 e \<longrightarrow> record_key e \<in> fst ` set ms \<longrightarrow> (\<exists>m. high_water res = Some m \<and> e \<le> m)) \<and>
   (\<forall>e. g = Some e \<longrightarrow> (\<exists>m. high_water res = Some m \<and> e \<le> m)) \<and>
   (\<forall>m. high_water res = Some m \<longrightarrow> g = Some m \<or> is_u64 m \<and> record_key m \<in> fst ` set ms)"
proof (induction ms arbitrary: g n s)
  case Nil
  then have "res = \<lparr> high_water = g, bytes_read = n \<rparr>" by simp
  then show ?case by simp
next
  case (Cons m ms)
  obtain key x where m: "m = (key, x)" by (cases m)
  show ?case
  proof (cases "end_from_key key")
    case None
    then have "read_records crc be ms g n s = (Inr res, t)" using Cons m by (auto split: if_splits)
    note IH = Cons.IH [OF Cons.prems(1) this]
    have "\<not> (is_u64 e \<and> record_key e = key)" for e
      using None by (auto simp: end_from_record_key)
    then show ?thesis using IH m by auto
  next
    case (Some e)
    let ?g = "Some (case g of None \<Rightarrow> e | Some current \<Rightarrow> max current e)"
    obtain bs v where v: "be_get be key s = (Inr bs, v)"
      and rest: "read_records crc be ms ?g (n + length bs) v = (Inr res, t)"
      using Cons.prems(2) m Some
      by (auto simp: result_simps dataset_key_new_def split: if_splits)
    have "good v" using get_frame [OF Cons.prems(1) v] by simp
    note IH = Cons.IH [OF this rest]
    have key: "is_u64 e" "key = record_key e" using Some end_from_key_iff by auto
    obtain mx where mx: "high_water res = Some mx" "(case g of None \<Rightarrow> e | Some current \<Rightarrow> max current e) \<le> mx"
      using IH by blast
    then have le: "e \<le> mx" "\<And>e'. g = Some e' \<Longrightarrow> e' \<le> mx" by (auto split: option.splits)
    show ?thesis
    proof (intro conjI allI impI)
      fix e' assume "is_u64 e'" "record_key e' \<in> fst ` set (m # ms)"
      then show "\<exists>m. high_water res = Some m \<and> e' \<le> m"
        using IH m key mx(1) le(1) by (auto simp: record_key_inject)
    next
      fix e' assume "g = Some e'"
      then show "\<exists>m. high_water res = Some m \<and> e' \<le> m" using mx le by auto
    next
      fix m' assume "high_water res = Some m'"
      then show "g = Some m' \<or> is_u64 m' \<and> record_key m' \<in> fst ` set (m # ms)"
        using IH m key by (auto simp: max_def split: option.splits if_splits)
    qed
  qed
qed

lemma read_high_water_frame:
  assumes "good s" "read_row_id_high_water_with crc be s = (rh, t)"
  shows "good t \<and> content t = content s"
proof -
  obtain rr u where u: "read_row_id_high_water_with_byte_count_with crc be s = (rr, u)" "t = u"
    using assms(2) by (auto simp: read_row_id_high_water_with_def bindSE_def split: prod.splits sum.splits)
  from u(1) have "bindSE (be_list be (butlast ROW_ID_HIGH_WATER_PREFIX))
      (\<lambda>ms. read_records crc be ms None 0) s = (rr, u)"
    by (simp add: read_row_id_high_water_with_byte_count_with_def)
  then show ?thesis
  proof (cases rule: bindSE_cases)
    case (failed e)
    then show ?thesis using list_frame [OF assms(1)] u(2) by blast
  next
    case (passed ms v)
    then have v: "good v \<and> content v = content s" using list_frame [OF assms(1)] by blast
    then show ?thesis using read_records_frame [of v, OF _ passed(2)] u(2) by simp
  qed
qed

lemma read_high_water_ok:
  assumes "good s" "read_row_id_high_water_with crc be s = (Inr hw, t)"
  shows "floor_is content s hw"
proof -
  obtain ms v res where l: "be_list be (butlast ROW_ID_HIGH_WATER_PREFIX) s = (Inr ms, v)"
    and r: "read_records crc be ms None 0 v = (Inr res, t)" "hw = high_water res"
    using assms(2)
    by (auto simp: read_row_id_high_water_with_def read_row_id_high_water_with_byte_count_with_def result_simps)
  have "good v" using list_frame [OF assms(1) l] by simp
  note res = read_records_ok [OF this r(1)]
  have keys: "reserved content s n \<longleftrightarrow> is_u64 n \<and> record_key n \<in> fst ` set ms" for n
    using list_keys [OF assms(1) l] record_key_prefix [of n] by (simp add: reserved_def)
  show ?thesis
  proof (cases hw)
    case None
    then have "\<not> reserved content s n" for n using res r(2) keys by force
    then show ?thesis using None by (simp add: floor_is_def)
  next
    case (Some e)
    then have e: "high_water res = Some e" using r(2) by simp
    then have "reserved content s e" using res keys by simp
    moreover have "n \<le> e" if "reserved content s n" for n using that res keys e by force
    ultimately show ?thesis using Some by (simp add: floor_is_def)
  qed
qed

lemma publish_record:
  assumes g: "good s" and put: "be_put_if_absent be (record_key n) b s = (ru, t)"
  shows "good t" "\<And>k. \<not> temporary k \<Longrightarrow> k \<noteq> record_key n \<Longrightarrow> content t k = content s k"
    "\<And>m. reserved content s m \<Longrightarrow> reserved content t m"
    "\<And>m. is_u64 n \<Longrightarrow> reserved content t m \<Longrightarrow> m = n \<or> reserved content s m"
    "is_u64 n \<Longrightarrow> ru = Inr u \<Longrightarrow> reserved content t n"
proof -
  note f = put_if_absent_frame [OF g record_key_valid record_key_not_temporary put]
  show "good t" using f by blast
  show k: "content t k = content s k" if "\<not> temporary k" "k \<noteq> record_key n" for k
    using f that by blast
  show "reserved content t m" if "reserved content s m" for m
    using that put_if_absent_immutable [OF g record_key_valid record_key_not_temporary
        record_key_not_temporary _ put] by (auto simp: reserved_def)
  show "m = n \<or> reserved content s m" if "is_u64 n" "reserved content t m" for m
    using that k [OF record_key_not_temporary, of m]
    by (cases "m = n") (auto simp: reserved_def record_key_inject)
  show "reserved content t n" if "is_u64 n" "ru = Inr u"
    using put_if_absent_ok [OF g record_key_valid record_key_not_temporary] put that
    by (auto simp: reserved_def)
qed

lemma persist_correct:
  assumes g: "good s" and n: "is_u64 n"
    and p: "persist_row_id_high_water_at_least_with crc be n s = (rp, t)"
  shows "good t \<and> (\<forall>m. reserved content s m \<longrightarrow> reserved content t m) \<and>
    (\<forall>k. \<not> temporary k \<longrightarrow> k \<noteq> record_key n \<longrightarrow> content t k = content s k) \<and>
    (case rp of
       Inr e \<Rightarrow> n \<le> e \<and> floor_is content t (Some e)
     | Inl (PossiblyPublished e _) \<Rightarrow> n \<le> e \<and> floor_is content t (Some e)
     | Inl (Definite _) \<Rightarrow> True)"
  using p unfolding persist_row_id_high_water_at_least_with_def
proof (cases rule: bindSE_cases)
  case (failed e)
  then obtain e' where e': "read_row_id_high_water_with crc be s = (Inl e', t)" "e = Definite e'"
    by (auto simp: result_simps)
  note same = read_high_water_frame [OF g e'(1)]
  then show ?thesis using failed e' reserved_cong [of content t s] by simp
next
  case (passed hw s1)
  then have r: "read_row_id_high_water_with crc be s = (Inr hw, s1)" by (simp add: result_simps)
  note same = read_high_water_frame [OF g r]
  have fl: "floor_is content s1 hw"
    using read_high_water_ok [OF g r] same floor_is_cong [of content s1 s] by simp
  show ?thesis
  proof (cases "at_least n hw")
    case (Some e)
    then have "rp = Inr e" "t = s1" using passed(2) by simp_all
    moreover have "hw = Some e" "n \<le> e" using Some by (simp_all add: at_least_Some_iff)
    ultimately show ?thesis using same fl reserved_cong [of content s1 s] by simp
  next
    case None
    let ?k = "record_key n" and ?b = "encode_record crc n"
    obtain ru s2 where put: "be_put_if_absent be ?k ?b s1 = (ru, s2)"
      by (cases "be_put_if_absent be ?k ?b s1")
    have g1: "good s1" using same by simp
    note pub = publish_record [OF g1 put]
    have low: "m < n" if "reserved content s1 m" for m
      using None fl that by (auto simp: at_least_def floor_is_def split: option.splits if_splits)
    have body: "(case (ru, s2) of
               (Inr _, s') \<Rightarrow> (Inr n, s')
             | (Inl (AlreadyExists _), s') \<Rightarrow>
                 bindSE (map_errSE Definite (read_row_id_high_water_with crc be)) (\<lambda>observed.
                   case at_least n observed of
                     Some observed_end \<Rightarrow> returnSE observed_end
                   | None \<Rightarrow> throwSE (Definite corrupt_record)) s'
             | (Inl source, s') \<Rightarrow>
                 (case read_row_id_high_water_with crc be s' of
                    (Inr observed, s'') \<Rightarrow>
                      (case at_least n observed of
                         Some observed_end \<Rightarrow> (Inl (PossiblyPublished observed_end source), s'')
                       | None \<Rightarrow> (Inl (Definite source), s''))
                  | (Inl observation_error, s'') \<Rightarrow> (Inl (Definite observation_error), s''))) = (rp, t)"
      using passed(2) None put by (simp add: bindSE_def map_errSE_def dataset_key_record)
    have frame: "good t \<and> content t = content s2 \<and>
      (\<forall>e. rp = Inr e \<longrightarrow> n \<le> e \<and> floor_is content t (Some e)) \<and>
      (\<forall>e src. rp = Inl (PossiblyPublished e src) \<longrightarrow> n \<le> e \<and> floor_is content t (Some e))"
    proof (cases ru)
      case (Inr u)
      have "reserved content s2 n" using pub(5) n Inr by blast
      moreover have "m \<le> n" if "reserved content s2 m" for m
        using pub(4) [OF n that] low by (auto intro: less_imp_le)
      ultimately show ?thesis using body Inr pub(1) by (auto simp: floor_is_def)
    next
      case (Inl err)
      obtain rh s3 where r2: "read_row_id_high_water_with crc be s2 = (rh, s3)"
        by (cases "read_row_id_high_water_with crc be s2")
      note same2 = read_high_water_frame [OF pub(1) r2]
      have "floor_is content s3 hw'" if "rh = Inr hw'" for hw'
        using read_high_water_ok [OF pub(1)] r2 that same2 floor_is_cong [of content s3 s2] by simp
      then show ?thesis using body Inl r2 same2
        by (cases rh)
          (auto simp: bindSE_def map_errSE_def at_least_Some_iff
            split: storage_error.splits option.splits)
    qed
    have "reserved content t m" if "reserved content s m" for m
      using that pub(3) [of m] same frame reserved_cong [of content s1 s] reserved_cong [of content t s2]
      by simp
    moreover have "content t k = content s k" if "\<not> temporary k" "k \<noteq> record_key n" for k
      using pub(2) [OF that] same frame by simp
    ultimately show ?thesis using frame by (auto split: sum.splits high_water_error.splits)
  qed
qed

end

section \<open>Properties\<close>

text \<open>C28: Reservation records round trip and are self-certifying.  Whatever the checksum function,
  a record is accepted for the end \<open>n\<close> exactly when it is byte for byte the record written
  for \<open>n\<close>, and an object name is read as the end \<open>n\<close> exactly when it is the name written for
  \<open>n\<close>; so no two ends share a name and no other bytes or names decode.\<close>

theorem reservation_round_trip:
  "(decode_record crc bs = Inr n \<longleftrightarrow> is_u64 n \<and> bs = encode_record crc n) \<and>
   (end_from_key key = Some n \<longleftrightarrow> is_u64 n \<and> key = record_key n)"
  using decode_encode_iff end_from_key_iff by blast

end
