(* ===== verification/RowIdAllocator.thy ===== *)
theory RowIdAllocator
  imports RowIdHighWater TxnError
begin

text \<open>
  Row-id allocation (\<open>crates/txn/src/row_id.rs\<close>): the loop that claims a contiguous
  range by first publishing its durable reservation.  The loop is a partial function;
  it is shown to return on every store that keeps the backend contract, under every
  pattern of failures, and the ranges it grants never overlap, across failures and
  restarts.
\<close>

section \<open>Model\<close>

record row_id_range =
  base :: nat
  len :: nat

definition range_end :: "row_id_range \<Rightarrow> nat" where
  "range_end r = base r + len r"

text \<open>One call of \<open>claim\<close>: the counter read under the lock, the loop, and the counter
  left behind.  \<open>None\<close> would be a loop that never returns.\<close>

partial_function (option) claim ::
  "checksum \<Rightarrow> 's backend \<Rightarrow> nat \<Rightarrow> nat \<Rightarrow> 's
   \<Rightarrow> ((txn_error, row_id_range) result \<times> nat \<times> 's) option" where
  "claim crc be count cur s =
     (case checked_add cur count of
        None \<Rightarrow> Some (Inl ManifestOverflow, cur, s)
      | Some end_id \<Rightarrow>
          (case persist_row_id_high_water_at_least_with crc be end_id s of
             (Inr persisted_end, s') \<Rightarrow>
               if persisted_end = end_id
               then Some (Inr \<lparr> base = cur, len = count \<rparr>, end_id, s')
               else claim crc be count (max cur persisted_end) s'
           | (Inl error, s') \<Rightarrow>
               (case possibly_published_end error of
                  Some possibly \<Rightarrow>
                    Some (Inl (RowIdReservationDurability possibly (into_storage_error error)),
                          max cur possibly, s')
                | None \<Rightarrow> Some (Inl (Storage (into_storage_error error)), cur, s'))))"

text \<open>What happens to one dataset's allocator over time: claims that succeed or fail,
  other work of the handle that leaves the reservations alone, and restarts, which take
  the greater of the manifest's counter and the recovered floor.\<close>

inductive allocator_run ::
  "checksum \<Rightarrow> 's backend \<Rightarrow> ('s \<Rightarrow> string \<Rightarrow> bytes option) \<Rightarrow> ('s \<Rightarrow> bool)
   \<Rightarrow> nat \<Rightarrow> 's \<Rightarrow> row_id_range list \<Rightarrow> bool"
  for crc be content good where
  opened:
    "good s \<Longrightarrow> read_row_id_high_water_with crc be s = (Inr (Some h), t) \<Longrightarrow> is_u64 m \<Longrightarrow>
     allocator_run crc be content good (max m h) t []"
| granted:
    "allocator_run crc be content good cur s gs \<Longrightarrow> claim crc be count cur s = Some (Inr r, cur', t) \<Longrightarrow>
     allocator_run crc be content good cur' t (gs @ [r])"
| failed:
    "allocator_run crc be content good cur s gs \<Longrightarrow> claim crc be count cur s = Some (Inl e, cur', t) \<Longrightarrow>
     allocator_run crc be content good cur' t gs"
| other_work:
    "allocator_run crc be content good cur s gs \<Longrightarrow> good t \<Longrightarrow>
     \<forall>n. reserved content s n \<longrightarrow> reserved content t n \<Longrightarrow>
     allocator_run crc be content good cur t gs"
| restarted:
    "allocator_run crc be content good cur s gs \<Longrightarrow>
     read_row_id_high_water_with crc be s = (Inr (Some h), t) \<Longrightarrow> is_u64 m \<Longrightarrow>
     allocator_run crc be content good (max m h) t gs"

section \<open>One claim\<close>

definition claim_post ::
  "('s \<Rightarrow> string \<Rightarrow> bytes option) \<Rightarrow> ('s \<Rightarrow> bool) \<Rightarrow> nat \<Rightarrow> nat \<Rightarrow> 's \<Rightarrow> (txn_error, row_id_range) result \<times> nat \<times> 's \<Rightarrow> bool" where
  "claim_post content good count cur s y \<longleftrightarrow>
     (case y of (r, cur', t) \<Rightarrow>
        good t \<and> is_u64 cur' \<and> cur \<le> cur' \<and>
        (\<forall>n. reserved content s n \<longrightarrow> reserved content t n) \<and>
        (\<forall>k. \<not> temporary k \<longrightarrow> (\<forall>n. k \<noteq> record_key n) \<longrightarrow> content t k = content s k) \<and>
        (\<forall>g. r = Inr g \<longrightarrow> len g = count \<and> cur \<le> base g \<and> cur' = range_end g \<and>
           floor_is content t (Some (range_end g))))"


context backend_contract
begin

lemma persist_at_floor:
  assumes "good s" "is_u64 n" "\<forall>m. reserved content s m \<longrightarrow> m \<le> n"
    and p: "persist_row_id_high_water_at_least_with crc be n s = (Inr e, t)"
  shows "e = n"
proof -
  note c = persist_correct [OF assms(1,2) p]
  have e: "n \<le> e" "reserved content t e" using c by (auto simp: floor_is_def)
  show ?thesis
  proof (cases "record_key e = record_key n")
    case True
    then show ?thesis by (simp add: record_key_inject)
  next
    case False
    then have "content t (record_key e) = content s (record_key e)"
      using c record_key_not_temporary by blast
    then have "reserved content s e" using e(2) by (simp add: reserved_def)
    then show ?thesis using assms(3) e(1) by (simp add: order_antisym)
  qed
qed

lemma claim_returns:
  assumes "good s" "is_u64 cur"
  shows "\<exists>y. claim crc be count cur s = Some y"
proof -
  have second: "\<exists>y. claim crc be count p t = Some y"
    if "good t" "floor_is content t (Some p)" "is_u64 p" for t p
  proof (cases "checked_add p count")
    case None
    then show ?thesis by (subst claim.simps) simp
  next
    case (Some end_id)
    then have en: "is_u64 end_id" "p \<le> end_id" by (auto simp: u64_simps is_u64_def)
    obtain rp t' where q: "persist_row_id_high_water_at_least_with crc be end_id t = (rp, t')"
      by (cases "persist_row_id_high_water_at_least_with crc be end_id t")
    have "\<forall>m. reserved content t m \<longrightarrow> m \<le> end_id"
      using that(2) en(2) by (auto simp: floor_is_def)
    then have "rp = Inr e \<Longrightarrow> e = end_id" for e
      using persist_at_floor [OF that(1) en(1)] q by blast
    then show ?thesis using Some q
      by (subst claim.simps) (auto split: sum.splits option.splits)
  qed
  show ?thesis
  proof (cases "checked_add cur count")
    case None
    then show ?thesis by (subst claim.simps) simp
  next
    case (Some end_id)
    then have en: "is_u64 end_id" "cur \<le> end_id" by (auto simp: u64_simps is_u64_def)
    obtain rp t where q: "persist_row_id_high_water_at_least_with crc be end_id s = (rp, t)"
      by (cases "persist_row_id_high_water_at_least_with crc be end_id s")
    show ?thesis
    proof (cases "\<exists>e. rp = Inr e \<and> e \<noteq> end_id")
      case True
      then obtain e where e: "rp = Inr e" "e \<noteq> end_id" by blast
      have c: "good t" "end_id \<le> e" "floor_is content t (Some e)"
        using persist_correct [OF assms(1) en(1) q] e(1) by auto
      have "is_u64 e" using c(3) by (simp add: floor_is_def reserved_def)
      then have "\<exists>y. claim crc be count (max cur e) t = Some y"
        using second [OF c(1,3)] en(2) c(2) by (simp add: max_def)
      then show ?thesis using Some q e by (subst claim.simps) simp
    next
      case False
      then show ?thesis using Some q by (subst claim.simps) (auto split: sum.splits option.splits)
    qed
  qed
qed

lemma claim_body:
  assumes IH: "\<And>cur' t y. f (max cur cur') t = Some y \<Longrightarrow> good t \<Longrightarrow> is_u64 (max cur cur') \<Longrightarrow>
      claim_post content good count (max cur cur') t y"
    and body: "(case checked_add cur count of
        None \<Rightarrow> Some (Inl ManifestOverflow, cur, s)
      | Some end_id \<Rightarrow>
          (case persist_row_id_high_water_at_least_with crc be end_id s of
             (Inr persisted_end, s') \<Rightarrow>
               if persisted_end = end_id
               then Some (Inr \<lparr> base = cur, len = count \<rparr>, end_id, s')
               else f (max cur persisted_end) s'
           | (Inl error, s') \<Rightarrow>
               (case possibly_published_end error of
                  Some possibly \<Rightarrow>
                    Some (Inl (RowIdReservationDurability possibly (into_storage_error error)),
                          max cur possibly, s')
                | None \<Rightarrow> Some (Inl (Storage (into_storage_error error)), cur, s')))) = Some y"
    and "good s" "is_u64 cur"
  shows "claim_post content good count cur s y"
proof (cases "checked_add cur count")
  case None
  then have "y = (Inl ManifestOverflow, cur, s)" using body by simp
  then show ?thesis using assms(3,4) by (simp add: claim_post_def)
next
  case (Some end_id)
  then have en: "is_u64 end_id" "end_id = cur + count" by (auto simp: u64_simps is_u64_def)
  obtain rp t where q: "persist_row_id_high_water_at_least_with crc be end_id s = (rp, t)"
    by (cases "persist_row_id_high_water_at_least_with crc be end_id s")
  note c = persist_correct [OF assms(3) en(1) q]
  show ?thesis
  proof (cases rp)
    case (Inl err)
    show ?thesis
    proof (cases err)
      case (Definite e)
      then have "y = (Inl (Storage e), cur, t)"
        using body Some q Inl by (simp add: possibly_published_end_def into_storage_error_def)
      then show ?thesis using c assms(4) by (simp add: claim_post_def)
    next
      case (PossiblyPublished e src)
      then have y: "y = (Inl (RowIdReservationDurability e src), max cur e, t)"
        using body Some q Inl by (simp add: possibly_published_end_def into_storage_error_def)
      have "is_u64 e" using c Inl PossiblyPublished by (simp add: floor_is_def reserved_def)
      then show ?thesis using c assms(4) y by (simp add: claim_post_def max_def)
    qed
  next
    case (Inr e)
    then have e: "end_id \<le> e" "floor_is content t (Some e)" "good t" using c by auto
    show ?thesis
    proof (cases "e = end_id")
      case True
      then have "y = (Inr \<lparr> base = cur, len = count \<rparr>, end_id, t)" using body Some q Inr by simp
      then show ?thesis using c e en True by (simp add: claim_post_def range_end_def)
    next
      case False
      then have f: "f (max cur e) t = Some y" using body Some q Inr by simp
      have "is_u64 e" using e(2) by (simp add: floor_is_def reserved_def)
      then have "is_u64 (max cur e)" using assms(4) by (simp add: max_def)
      note post = IH [OF f e(3) this]
      show ?thesis using post c by (auto simp: claim_post_def split: prod.splits)
    qed
  qed
qed

lemma claim_correct:
  assumes "claim crc be count cur s = Some y" "good s" "is_u64 cur"
  shows "claim_post content good count cur s y"
proof -
  have "be = be \<longrightarrow> good s \<longrightarrow> is_u64 cur \<longrightarrow> claim_post content good count cur s y"
    using assms(1)
  proof (rule claim.raw_induct [rotated, where P = "\<lambda>crc be' count cur s y.
      be' = be \<longrightarrow> good s \<longrightarrow> is_u64 cur \<longrightarrow> claim_post content good count cur s y"], intro impI, goal_cases)
    case (1 f crc be' count cur s y)
    show ?case
      by (rule claim_body [of "f crc be count" cur count s crc y]) (use 1 in auto)
  qed
  then show ?thesis using assms(2,3) by blast
qed

section \<open>Every claim of a dataset's life\<close>

lemma allocator_run_inv:
  "allocator_run crc be content good cur s gs \<Longrightarrow>
   good s \<and> is_u64 cur \<and>
   (\<forall>g\<in>set gs. range_end g \<le> cur \<and> reserved content s (range_end g)) \<and>
   sorted_wrt (\<lambda>g g'. range_end g \<le> base g') gs"
proof (induction rule: allocator_run.induct)
  case (opened s h t m)
  then have "good t" using read_high_water_frame by blast
  moreover have "is_u64 h"
    using read_high_water_ok [OF opened(1,2)] by (simp add: floor_is_def reserved_def)
  ultimately show ?case using opened(3) by (simp add: max_def)
next
  case (granted cur s gs count r cur' t)
  have post: "claim_post content good count cur s (Inr r, cur', t)"
    using claim_correct granted by blast
  then have r: "cur \<le> base r" "cur' = range_end r" "reserved content t (range_end r)"
    "good t" "is_u64 cur'" "\<And>n. reserved content s n \<Longrightarrow> reserved content t n" "cur \<le> cur'"
    by (auto simp: claim_post_def floor_is_def)
  then show ?case using granted.IH
    by (auto simp: sorted_wrt_append intro: order_trans)
next
  case (failed cur s gs count e cur' t)
  have "claim_post content good count cur s (Inl e, cur', t)" using claim_correct failed by blast
  then show ?case using failed.IH by (auto simp: claim_post_def intro: order_trans)
next
  case (other_work cur s gs t)
  then show ?case by blast
next
  case (restarted cur s gs h t m)
  then have g: "good s" by blast
  note fl = read_high_water_ok [OF g restarted(2)]
  note fr = read_high_water_frame [OF g restarted(2)]
  have h: "is_u64 h" "\<And>n. reserved content s n \<Longrightarrow> n \<le> h"
    using fl by (auto simp: floor_is_def reserved_def)
  have "range_end q \<le> max m h \<and> reserved content t (range_end q)" if "q \<in> set gs" for q
    using restarted.IH that h(2) reserved_cong [of content t s] fr by (auto simp: le_max_iff_disj)
  then show ?case using restarted.IH restarted(3) h(1) fr by (simp add: max_def)
qed

end

section \<open>Properties\<close>

definition zero_crc :: checksum where
  "zero_crc bs = 0"

text \<open>A dataset directory that holds the given reservation records.\<close>

definition record_fs :: "nat list \<Rightarrow> nat \<Rightarrow> lfs" where
  "record_fs ends n =
     \<lparr> root_node = Some (DirN [(''_meta'', DirN [(''row-id-high-water'',
         DirN (map (\<lambda>e. (fmt020 e @ ''.reservation'', FileN (encode_record zero_crc e))) ends))])]),
       tmp_counter = n, pid = 1, faults = [] \<rparr>"

lemma numerals_020:
  "fmt020 0 = ''00000000000000000000''" "fmt020 3 = ''00000000000000000003''"
  "fmt020 8 = ''00000000000000000008''" "dec 0 = ''0''" "dec 1 = ''1''"
  by code_simp+

lemma example_keys:
  "record_key 0 = ''_meta/row-id-high-water/00000000000000000000.reservation''"
  "record_key 3 = ''_meta/row-id-high-water/00000000000000000003.reservation''"
  "record_key 8 = ''_meta/row-id-high-water/00000000000000000008.reservation''"
  by (simp_all add: record_key_def numerals_020 ROW_ID_HIGH_WATER_PREFIX_def RECORD_SUFFIX_def)

lemma example_ends:
  "end_from_key ''_meta/row-id-high-water/00000000000000000000.reservation'' = Some 0"
  "end_from_key ''_meta/row-id-high-water/00000000000000000003.reservation'' = Some 3"
  "decode_record zero_crc (encode_record zero_crc 0) = Inr 0"
  "decode_record zero_crc (encode_record zero_crc 3) = Inr 3"
  using end_from_record_key [of 0] end_from_record_key [of 3] decode_encode [of 0] decode_encode [of 3]
  by (simp_all add: example_keys is_u64_def u64_max_def)

lemmas hw_eval =
  persist_row_id_high_water_at_least_with_def read_row_id_high_water_with_def
  read_row_id_high_water_with_byte_count_with_def map_errSE_def at_least_def
  dataset_key_new_def validate_key_components_def ROW_ID_HIGH_WATER_PREFIX_def
  owned_def owner_list_def local_fs_def prefixed_def strip_namespace_empty
  example_keys example_ends numerals_020 record_fs_def

lemma record_fs_good: "lfs_good (record_fs [0] n)"
  by (simp add: lfs_good_def record_fs_def numerals_020 wf_node.simps(3) good_name_def unsafe_segment_def)

lemma example_open:
  "read_row_id_high_water_with zero_crc local_owner (record_fs [0] 0) = (Inr (Some 0), record_fs [0] 0)"
  "read_row_id_high_water_with zero_crc local_owner (record_fs [0, 3] 1) = (Inr (Some 3), record_fs [0, 3] 1)"
  by (simp_all add: hw_eval fs_eval less_eq_char_def)

lemma example_claim:
  "claim zero_crc local_owner 3 0 (record_fs [0] 0) = Some (Inr \<lparr> base = 0, len = 3 \<rparr>, 3, record_fs [0, 3] 1)"
  "claim zero_crc local_owner 5 3 (record_fs [0, 3] 1) =
     Some (Inr \<lparr> base = 3, len = 5 \<rparr>, 8, record_fs [0, 3, 8] 2)"
  by (subst claim.simps,
      simp add: hw_eval fs_eval checked_add_def u64_max_def less_eq_char_def AList.delete_eq)+

text \<open>C6: A claim always returns, whatever the state of the local store and whatever fails: the
  retry loop ends.  A granted range starts at or above the counter, has the requested
  length and does not wrap, the counter moves to its end, and its end is then the
  greatest reservation visible in the store; no visible reservation is ever lost.\<close>

theorem claim_total:
  assumes "lfs_good s" "is_u64 cur"
  shows "\<exists>r cur' t. claim crc local_owner count cur s = Some (r, cur', t) \<and>
    lfs_good t \<and> is_u64 cur' \<and> cur \<le> cur' \<and>
    (\<forall>n. reserved owner_content s n \<longrightarrow> reserved owner_content t n) \<and>
    (\<forall>g. r = Inr g \<longrightarrow> len g = count \<and> cur \<le> base g \<and> cur' = range_end g \<and>
       floor_is owner_content t (Some (range_end g)))"
proof -
  obtain y where y: "claim crc local_owner count cur s = Some y"
    using local_dataset.own.claim_returns [OF assms] by blast
  from local_dataset.own.claim_correct [OF y assms] y show ?thesis
    by (cases y) (auto simp: claim_post_def)
qed

theorem claim_total_witness:
  "claim zero_crc local_owner 3 0 (record_fs [0] 0) =
     Some (Inr \<lparr> base = 0, len = 3 \<rparr>, 3, record_fs [0, 3] 1) \<and>
   floor_is owner_content (record_fs [0, 3] 1) (Some 3)"
  using claim_total [OF record_fs_good, of 0 zero_crc 3 0] example_claim(1)
  by (auto simp: is_u64_def range_end_def)

text \<open>C3: Row ids are never handed out twice.  Over any sequence of successful claims, failed
  claims with any pattern of storage failures, other work that keeps the reservations,
  and restarts that recover the counter from the store, the granted ranges are ordered
  and pairwise disjoint.\<close>

theorem ranges_never_overlap:
  assumes "allocator_run crc local_owner owner_content lfs_good cur s gs" "i < j" "j < length gs"
  shows "range_end (gs ! i) \<le> base (gs ! j) \<and> range_end (gs ! j) \<le> cur"
  using local_dataset.own.allocator_run_inv [OF assms(1)] assms(2,3)
    sorted_wrt_nth_less [of "\<lambda>g g'. range_end g \<le> base g'" gs i j] by auto

theorem ranges_never_overlap_witness:
  "range_end \<lparr> base = 0, len = 3 \<rparr> \<le> base \<lparr> base = 3, len = 5 \<rparr> \<and>
   range_end \<lparr> base = 3, len = 5 \<rparr> \<le> 8"
proof -
  let ?run = "allocator_run zero_crc local_owner owner_content lfs_good"
  have "?run 0 (record_fs [0] 0) []"
    using opened [of lfs_good "record_fs [0] 0" zero_crc local_owner 0 "record_fs [0] 0" 0]
      record_fs_good example_open(1) by (simp add: is_u64_def)
  then have "?run 3 (record_fs [0, 3] 1) [\<lparr> base = 0, len = 3 \<rparr>]"
    using granted [OF _ example_claim(1)] by fastforce
  then have "?run 3 (record_fs [0, 3] 1) [\<lparr> base = 0, len = 3 \<rparr>]"
    using restarted [of zero_crc local_owner owner_content lfs_good 3 "record_fs [0, 3] 1" _ 3 _ 0]
      example_open(2) by (simp add: is_u64_def)
  then have "?run 8 (record_fs [0, 3, 8] 2) [\<lparr> base = 0, len = 3 \<rparr>, \<lparr> base = 3, len = 5 \<rparr>]"
    using granted [OF _ example_claim(2)] by fastforce
  from ranges_never_overlap [OF this, of 0 1] show ?thesis by simp
qed

text \<open>C31: A reservation found in the store is not always treated as a floor only: if the greatest
  visible reservation is exactly the end the claim asks for, the claim grants the range
  below it without publishing anything.  A handle whose counter is stale by exactly that
  amount is therefore granted a range that another handle already holds.\<close>

theorem discovered_reservation_is_granted:
  assumes "read_row_id_high_water_with crc be s = (Inr (Some (cur + count)), t)"
    and "is_u64 (cur + count)"
  shows "claim crc be count cur s = Some (Inr \<lparr> base = cur, len = count \<rparr>, cur + count, t)"
  using assms
  by (subst claim.simps)
    (simp add: checked_add_def is_u64_def persist_row_id_high_water_at_least_with_def bindSE_def
      map_errSE_def at_least_def)

theorem discovered_reservation_is_granted_witness:
  "claim zero_crc local_owner 3 0 (record_fs [0] 0) =
     Some (Inr \<lparr> base = 0, len = 3 \<rparr>, 3, record_fs [0, 3] 1) \<and>
   claim zero_crc local_owner 3 0 (record_fs [0, 3] 1) =
     Some (Inr \<lparr> base = 0, len = 3 \<rparr>, 3, record_fs [0, 3] 1)"
  using example_claim(1)
    discovered_reservation_is_granted [of zero_crc local_owner "record_fs [0, 3] 1" 0 3 "record_fs [0, 3] 1"]
    example_open(2) by (simp add: is_u64_def u64_max_def)

end
