(* ===== verification/Observability.thy ===== *)
theory Observability
  imports Prelude
begin

text \<open>
  The bounded journal of operational events of one dataset handle
  (\<open>crates/txn/src/observability.rs\<close>).
\<close>

section \<open>Model\<close>

datatype operational_event_kind =
    DatasetCreated
  | DatasetOpened
  | TransactionBegan
  | TransactionCommitted
  | TransactionConflict
  | TransactionFailed
  | LifecycleSucceeded
  | LifecycleFailed

datatype operational_event_outcome = EvSucceeded | EvConflict | EvFailed

record operational_event =
  oe_sequence :: nat
  oe_kind :: operational_event_kind
  oe_outcome :: operational_event_outcome

record operational_event_filter =
  of_kind :: "operational_event_kind option"
  of_outcome :: "operational_event_outcome option"

definition filter_matches :: "operational_event_filter \<Rightarrow> operational_event \<Rightarrow> bool" where
  "filter_matches f e \<longleftrightarrow>
     (case of_kind f of None \<Rightarrow> True | Some k \<Rightarrow> k = oe_kind e) \<and>
     (case of_outcome f of None \<Rightarrow> True | Some oc \<Rightarrow> oc = oe_outcome e)"

text \<open>The two counters are atomic 64-bit integers and wrap around.\<close>

record event_log =
  el_capacity :: nat
  el_events :: "operational_event list"
  el_next_sequence :: nat
  el_dropped :: nat

definition event_log_new :: "nat \<Rightarrow> event_log" where
  "event_log_new cap =
     \<lparr> el_capacity = max cap 1, el_events = [], el_next_sequence = 0, el_dropped = 0 \<rparr>"

definition fetch_add_u64 :: "nat \<Rightarrow> nat \<Rightarrow> nat" where
  "fetch_add_u64 n k = (n + k) mod 2 ^ 64"

definition event_record ::
  "operational_event_kind \<Rightarrow> operational_event_outcome \<Rightarrow> event_log \<Rightarrow> event_log" where
  "event_record kind outcome l =
     (let event = \<lparr> oe_sequence = el_next_sequence l, oe_kind = kind, oe_outcome = outcome \<rparr>;
          full = (length (el_events l) = el_capacity l)
      in l\<lparr> el_next_sequence := fetch_add_u64 (el_next_sequence l) 1,
            el_dropped := (if full then fetch_add_u64 (el_dropped l) 1 else el_dropped l),
            el_events := (if full then tl (el_events l) else el_events l) @ [event] \<rparr>)"

definition event_snapshot :: "operational_event_filter \<Rightarrow> event_log \<Rightarrow> operational_event list" where
  "event_snapshot f l = filter (filter_matches f) (el_events l)"

fun drain_loop ::
  "operational_event_filter \<Rightarrow> operational_event list \<Rightarrow> operational_event list \<Rightarrow> operational_event list
   \<Rightarrow> operational_event list \<times> operational_event list" where
  "drain_loop f [] drained retained = (drained, retained)"
| "drain_loop f (e # es) drained retained =
     (if filter_matches f e then drain_loop f es (drained @ [e]) retained
      else drain_loop f es drained (retained @ [e]))"

definition event_drain :: "operational_event_filter \<Rightarrow> event_log \<Rightarrow> operational_event list \<times> event_log" where
  "event_drain f l =
     (case drain_loop f (el_events l) [] [] of (drained, retained) \<Rightarrow> (drained, l\<lparr> el_events := retained \<rparr>))"

definition dropped_count :: "event_log \<Rightarrow> nat" where
  "dropped_count l = el_dropped l"

section \<open>Histories\<close>

text \<open>What a handle does to its journal, with everything ever drained from it.\<close>

datatype journal_call =
    Record operational_event_kind operational_event_outcome
  | Drain operational_event_filter

fun journal_step :: "journal_call \<Rightarrow> event_log \<times> operational_event list \<Rightarrow> event_log \<times> operational_event list" where
  "journal_step (Record k oc) (l, taken) = (event_record k oc l, taken)"
| "journal_step (Drain f) (l, taken) = (let (d, l') = event_drain f l in (l', taken @ d))"

definition journal_run :: "nat \<Rightarrow> journal_call list \<Rightarrow> event_log \<times> operational_event list" where
  "journal_run cap calls = fold journal_step calls (event_log_new cap, [])"

definition num_records :: "journal_call list \<Rightarrow> nat" where
  "num_records calls = length (filter (\<lambda>c. case c of Record _ _ \<Rightarrow> True | Drain _ \<Rightarrow> False) calls)"

lemma drain_loop_eq:
  "drain_loop f es drained retained =
     (drained @ filter (filter_matches f) es, retained @ filter (\<lambda>e. \<not> filter_matches f e) es)"
  by (induction f es drained retained rule: drain_loop.induct) auto

lemma event_drain_eq:
  "event_drain f l = (event_snapshot f l, l\<lparr> el_events := filter (\<lambda>e. \<not> filter_matches f e) (el_events l) \<rparr>)"
  by (simp add: event_drain_def drain_loop_eq event_snapshot_def)

definition journal_inv :: "nat \<Rightarrow> nat \<Rightarrow> event_log \<times> operational_event list \<Rightarrow> bool" where
  "journal_inv cap n st \<longleftrightarrow>
     (case st of (l, taken) \<Rightarrow>
        el_capacity l = max cap 1 \<and> el_next_sequence l = n \<and> length (el_events l) \<le> el_capacity l \<and>
        sorted_wrt (<) (map oe_sequence (el_events l)) \<and>
        (\<forall>e\<in>set (el_events l) \<union> set taken. oe_sequence e < n) \<and>
        distinct (map oe_sequence taken) \<and>
        oe_sequence ` set taken \<inter> oe_sequence ` set (el_events l) = {} \<and>
        el_dropped l + length (el_events l) + length taken = n)"

lemma strict_sorted_filter_map: "sorted_wrt (<) (map f xs) \<Longrightarrow> sorted_wrt (<) (map f (filter P xs))"
  by (simp add: sorted_wrt_map sorted_wrt_filter)

lemma journal_record_inv:
  assumes inv: "journal_inv cap n (l, taken)" and n: "n < 2 ^ 64 - 1"
  shows "journal_inv cap (Suc n) (event_record k oc l, taken)"
proof -
  have d: "el_dropped l < 2 ^ 64 - 1" using inv n by (simp add: journal_inv_def)
  show ?thesis
  proof (cases "length (el_events l) = el_capacity l")
    case True
    then obtain e es where es: "el_events l = e # es"
      using inv by (cases "el_events l") (auto simp: journal_inv_def)
    then show ?thesis using inv True n d
      by (auto simp: journal_inv_def event_record_def Let_def fetch_add_u64_def sorted_wrt_append less_Suc_eq)
  next
    case False
    then show ?thesis using inv n d
      by (auto simp: journal_inv_def event_record_def Let_def fetch_add_u64_def sorted_wrt_append less_Suc_eq)
  qed
qed

lemma journal_drain_inv:
  assumes inv: "journal_inv cap n (l, taken)"
  shows "journal_inv cap n (journal_step (Drain f) (l, taken))"
proof -
  let ?es = "el_events l"
  have dist: "distinct (map oe_sequence ?es)"
    using inv by (simp add: journal_inv_def strict_sorted_iff)
  have split: "length (filter (filter_matches f) ?es) + length (filter (\<lambda>e. \<not> filter_matches f e) ?es) = length ?es"
    by (rule sum_length_filter_compl)
  have apart: "oe_sequence ` set (filter (filter_matches f) ?es) \<inter>
      oe_sequence ` set (filter (\<lambda>e. \<not> filter_matches f e) ?es) = {}"
    using dist by (auto simp: distinct_map inj_on_def)
  show ?thesis
    using inv split apart dist strict_sorted_filter_map [of oe_sequence ?es]
    by (auto simp: journal_inv_def event_drain_eq event_snapshot_def distinct_map_filter
        intro: le_trans [OF length_filter_le])
qed

lemma journal_run_snoc:
  "journal_run cap (calls @ [c]) = journal_step c (journal_run cap calls)"
  by (simp add: journal_run_def)

lemma journal_run_inv:
  "num_records calls < 2 ^ 64 \<Longrightarrow> journal_inv cap (num_records calls) (journal_run cap calls)"
proof (induction calls rule: rev_induct)
  case Nil
  then show ?case by (simp add: journal_inv_def journal_run_def event_log_new_def num_records_def)
next
  case (snoc c calls)
  obtain l taken where run: "journal_run cap calls = (l, taken)" by fastforce
  have ih: "journal_inv cap (num_records calls) (l, taken)"
    using snoc run by (auto simp: num_records_def split: journal_call.splits if_splits)
  show ?case
  proof (cases c)
    case (Record k oc)
    then have "num_records (calls @ [c]) = Suc (num_records calls)" by (simp add: num_records_def)
    then show ?thesis using journal_record_inv [OF ih, of k oc] snoc.prems Record run
      by (simp add: journal_run_snoc)
  next
    case (Drain f)
    then have "num_records (calls @ [c]) = num_records calls" by (simp add: num_records_def)
    then show ?thesis using journal_drain_inv [OF ih, of f] Drain run by (simp add: journal_run_snoc)
  qed
qed

section \<open>Property\<close>

text \<open>C19: The journal is bounded, ordered and accounts for every event.  After any sequence of
  records and drains (fewer than \<open>2 ^ 64\<close> records) it holds at most its capacity, its events and
  everything drained carry distinct sequence numbers in the range issued, the retained ones in
  increasing order, and the events retained, drained and counted as dropped add up to the events
  recorded.\<close>

theorem journal_accounts_for_every_event:
  assumes "num_records calls < 2 ^ 64" and "journal_run cap calls = (l, taken)"
  shows "length (el_events l) \<le> max cap 1 \<and> sorted_wrt (<) (map oe_sequence (el_events l)) \<and>
    distinct (map oe_sequence (taken @ el_events l)) \<and>
    (\<forall>e\<in>set (taken @ el_events l). oe_sequence e < num_records calls) \<and>
    dropped_count l + length (el_events l) + length taken = num_records calls"
  using journal_run_inv [OF assms(1), of cap] assms(2)
  by (auto simp: journal_inv_def dropped_count_def strict_sorted_iff)

theorem journal_accounts_for_every_event_witness:
  "let calls = [Record TransactionBegan EvSucceeded, Record TransactionConflict EvConflict,
       Record TransactionBegan EvSucceeded,
       Drain \<lparr> of_kind = Some TransactionConflict, of_outcome = None \<rparr>];
       (l, taken) = journal_run 2 calls
   in num_records calls = 3 \<and> map oe_sequence taken = [1] \<and> map oe_sequence (el_events l) = [2] \<and>
      dropped_count l + length (el_events l) + length taken = 3"
proof -
  let ?calls = "[Record TransactionBegan EvSucceeded, Record TransactionConflict EvConflict,
       Record TransactionBegan EvSucceeded,
       Drain \<lparr> of_kind = Some TransactionConflict, of_outcome = None \<rparr>]"
  obtain l taken where run: "journal_run 2 ?calls = (l, taken)" by fastforce
  have n: "num_records ?calls = 3" by (simp add: num_records_def)
  have out: "map oe_sequence taken = [1]" "map oe_sequence (el_events l) = [2]"
    using run by (auto simp: journal_run_def event_log_new_def event_record_def event_drain_eq
        event_snapshot_def filter_matches_def fetch_add_u64_def Let_def)
  have "num_records ?calls < 2 ^ 64" unfolding n by simp
  from journal_accounts_for_every_event [OF this run] show ?thesis
    unfolding Let_def run using n out by simp
qed

end
