(* ===== verification/CommitLog.thy ===== *)
theory CommitLog
  imports Prelude
begin

text \<open>
  The bounded in-memory log of committed write sets
  (\<open>crates/txn/src/commit_log.rs\<close>): the ring buffer, its three-way conflict
  check with the binary-searched start and the deduplicating scan, and the
  proof that the check answers correctly for the whole, unbounded history of
  commits even though the buffer forgets old entries.
\<close>

section \<open>Model\<close>

datatype conflict_check =
    Clean
  | Conflict "nat list"
  | InsufficientHistory nat

definition HASH_WRITE_SET_ABOVE :: nat where
  "HASH_WRITE_SET_ABOVE = 32"

record commit_log =
  capacity :: nat
  entries :: "(nat \<times> nat list) list"

definition new_log :: "nat \<Rightarrow> commit_log" where
  "new_log cap = \<lparr> capacity = max cap 1, entries = [] \<rparr>"

definition push :: "nat \<Rightarrow> nat list \<Rightarrow> commit_log \<Rightarrow> commit_log" where
  "push version write_set log =
     (let kept = (if length (entries log) \<ge> capacity log then tl (entries log) else entries log)
      in log\<lparr> entries := kept @ [(version, write_set)] \<rparr>)"

text \<open>The standard library's \<open>partition_point\<close>: a binary search for the first
  element that fails the predicate.\<close>

function partition_search :: "('a \<Rightarrow> bool) \<Rightarrow> 'a list \<Rightarrow> nat \<Rightarrow> nat \<Rightarrow> nat" where
  "partition_search P xs lo hi =
     (if lo < hi \<and> hi \<le> length xs
      then let mid = (lo + hi) div 2 in
           if P (xs ! mid) then partition_search P xs (mid + 1) hi
           else partition_search P xs lo mid
      else lo)"
  by pat_completeness auto
termination
  by (relation "measure (\<lambda>(P, xs, lo, hi). hi - lo)") auto

declare partition_search.simps [simp del]

definition partition_point :: "('a \<Rightarrow> bool) \<Rightarrow> 'a list \<Rightarrow> nat" where
  "partition_point P xs = partition_search P xs 0 (length xs)"

text \<open>The two nested loops of \<open>scan_for_contested\<close>; \<open>contested\<close> grows at its end
  and \<open>seen\<close> is the hash set that keeps every row once.\<close>

fun scan_rows :: "(nat \<Rightarrow> bool) \<Rightarrow> nat list \<Rightarrow> nat list \<times> nat set \<Rightarrow> nat list \<times> nat set" where
  "scan_rows touches [] acc = acc"
| "scan_rows touches (row_id # rest) (contested, seen) =
     (if touches row_id \<and> row_id \<notin> seen
      then scan_rows touches rest (contested @ [row_id], insert row_id seen)
      else scan_rows touches rest (contested, seen))"

fun scan_entries ::
  "(nat \<Rightarrow> bool) \<Rightarrow> nat \<Rightarrow> (nat \<times> nat list) list \<Rightarrow> nat list \<times> nat set \<Rightarrow> nat list \<times> nat set" where
  "scan_entries touches up_to [] acc = acc"
| "scan_entries touches up_to ((version, rows) # rest) acc =
     (if version > up_to then acc
      else scan_entries touches up_to rest (scan_rows touches rows acc))"

definition scan_for_contested ::
  "commit_log \<Rightarrow> nat \<Rightarrow> nat \<Rightarrow> (nat \<Rightarrow> bool) \<Rightarrow> conflict_check" where
  "scan_for_contested log start up_to touches =
     (case scan_entries touches up_to (drop start (entries log)) ([], {}) of
        (contested, seen) \<Rightarrow> if contested = [] then Clean else Conflict contested)"

definition conflicts_with :: "commit_log \<Rightarrow> nat \<Rightarrow> nat \<Rightarrow> nat list \<Rightarrow> conflict_check" where
  "conflicts_with log since up_to write_set =
     (if write_set = [] then Clean
      else if up_to \<le> since then Clean
      else case entries log of
        [] \<Rightarrow> InsufficientHistory (saturating_add up_to 1)
      | (oldest, _) # _ \<Rightarrow>
          if oldest > since + 1 then InsufficientHistory oldest
          else let start = partition_point (\<lambda>(version, _). version \<le> since) (entries log) in
               if length write_set > HASH_WRITE_SET_ABOVE
               then let hashed = set write_set
                    in scan_for_contested log start up_to (\<lambda>row_id. row_id \<in> hashed)
               else scan_for_contested log start up_to (\<lambda>row_id. List.member write_set row_id))"

section \<open>Reference definitions\<close>

text \<open>First occurrences, in order.\<close>

fun firsts :: "nat set \<Rightarrow> nat list \<Rightarrow> nat list" where
  "firsts seen [] = []"
| "firsts seen (x # xs) = (if x \<in> seen then firsts seen xs else x # firsts (insert x seen) xs)"

definition rows_in_range :: "nat \<Rightarrow> nat \<Rightarrow> (nat \<times> nat list) list \<Rightarrow> nat list" where
  "rows_in_range since up_to es =
     concat (map snd (filter (\<lambda>(v, _). since < v \<and> v \<le> up_to) es))"

text \<open>\<open>log_of base h log\<close>: the log is the ring buffer after the commits
  \<open>base + 1, base + 2, \<dots>\<close> whose write sets are listed in \<open>h\<close>.\<close>

definition versioned :: "nat \<Rightarrow> nat list list \<Rightarrow> (nat \<times> nat list) list" where
  "versioned base h = zip [Suc base ..< Suc base + length h] h"

definition log_of :: "nat \<Rightarrow> nat list list \<Rightarrow> commit_log \<Rightarrow> bool" where
  "log_of base h log \<longleftrightarrow>
     0 < capacity log \<and>
     entries log = drop (length h - min (length h) (capacity log)) (versioned base h)"

section \<open>The scan\<close>

lemma partition_search_correct:
  "sorted_wrt (\<lambda>x y. P y \<longrightarrow> P x) xs \<Longrightarrow> lo \<le> hi \<Longrightarrow> hi \<le> length xs \<Longrightarrow>
   \<forall>i<lo. P (xs ! i) \<Longrightarrow> \<forall>i. hi \<le> i \<and> i < length xs \<longrightarrow> \<not> P (xs ! i) \<Longrightarrow>
   partition_search P xs lo hi = length (takeWhile P xs)"
proof (induction P xs lo hi rule: partition_search.induct)
  case (1 P xs lo hi)
  show ?case
  proof (cases "lo < hi")
    case True
    define mid where "mid = (lo + hi) div 2"
    have mid: "lo \<le> mid" "mid < hi" using True by (auto simp: mid_def)
    show ?thesis
    proof (cases "P (xs ! mid)")
      case True
      have below: "\<forall>i<mid + 1. P (xs ! i)"
      proof (intro allI impI)
        fix i assume "i < mid + 1"
        then show "P (xs ! i)"
          using True 1(3) mid 1(5) sorted_wrt_nth_less [OF 1(3), of i mid]
          by (cases "i = mid") auto
      qed
      show ?thesis
        using 1(1) [of mid] 1(3-) True \<open>lo < hi\<close> mid below
        by (subst partition_search.simps) (simp add: mid_def [symmetric] Let_def)
    next
      case False
      have above: "\<forall>i. mid \<le> i \<and> i < length xs \<longrightarrow> \<not> P (xs ! i)"
      proof (intro allI impI)
        fix i assume "mid \<le> i \<and> i < length xs"
        then show "\<not> P (xs ! i)"
          using False sorted_wrt_nth_less [OF 1(3), of mid i]
          by (cases "i = mid") auto
      qed
      show ?thesis
        using 1(2) [of mid] 1(3-) False \<open>lo < hi\<close> mid above
        by (subst partition_search.simps) (simp add: mid_def [symmetric] Let_def)
    qed
  next
    case False
    then have "lo = hi" using 1(4) by simp
    then have "takeWhile P xs = take lo xs"
      using 1(5-) by (intro takeWhile_eq_take_P_nth) auto
    then show ?thesis
      using False \<open>lo = hi\<close> 1(5) by (subst partition_search.simps) simp
  qed
qed

lemma drop_partition_point:
  assumes "sorted_wrt (\<lambda>x y. P y \<longrightarrow> P x) xs"
  shows "drop (partition_point P xs) xs = dropWhile P xs"
proof -
  have "partition_search P xs 0 (length xs) = length (takeWhile P xs)"
    by (rule partition_search_correct) (use assms in auto)
  then show ?thesis by (simp add: partition_point_def dropWhile_eq_drop)
qed

lemma scan_rows_firsts:
  "scan_rows touches rows (c, s) =
     (c @ firsts s (filter touches rows), s \<union> set (filter touches rows))"
  by (induction rows arbitrary: c s) auto

lemma firsts_append: "firsts s (xs @ ys) = firsts s xs @ firsts (s \<union> set xs) ys"
  by (induction xs arbitrary: s) (auto simp: insert_absorb)

lemma set_firsts: "set (firsts s xs) = set xs - s"
  by (induction xs arbitrary: s) auto

lemma distinct_firsts: "distinct (firsts s xs)"
  by (induction xs arbitrary: s) (auto simp: set_firsts)

lemma firsts_Nil_iff: "firsts s xs = [] \<longleftrightarrow> set xs \<subseteq> s"
  using set_firsts [of s xs] by (metis Diff_eq_empty_iff set_empty)

lemma scan_entries_firsts:
  "sorted_wrt (<) (map fst es) \<Longrightarrow>
   fst (scan_entries touches up_to es (c, s)) =
     c @ firsts s (filter touches (concat (map snd (filter (\<lambda>(v, _). v \<le> up_to) es))))"
proof (induction es arbitrary: c s)
  case (Cons e es)
  obtain v rows where e: "e = (v, rows)" by (cases e)
  show ?case
  proof (cases "v > up_to")
    case True
    then have "filter (\<lambda>(v, _). v \<le> up_to) es = []"
      using Cons.prems e by (fastforce simp: filter_empty_conv)
    with True e show ?thesis by simp
  next
    case False
    with e Cons show ?thesis by (simp add: scan_rows_firsts firsts_append)
  qed
qed simp

lemma dropWhile_sorted_filter:
  "sorted_wrt (<) (map fst es) \<Longrightarrow>
   dropWhile (\<lambda>(v, _). v \<le> since) es = filter (\<lambda>(v, _). since < (v :: nat)) es"
proof (induction es)
  case (Cons e es)
  obtain v rows where e: "e = (v, rows)" by (cases e)
  show ?case
  proof (cases "v \<le> since")
    case False
    then have "filter (\<lambda>(v, _). since < v) es = es"
      using Cons.prems e by (intro filter_True) fastforce
    with False e show ?thesis by simp
  qed (use e Cons in simp)
qed simp

lemma sorted_fst_mono:
  "sorted_wrt (<) (map fst es) \<Longrightarrow>
   sorted_wrt (\<lambda>x y. (case y of (v, _) \<Rightarrow> v \<le> since) \<longrightarrow> (case x of (v, _) \<Rightarrow> v \<le> (since :: nat))) es"
  by (auto simp: sorted_wrt_map elim!: sorted_wrt_mono_rel [rotated])

lemma scan_for_contested_eq:
  assumes "sorted_wrt (<) (map fst (entries log))"
  shows "scan_for_contested log (partition_point (\<lambda>(v, _). v \<le> since) (entries log)) up_to touches =
    (let c = firsts {} (filter touches (rows_in_range since up_to (entries log)))
     in if c = [] then Clean else Conflict c)"
proof -
  let ?es = "dropWhile (\<lambda>(v, _). v \<le> since) (entries log)"
  have d: "drop (partition_point (\<lambda>(v, _). v \<le> since) (entries log)) (entries log) = ?es"
    by (rule drop_partition_point [OF sorted_fst_mono [OF assms]])
  have s: "sorted_wrt (<) (map fst ?es)"
    using assms dropWhile_sorted_filter [OF assms, of since]
    by (simp add: sorted_wrt_map sorted_wrt_filter)
  have "fst (scan_entries touches up_to ?es ([], {})) =
    [] @ firsts {} (filter touches (concat (map snd (filter (\<lambda>(v, _). v \<le> up_to) ?es))))"
    by (rule scan_entries_firsts [OF s])
  also have "filter (\<lambda>(v, _). v \<le> up_to) ?es =
    filter (\<lambda>(v, _). since < v \<and> v \<le> up_to) (entries log)"
    by (subst dropWhile_sorted_filter [OF assms]) (simp add: case_prod_unfold conj_commute)
  finally have "fst (scan_entries touches up_to ?es ([], {})) =
    firsts {} (filter touches (rows_in_range since up_to (entries log)))"
    by (simp add: rows_in_range_def)
  then show ?thesis
    unfolding scan_for_contested_def d Let_def by (simp add: case_prod_unfold)
qed

section \<open>The ring buffer against the whole history\<close>

lemma length_versioned [simp]: "length (versioned base h) = length h"
  by (simp add: versioned_def del: upt_Suc)

lemma versioned_snoc: "versioned base (h @ [ws]) = versioned base h @ [(base + 1 + length h, ws)]"
  using upt_Suc_append [of "Suc base" "Suc base + length h"]
  by (simp add: versioned_def del: upt_Suc)

lemma map_fst_versioned: "map fst (versioned base h) = [Suc base ..< Suc base + length h]"
  by (simp add: versioned_def del: upt_Suc)

lemma versioned_sorted: "sorted_wrt (<) (map fst (drop n (versioned base h)))"
  by (simp add: drop_map [symmetric] map_fst_versioned del: upt_Suc)

lemma in_versioned_iff:
  "(v, ws) \<in> set (versioned base h) \<longleftrightarrow> base < v \<and> v \<le> base + length h \<and> ws = h ! (v - base - 1)"
  by (auto simp: versioned_def set_zip simp del: upt_Suc intro!: exI [of _ "v - base - 1"])

lemma log_of_new: "0 < cap \<Longrightarrow> log_of base [] (new_log cap)"
  by (simp add: log_of_def new_log_def versioned_def)

lemma push_keeps_log_of:
  assumes "log_of base h log"
  shows "log_of base (h @ [ws]) (push (base + 1 + length h) ws log)"
proof (cases "length h < capacity log")
  case True
  then show ?thesis
    using assms by (simp add: log_of_def push_def versioned_snoc)
next
  case False
  then have "tl (drop (length h - capacity log) (versioned base h)) =
      drop (Suc (length h) - capacity log) (versioned base h)"
    using assms by (simp add: log_of_def tl_drop drop_Suc Suc_diff_le)
  with False show ?thesis
    using assms by (simp add: log_of_def push_def versioned_snoc)
qed

lemma log_of_sorted: "log_of base h log \<Longrightarrow> sorted_wrt (<) (map fst (entries log))"
  by (simp add: log_of_def versioned_sorted)

lemma log_of_length: "log_of base h log \<Longrightarrow> length (entries log) \<le> capacity log"
  by (simp add: log_of_def min_def)

text \<open>The log a handle holds after it recorded the commits of \<open>h\<close> in order.\<close>

definition run_log :: "nat \<Rightarrow> nat \<Rightarrow> nat list list \<Rightarrow> commit_log" where
  "run_log base cap h = fold (\<lambda>(version, ws). push version ws) (versioned base h) (new_log cap)"

lemma run_log_snoc: "run_log base cap (h @ [ws]) = push (base + 1 + length h) ws (run_log base cap h)"
  by (simp add: run_log_def versioned_snoc)

lemma capacity_push [simp]: "capacity (push v ws log) = capacity log"
  by (simp add: push_def Let_def)

lemma run_log_represents: "log_of base h (run_log base cap h) \<and> capacity (run_log base cap h) = max cap 1"
proof (induction h rule: rev_induct)
  case Nil
  then show ?case by (simp add: run_log_def versioned_def log_of_def new_log_def)
next
  case (snoc ws h)
  then show ?case using push_keeps_log_of [of base h "run_log base cap h" ws]
    by (simp add: run_log_snoc)
qed

lemma hd_entries:
  assumes "log_of base h log" "h \<noteq> []"
  shows "fst (hd (entries log)) = base + 1 + (length h - min (length h) (capacity log))"
proof -
  let ?n = "length h - min (length h) (capacity log)"
  have n: "?n < length h" using assms by (auto simp: log_of_def min_def)
  then have "hd (drop ?n (versioned base h)) = versioned base h ! ?n"
    by (simp add: hd_drop_conv_nth)
  then show ?thesis using assms n by (simp add: log_of_def versioned_def del: upt_Suc)
qed

lemma rows_in_range_drop:
  assumes "base + n \<le> since"
  shows "rows_in_range since up_to (drop n (versioned base h)) = rows_in_range since up_to (versioned base h)"
proof -
  have "filter (\<lambda>(v, _). since < v \<and> v \<le> up_to) (take n (versioned base h)) = []"
    using assms
    by (auto simp: filter_empty_conv in_set_conv_nth versioned_def simp del: upt_Suc)
  then have "filter (\<lambda>(v, _). since < v \<and> v \<le> up_to) (take n (versioned base h) @ drop n (versioned base h)) =
      filter (\<lambda>(v, _). since < v \<and> v \<le> up_to) (drop n (versioned base h))"
    unfolding filter_append by simp
  then show ?thesis unfolding append_take_drop_id by (simp add: rows_in_range_def)
qed

lemma member_fun: "List.member xs = (\<lambda>r. r \<in> set xs)"
  by (simp add: fun_eq_iff)

lemma conflicts_with_log_of:
  assumes l: "log_of base h log" and since: "base \<le> since" and up: "up_to \<le> base + length h"
  shows "conflicts_with log since up_to ws =
    (if ws = [] \<or> up_to \<le> since then Clean
     else if since + capacity log < base + length h
     then InsufficientHistory (base + length h + 1 - capacity log)
     else let c = firsts {} (filter (\<lambda>r. r \<in> set ws) (rows_in_range since up_to (versioned base h)))
          in if c = [] then Clean else Conflict c)"
proof (cases "ws = [] \<or> up_to \<le> since")
  case False
  let ?n = "length h - min (length h) (capacity log)"
  have h: "h \<noteq> []" using False since up by auto
  have n: "?n < length h" using h l by (auto simp: log_of_def min_def)
  then have ne: "entries log \<noteq> []" using l by (simp add: log_of_def)
  then obtain oldest rows rest where e: "entries log = (oldest, rows) # rest"
    by (cases "entries log") auto
  have o: "oldest = base + 1 + ?n" using hd_entries [OF l h] e by simp
  have evicted: "oldest > since + 1 \<longleftrightarrow> since + capacity log < base + length h"
    using o since n by (auto simp: min_def)
  show ?thesis
  proof (cases "oldest > since + 1")
    case True
    then have "capacity log < length h" using o evicted since by simp
    then have "oldest = base + length h + 1 - capacity log" using o by simp
    then show ?thesis using True False evicted e
      by (simp add: conflicts_with_def)
  next
    case False2: False
    then have "rows_in_range since up_to (entries log) = rows_in_range since up_to (versioned base h)"
      using rows_in_range_drop [of base ?n since up_to h] o l by (simp add: log_of_def)
    moreover have "conflicts_with log since up_to ws =
      scan_for_contested log (partition_point (\<lambda>(v, _). v \<le> since) (entries log)) up_to (\<lambda>r. r \<in> set ws)"
      using False False2 by (simp add: conflicts_with_def e Let_def member_fun)
    ultimately show ?thesis using False False2 evicted
      by (simp add: scan_for_contested_eq [OF log_of_sorted [OF l]])
  qed
next
  case True
  then show ?thesis by (elim disjE) (simp_all add: conflicts_with_def)
qed

lemma set_rows_in_range:
  "base \<le> since \<Longrightarrow> up_to \<le> base + length h \<Longrightarrow>
   set (rows_in_range since up_to (versioned base h)) =
     (\<Union>v\<in>{since<..up_to}. set (h ! (v - base - 1)))"
  (is "_ \<Longrightarrow> _ \<Longrightarrow> _ = ?rhs")
proof -
  assume b: "base \<le> since" "up_to \<le> base + length h"
  have "r \<in> set (rows_in_range since up_to (versioned base h)) \<longleftrightarrow> r \<in> ?rhs" for r
  proof -
    have "r \<in> set (rows_in_range since up_to (versioned base h)) \<longleftrightarrow>
      (\<exists>v ws. (v, ws) \<in> set (versioned base h) \<and> since < v \<and> v \<le> up_to \<and> r \<in> set ws)"
      by (force simp: rows_in_range_def)
    also have "\<dots> \<longleftrightarrow> (\<exists>v. since < v \<and> v \<le> up_to \<and> r \<in> set (h ! (v - base - 1)))"
      unfolding in_versioned_iff using b by (meson le_less_trans order_trans)
    also have "\<dots> \<longleftrightarrow> r \<in> ?rhs" by auto
    finally show ?thesis .
  qed
  then show ?thesis by blast
qed

section \<open>The interface the commit path relies on\<close>

locale occ_history =
  fixes represents :: "nat \<Rightarrow> nat list list \<Rightarrow> 'log \<Rightarrow> bool"
    and record_commit :: "nat \<Rightarrow> nat list \<Rightarrow> 'log \<Rightarrow> 'log"
    and check :: "'log \<Rightarrow> nat \<Rightarrow> nat \<Rightarrow> nat list \<Rightarrow> conflict_check"
  assumes record_represents:
      "represents base h l \<Longrightarrow> represents base (h @ [ws]) (record_commit (base + 1 + length h) ws l)"
    and check_appends: "check l since up_to [] = Clean"
    and check_clean:
      "represents base h l \<Longrightarrow> base \<le> since \<Longrightarrow> check l since (base + length h) ws = Clean \<Longrightarrow>
       since < v \<Longrightarrow> v \<le> base + length h \<Longrightarrow> set (h ! (v - base - 1)) \<inter> set ws = {}"
    and check_conflict:
      "represents base h l \<Longrightarrow> base \<le> since \<Longrightarrow> check l since (base + length h) ws = Conflict c \<Longrightarrow>
       c \<noteq> [] \<and> distinct c \<and>
       set c = set ws \<inter> (\<Union>v\<in>{since<..base + length h}. set (h ! (v - base - 1)))"
begin

text \<open>A clean answer means that every row of the write set was last written at or
  before the transaction's base version.\<close>

lemma clean_rows_unwritten:
  assumes "represents base h l" "base \<le> since" "check l since (base + length h) ws = Clean"
  shows "\<forall>r\<in>set ws. \<forall>v. since < v \<and> v \<le> base + length h \<longrightarrow> r \<notin> set (h ! (v - base - 1))"
  using check_clean [OF assms] by blast

lemma conflict_names_a_committed_row:
  assumes "represents base h l" "base \<le> since" "check l since (base + length h) ws = Conflict c"
  shows "\<exists>r\<in>set ws. \<exists>v. since < v \<and> v \<le> base + length h \<and> r \<in> set (h ! (v - base - 1))"
proof -
  obtain r where "r \<in> set c" using check_conflict [OF assms] by (cases c) auto
  then have "r \<in> set ws" "\<exists>v\<in>{since<..base + length h}. r \<in> set (h ! (v - base - 1))"
    using check_conflict [OF assms] by auto
  then show ?thesis by (meson greaterThanAtMost_iff)
qed

end

interpretation ring_log: occ_history log_of push conflicts_with
proof (unfold_locales, goal_cases)
  case (1 base h l ws)
  then show ?case by (rule push_keeps_log_of)
next
  case (2 l since up_to)
  show ?case by (simp add: conflicts_with_def)
next
  case (3 base h l since ws v)
  then have "ws = [] \<or> firsts {} (filter (\<lambda>r. r \<in> set ws)
      (rows_in_range since (base + length h) (versioned base h))) = []"
    by (auto simp: conflicts_with_log_of Let_def split: if_splits)
  then have "set ws \<inter> set (rows_in_range since (base + length h) (versioned base h)) = {}"
    by (auto simp: firsts_Nil_iff)
  moreover have "v \<in> {since<..base + length h}" using 3 by simp
  ultimately show ?case using 3 set_rows_in_range [of base since "base + length h" h] by blast
next
  case (4 base h l since ws c)
  let ?rows = "rows_in_range since (base + length h) (versioned base h)"
  have c: "c = firsts {} (filter (\<lambda>r. r \<in> set ws) ?rows)" "c \<noteq> []"
    using 4 by (auto simp: conflicts_with_log_of Let_def split: if_splits)
  have "set c = set ws \<inter> set ?rows" unfolding c(1) set_firsts by auto
  then have "set c = set ws \<inter> (\<Union>v\<in>{since<..base + length h}. set (h ! (v - base - 1)))"
    unfolding set_rows_in_range [OF 4(2) order_refl] .
  moreover have "distinct c" unfolding c(1) by (rule distinct_firsts)
  ultimately show ?case using c(2) by blast
qed

section \<open>Properties\<close>

text \<open>C2: The conflict check of a handle that recorded the commits \<open>base + 1, base + 2, \<dots>\<close>
  with write sets \<open>h\<close> through a ring buffer of any requested capacity is, for every
  range of versions since the handle was opened, exactly the reference answer on the
  whole history: \<open>Clean\<close> for an empty write set or range; \<open>InsufficientHistory\<close>
  with the first retained version precisely when the commit after \<open>since\<close> has been
  evicted; otherwise the contested rows, each once, in first-written order.  This
  covers the binary-searched start, the early exit and both membership strategies.\<close>

theorem conflicts_with_exact:
  assumes "base \<le> since" "up_to \<le> base + length h"
  shows "conflicts_with (run_log base cap h) since up_to ws =
    (if ws = [] \<or> up_to \<le> since then Clean
     else if since + max cap 1 < base + length h
     then InsufficientHistory (base + length h + 1 - max cap 1)
     else let c = firsts {} (filter (\<lambda>r. r \<in> set ws) (rows_in_range since up_to (versioned base h)))
          in if c = [] then Clean else Conflict c)"
proof -
  have l: "log_of base h (run_log base cap h)" and cap: "capacity (run_log base cap h) = max cap 1"
    using run_log_represents [of base h cap] by blast+
  show ?thesis using conflicts_with_log_of [OF l assms, of ws] unfolding cap .
qed

theorem conflicts_with_exact_witness:
  "conflicts_with (run_log 3 2 [[7], [8, 9], [9, 5]]) 4 6 [9, 5, 8] = Conflict [8, 9, 5]"
  by (subst conflicts_with_exact) (simp_all add: versioned_def rows_in_range_def)

end
