(* ===== verification/ManifestStore.thy ===== *)
theory ManifestStore
  imports Manifest LocalFs
begin

text \<open>
  Publication and recovery of manifests (\<open>crates/storage/src/manifest.rs\<close>,
  \<open>commit_manifest_with\<close> and the readers) over any backend that keeps its contract.
\<close>

section \<open>Model\<close>

definition commit_manifest_with :: "codecs \<Rightarrow> 's backend \<Rightarrow> manifest \<Rightarrow> ('s, storage_error, unit) effect" where
  "commit_manifest_with cd be m =
     (let key = manifest_object_key (mf_version m);
          json = encode_manifest cd m
      in bindSE (liftSE (decode_manifest_with_byte_count cd (mf_version m) json)) (\<lambda>_ s.
           case be_put_if_absent be key json s of
             (Inr u, t) \<Rightarrow> (Inr u, t)
           | (Inl (AlreadyExists x), t) \<Rightarrow> (Inl (AlreadyExists x), t)
           | (Inl err, t) \<Rightarrow>
               (case be_get be key t of
                  (Inr published, u) \<Rightarrow> if published = json then (Inl PublicationIndeterminate, u) else (Inl err, u)
                | (Inl _, u) \<Rightarrow> (Inl err, u))))"

definition parent_prefix :: "string \<Rightarrow> string" where
  "parent_prefix key =
     (if CHR ''/'' \<in> set key then join_with (CHR ''/'') (butlast (split_on (CHR ''/'') key)) else [])"

definition read_bounded_manifest_bytes ::
  "'s backend \<Rightarrow> string \<Rightarrow> nat option \<Rightarrow> ('s, storage_error, bytes) effect" where
  "read_bounded_manifest_bytes be key known_size =
     bindSE (case known_size of
         Some len \<Rightarrow> returnSE len
       | None \<Rightarrow>
           bindSE (be_list be (parent_prefix key)) (\<lambda>ms.
             case find (\<lambda>meta. fst meta = key) ms of
               None \<Rightarrow> throwSE (Io NotFound)
             | Some meta \<Rightarrow> returnSE (snd meta)))
       (\<lambda>len.
         if len > MAX_MANIFEST_BYTES then throwSE CorruptManifest
         else be_get_range be key 0 len)"

definition read_manifest_at_key_with_byte_count_with ::
  "codecs \<Rightarrow> 's backend \<Rightarrow> string \<Rightarrow> nat \<Rightarrow> ('s, storage_error, manifest \<times> nat) effect" where
  "read_manifest_at_key_with_byte_count_with cd be key version =
     bindSE (liftSE (dataset_key_new key)) (\<lambda>k.
       bindSE (read_bounded_manifest_bytes be k None) (\<lambda>b.
         liftSE (decode_manifest_with_byte_count cd version b)))"

definition read_manifest_at_key_with_byte_count_and_size_with ::
  "codecs \<Rightarrow> 's backend \<Rightarrow> string \<Rightarrow> nat \<Rightarrow> nat \<Rightarrow> ('s, storage_error, manifest \<times> nat) effect" where
  "read_manifest_at_key_with_byte_count_and_size_with cd be key version len =
     bindSE (liftSE (dataset_key_new key)) (\<lambda>k.
       bindSE (read_bounded_manifest_bytes be k (Some len)) (\<lambda>b.
         liftSE (decode_manifest_with_byte_count cd version b)))"

definition version_of_key :: "string \<Rightarrow> nat option" where
  "version_of_key key =
     (case strip_prefix ''_versions/'' key of
        None \<Rightarrow> None
      | Some rest \<Rightarrow> (case strip_suffix ''.manifest'' rest of None \<Rightarrow> None | Some stem \<Rightarrow> parse_u64 stem))"

fun newest_manifest :: "object_meta list \<Rightarrow> (nat \<times> string \<times> nat) option \<Rightarrow> (nat \<times> string \<times> nat) option" where
  "newest_manifest [] best = best"
| "newest_manifest ((key, len) # ms) best =
     (case version_of_key key of
        None \<Rightarrow> newest_manifest ms best
      | Some version \<Rightarrow>
          newest_manifest ms
            (if (case best of None \<Rightarrow> True | Some (v, _, _) \<Rightarrow> version > v) then Some (version, key, len) else best))"

definition read_current_with_byte_count_with ::
  "codecs \<Rightarrow> 's backend \<Rightarrow> ('s, storage_error, (manifest \<times> nat) option) effect" where
  "read_current_with_byte_count_with cd be =
     bindSE (be_list be ''_versions'') (\<lambda>ms.
       case newest_manifest ms None of
         None \<Rightarrow> returnSE None
       | Some (filename_version, key, len) \<Rightarrow>
           bindSE (liftSE (dataset_key_new key)) (\<lambda>k.
             bindSE (read_bounded_manifest_bytes be k (Some len)) (\<lambda>b.
               bindSE (liftSE (decode_manifest_with_byte_count cd filename_version b)) (\<lambda>r. returnSE (Some r)))))"

definition read_current_with :: "codecs \<Rightarrow> 's backend \<Rightarrow> ('s, storage_error, manifest option) effect" where
  "read_current_with cd be =
     bindSE (read_current_with_byte_count_with cd be) (\<lambda>r. returnSE (map_option fst r))"

section \<open>Names\<close>

lemma version_of_manifest_key: "is_u64 v \<Longrightarrow> version_of_key (manifest_object_key v) = Some v"
  unfolding version_of_key_def manifest_object_key_def strip_prefix_append option.case strip_suffix_append
  by (rule parse_u64_fmt020)

lemma version_of_key_prefix: "version_of_key k = Some v \<Longrightarrow> prefix ''_versions'' k"
  by (auto simp: version_of_key_def strip_prefix_Some_iff split: option.splits)

lemma path_of_manifest_key: "split_on (CHR ''/'') (manifest_object_key v) = [''_versions'', fmt020 v @ ''.manifest'']"
proof -
  have "CHR ''/'' \<notin> set (fmt020 v @ ''.manifest'')"
    using not_digit_in_fmt020 [of "CHR ''/''" v] by (simp add: is_ascii_digit_def)
  then have "split_on (CHR ''/'') (fmt020 v @ ''.manifest'') = [fmt020 v @ ''.manifest'']"
    by (rule split_on_no_sep)
  then show ?thesis by (simp add: manifest_object_key_def)
qed

lemma manifest_key_valid: "valid_key (manifest_object_key v)"
proof -
  have "CHR 0x5C \<notin> set (manifest_object_key v)"
    using not_digit_in_fmt020 [of "CHR 0x5C" v] by (simp add: manifest_object_key_def is_ascii_digit_def)
  then show ?thesis
    by (simp add: valid_key_iff path_of_manifest_key unsafe_segment_def) (simp add: manifest_object_key_def)
qed

lemma manifest_key_not_temporary: "\<not> temporary (manifest_object_key v)"
proof -
  obtain c cs where "fmt020 v = c # cs" using fmt020_not_Nil [of v] by (cases "fmt020 v") auto
  then have "c \<noteq> CHR ''.''" using fmt020_digits [of v] by (auto simp: is_ascii_digit_def)
  then show ?thesis using \<open>fmt020 v = c # cs\<close> by (simp add: temporary_def path_of_manifest_key)
qed

lemma parse_u64_chars:
  assumes "parse_u64 stem = Some v"
  obtains c cs where "stem = c # cs" "c = CHR ''+'' \<or> is_ascii_digit c" "list_all is_ascii_digit cs"
proof (cases stem)
  case Nil
  then show ?thesis using assms by (simp add: parse_u64_def)
next
  case (Cons c cs)
  then have "(c = CHR ''+'' \<or> is_ascii_digit c) \<and> list_all is_ascii_digit cs"
    using assms by (cases "c = CHR ''+''") (simp_all add: parse_u64_def Let_def split: if_splits)
  then show ?thesis using that Cons by blast
qed

lemma digits_not_temporary: "parse_u64 stem = Some v \<Longrightarrow> \<not> prefix ''.tmp-'' (stem @ x)"
  by (erule parse_u64_chars) (auto simp: is_ascii_digit_def)

lemma version_key_not_temporary:
  assumes "version_of_key k = Some v"
  shows "\<not> temporary k"
proof -
  obtain stem where k: "k = ''_versions/'' @ stem @ ''.manifest''" "parse_u64 stem = Some v"
    using assms by (auto simp: version_of_key_def strip_prefix_Some_iff strip_suffix_Some_iff split: option.splits)
  obtain c cs where "stem = c # cs" "c = CHR ''+'' \<or> is_ascii_digit c" "list_all is_ascii_digit cs"
    using parse_u64_chars [OF k(2)] .
  then have "CHR ''/'' \<notin> set (stem @ ''.manifest'')" by (auto simp: list_all_iff is_ascii_digit_def)
  then have "split_on (CHR ''/'') (stem @ ''.manifest'') = [stem @ ''.manifest'']" by (rule split_on_no_sep)
  then have "last (split_on (CHR ''/'') k) = stem @ ''.manifest''" unfolding k(1) by simp
  then show ?thesis using digits_not_temporary [OF k(2)] unfolding temporary_def by presburger
qed

lemma newest_manifest_spec:
  "newest_manifest ms best = Some (v, k, n) \<Longrightarrow>
     (best = Some (v, k, n) \<or> (k, n) \<in> set ms \<and> version_of_key k = Some v) \<and>
     (\<forall>k' n' v'. (k', n') \<in> set ms \<longrightarrow> version_of_key k' = Some v' \<longrightarrow> v' \<le> v) \<and>
     (\<forall>w k' n'. best = Some (w, k', n') \<longrightarrow> w \<le> v)"
proof (induction ms best rule: newest_manifest.induct)
  case (2 key len ms best)
  show ?case
  proof (cases "version_of_key key")
    case None
    then have "newest_manifest ms best = Some (v, k, n)" using "2.prems" by simp
    from "2.IH"(1) [OF None this] show ?thesis using None by auto
  next
    case (Some w)
    let ?newer = "case best of None \<Rightarrow> True | Some (u, _, _) \<Rightarrow> u < w"
    let ?best = "if ?newer then Some (w, key, len) else best"
    have "newest_manifest ms ?best = Some (v, k, n)" using "2.prems" Some by simp
    note ih = "2.IH"(2) [OF Some this]
    show ?thesis
    proof (cases ?newer)
      case True
      then have "w \<le> v" using ih by simp
      moreover have "u \<le> v" if "best = Some (u, x, y)" for u x y using True that \<open>w \<le> v\<close> by simp
      ultimately show ?thesis using ih True Some by auto
    next
      case False
      then obtain u x y where b: "best = Some (u, x, y)" "w \<le> u" by (cases best) auto
      then have "u \<le> v" using ih False by simp
      then show ?thesis using ih False Some b by auto
    qed
  qed
qed simp

lemma newest_manifest_None:
  "newest_manifest ms best = None \<longleftrightarrow> best = None \<and> (\<forall>(k, n)\<in>set ms. version_of_key k = None)"
  by (induction ms best rule: newest_manifest.induct) (auto split: option.splits)

section \<open>Over a contract\<close>

text \<open>The manifests a reader of a state could find, by version and text.\<close>

definition manifest_object :: "('s \<Rightarrow> string \<Rightarrow> bytes option) \<Rightarrow> 's \<Rightarrow> string \<Rightarrow> nat \<Rightarrow> bytes \<Rightarrow> bool" where
  "manifest_object content s k v b \<longleftrightarrow> version_of_key k = Some v \<and> content s k = Some b"

definition all_versions_below :: "('s \<Rightarrow> string \<Rightarrow> bytes option) \<Rightarrow> 's \<Rightarrow> nat \<Rightarrow> bool" where
  "all_versions_below content s v \<longleftrightarrow> (\<forall>k w b. manifest_object content s k w b \<longrightarrow> w < v)"

context backend_contract
begin

lemma commit_manifest_effect:
  assumes g: "good s" and c: "commit_manifest_with cd be m s = (ru, t)"
  shows "good t \<and> (\<forall>k. k \<noteq> manifest_object_key (mf_version m) \<longrightarrow> \<not> temporary k \<longrightarrow> content t k = content s k) \<and>
    (content t (manifest_object_key (mf_version m)) = content s (manifest_object_key (mf_version m)) \<or>
     content s (manifest_object_key (mf_version m)) = None \<and>
     content t (manifest_object_key (mf_version m)) = Some (encode_manifest cd m))"
proof -
  let ?key = "manifest_object_key (mf_version m)" and ?json = "encode_manifest cd m"
  note valid = manifest_key_valid [of "mf_version m"] and perm = manifest_key_not_temporary [of "mf_version m"]
  obtain pr u where p: "be_put_if_absent be ?key ?json s = (pr, u)" by fastforce
  note frame = put_if_absent_frame [OF g valid perm p]
  obtain gr w where w: "be_get be ?key u = (gr, w)" by fastforce
  have "good w \<and> content w = content u" using get_frame [OF _ w] frame by blast
  moreover have "t = s \<or> t = u \<or> t = w"
    using c p w
    by (auto simp: commit_manifest_with_def Let_def bindSE_def split: sum.splits storage_error.splits if_splits)
  ultimately show ?thesis using g frame by metis
qed

lemma commit_manifest_ok:
  assumes g: "good s" and c: "commit_manifest_with cd be m s = (Inr u, t)"
  shows "content s (manifest_object_key (mf_version m)) = None \<and>
    content t (manifest_object_key (mf_version m)) = Some (encode_manifest cd m) \<and>
    (\<exists>m' n. decode_manifest_with_byte_count cd (mf_version m) (encode_manifest cd m) = Inr (m', n))"
proof -
  let ?key = "manifest_object_key (mf_version m)" and ?json = "encode_manifest cd m"
  obtain r where r: "decode_manifest_with_byte_count cd (mf_version m) ?json = Inr r"
    using c by (auto simp: commit_manifest_with_def Let_def bindSE_def split: sum.splits)
  have "be_put_if_absent be ?key ?json s = (Inr u, t)"
    using c r
    by (auto simp: commit_manifest_with_def Let_def bindSE_def split: sum.splits prod.splits storage_error.splits if_splits)
  then show ?thesis
    using put_if_absent_ok [OF g manifest_key_valid manifest_key_not_temporary] r by (metis surj_pair)
qed

lemma read_current_effect:
  assumes g: "good s" and r: "read_current_with_byte_count_with cd be s = (Inr res, t)"
  shows "good t \<and> content t = content s \<and>
    (case res of
       None \<Rightarrow> \<forall>k v b. \<not> manifest_object content s k v b
     | Some (m, n) \<Rightarrow> \<exists>k b. manifest_object content s k (mf_version m) b \<and>
         decode_manifest_with_byte_count cd (mf_version m) b = Inr (m, n) \<and>
         (\<forall>k' v' b'. manifest_object content s k' v' b' \<longrightarrow> v' \<le> mf_version m))"
proof -
  obtain ms u where l: "be_list be ''_versions'' s = (Inr ms, u)"
    using r by (auto simp: read_current_with_byte_count_with_def result_simps)
  note lf = list_frame [OF g l] and le = list_exact [OF g l]
  have listed: "(k, length b) \<in> set ms" if "manifest_object content s k v b" for k v b
    using that le [of k "length b"] version_of_key_prefix [of k v] by (auto simp: manifest_object_def)
  show ?thesis
  proof (cases "newest_manifest ms None")
    case None
    then have res: "res = None" "t = u"
      using r l by (simp_all add: read_current_with_byte_count_with_def bindSE_def)
    have "\<not> manifest_object content s k v b" for k v b
      using None listed [of k v b] unfolding newest_manifest_None manifest_object_def by fastforce
    then show ?thesis using res lf by simp
  next
    case (Some best)
    obtain v k n where best: "newest_manifest ms None = Some (v, k, n)" using Some by (cases best) auto
    note spec = newest_manifest_spec [OF best]
    have kn: "(k, n) \<in> set ms" "version_of_key k = Some v" using spec by auto
    obtain b where b: "content s k = Some b" "n = length b" using le kn(1) by blast
    obtain b' m x w where d: "be_get_range be k 0 n u = (Inr b', w)"
        "decode_manifest_with_byte_count cd v b' = Inr (m, x)" "res = Some (m, x)" "t = w"
      using r l best
      by (auto simp: read_current_with_byte_count_with_def read_bounded_manifest_bytes_def dataset_key_new_def
          result_simps split: if_splits)
    have gu: "good u" and cu: "content u = content s" using lf by simp_all
    have vk: "valid_key k" using content_valid [OF g] b(1) by simp
    have "b' = b" using get_range_ok [OF gu vk d(1)] b cu by auto
    moreover have "good w \<and> content w = content s" using get_range_frame [OF gu d(1)] cu by simp
    moreover have "mf_version m = v"
      using d(2) by (auto simp: decode_manifest_with_byte_count_def Let_def bindE_Inr_iff envelope_validate_def
          split: if_splits option.splits)
    moreover have "v' \<le> v" if "manifest_object content s k' v' b''" for k' v' b''
      using listed [OF that] spec that unfolding manifest_object_def by blast
    moreover have "manifest_object content s k v b" using kn(2) b(1) by (simp add: manifest_object_def)
    ultimately show ?thesis unfolding d(3,4) using d(2) by (simp, intro exI [of _ k] exI [of _ b]) blast
  qed
qed

lemma commit_manifest_objects:
  assumes g: "good s" and c: "commit_manifest_with cd be m s = (ru, t)" and v: "is_u64 (mf_version m)"
  shows "manifest_object content t k w b \<Longrightarrow>
      manifest_object content s k w b \<or>
      k = manifest_object_key (mf_version m) \<and> w = mf_version m \<and> b = encode_manifest cd m"
    and "manifest_object content s k w b \<Longrightarrow> manifest_object content t k w b"
proof -
  note eff = commit_manifest_effect [OF g c]
  note own = version_of_manifest_key [OF v]
  have perm: "\<not> temporary k" if "version_of_key k = Some w" for k w using that by (rule version_key_not_temporary)
  show "manifest_object content s k w b \<or>
      k = manifest_object_key (mf_version m) \<and> w = mf_version m \<and> b = encode_manifest cd m"
    if o: "manifest_object content t k w b"
  proof (cases "k = manifest_object_key (mf_version m)")
    case True
    then show ?thesis using o eff own by (auto simp: manifest_object_def)
  next
    case False
    then show ?thesis using o eff perm [of k w] by (simp add: manifest_object_def)
  qed
  show "manifest_object content t k w b" if o: "manifest_object content s k w b"
    using o eff perm [of k w] by (cases "k = manifest_object_key (mf_version m)") (auto simp: manifest_object_def)
qed

end

text \<open>What recovery finds: the readable manifest of the greatest version, or nothing when there is
  no manifest object.\<close>

definition current_is ::
  "codecs \<Rightarrow> ('s \<Rightarrow> string \<Rightarrow> bytes option) \<Rightarrow> 's \<Rightarrow> manifest option \<Rightarrow> bool" where
  "current_is cd content s found \<longleftrightarrow>
     (case found of
        None \<Rightarrow> \<forall>k v b. \<not> manifest_object content s k v b
      | Some m \<Rightarrow> \<exists>k b n. manifest_object content s k (mf_version m) b \<and>
          decode_manifest_with_byte_count cd (mf_version m) b = Inr (m, n) \<and>
          (\<forall>k' v' b'. manifest_object content s k' v' b' \<longrightarrow> v' \<le> mf_version m))"

text \<open>A decoder that accepts a manifest's own encoding returns that manifest.\<close>

lemma decode_own_encoding:
  assumes "json_spec (cd_json cd) exact" "manifest_ok m" "manifest_exact exact m"
    and "decode_manifest_with_byte_count cd v (encode_manifest cd m) = Inr (m', n)"
  shows "m' = m"
proof -
  have "de_envelope (json_value (envelope_json (envelope_new cd m))) = Some (envelope_new cd m)"
    by (rule de_envelope_value)
      (use assms(2) envelope_new_checksum(2) in \<open>simp_all add: MANIFEST_FORMAT_VERSION_def\<close>)
  then show ?thesis
    using assms(4) envelope_parses [OF assms(1-3)]
    by (auto simp: decode_manifest_with_byte_count_def Let_def bindE_Inr_iff split: if_splits)
qed

context backend_contract
begin

lemma read_current_is:
  assumes "good s" "read_current_with cd be s = (Inr found, t)"
  shows "good t \<and> content t = content s \<and> current_is cd content s found"
proof -
  obtain res where r: "read_current_with_byte_count_with cd be s = (Inr res, t)" "found = map_option fst res"
    using assms(2) by (auto simp: read_current_with_def result_simps)
  from read_current_effect [OF assms(1) r(1)] show ?thesis
    unfolding r(2) current_is_def by (cases res) (auto split: prod.splits)
qed

lemma published_manifest_is_current:
  assumes spec: "json_spec (cd_json cd) exact" "manifest_ok m" "manifest_exact exact m"
    and g: "good s" and below: "all_versions_below content s (mf_version m)"
    and c: "commit_manifest_with cd be m s = (ru, t)" and r: "read_current_with cd be t = (Inr found, w)"
  shows "if ru = Inr () then found = Some m else found = Some m \<or> current_is cd content s found"
proof -
  have v: "is_u64 (mf_version m)" using spec(2) by (simp add: manifest_ok_def is_u64_def u64_max_def)
  note cur = read_current_is [OF conjunct1 [OF commit_manifest_effect [OF g c]] r]
  have ok: "found = Some m" if o: "manifest_object content t (manifest_object_key (mf_version m)) (mf_version m) (encode_manifest cd m)"
  proof -
    obtain m' where m': "found = Some m'" using cur o by (cases found) (auto simp: current_is_def)
    then have "current_is cd content t (Some m')" using cur by simp
    then obtain k b n where k: "manifest_object content t k (mf_version m') b"
        "decode_manifest_with_byte_count cd (mf_version m') b = Inr (m', n)"
        and top: "mf_version m \<le> mf_version m'"
      using o unfolding current_is_def option.case by blast
    have "k = manifest_object_key (mf_version m) \<and> b = encode_manifest cd m"
      using commit_manifest_objects(1) [OF g c v k(1)] below top unfolding all_versions_below_def by (meson not_less)
    then show ?thesis using decode_own_encoding [OF spec] k(2) m' by blast
  qed
  show ?thesis
  proof (cases "manifest_object content t (manifest_object_key (mf_version m)) (mf_version m) (encode_manifest cd m)")
    case True
    then show ?thesis using ok by simp
  next
    case False
    have "ru \<noteq> Inr ()"
      using False commit_manifest_ok [OF g, of cd m "()" t] c version_of_manifest_key [OF v] by (auto simp: manifest_object_def)
    moreover have same: "manifest_object content t k x b \<longleftrightarrow> manifest_object content s k x b" for k x b
      using commit_manifest_objects [OF g c v, of k x b] False by blast
    have "current_is cd content s found" using cur unfolding current_is_def same by simp
    ultimately show ?thesis by simp
  qed
qed

end

section \<open>Properties\<close>


definition versions_fs :: "(string \<times> bytes) list \<Rightarrow> nat \<Rightarrow> lfs" where
  "versions_fs objs n =
     \<lparr> root_node = Some (DirN [(''_versions'', DirN (map (\<lambda>(k, b). (k, FileN b)) objs))]),
       tmp_counter = n, pid = 1, faults = [] \<rparr>"

lemma sample_key:
  "manifest_object_key 3 = ''_versions/00000000000000000003.manifest''" "dec 0 = ''0''" "dec 1 = ''1''"
  "version_of_key ''_versions/00000000000000000003.manifest'' = Some 3"
proof -
  show k: "manifest_object_key 3 = ''_versions/00000000000000000003.manifest''" "dec 0 = ''0''" "dec 1 = ''1''"
    by code_simp+
  show "version_of_key ''_versions/00000000000000000003.manifest'' = Some 3"
    using version_of_manifest_key [of 3] unfolding k by (simp add: is_u64_def u64_max_def)
qed

lemmas store_eval = local_fs_def owned_def prefixed_def owner_list_def strip_namespace_empty
  validate_key_components_def dataset_key_new_def sample_key versions_fs_def

lemma sample_publication:
  "commit_manifest_with sample_codecs local_owner sample_manifest (versions_fs [] 0) =
     (Inr (), versions_fs [(''00000000000000000003.manifest'', [1])] 1)"
proof -
  have v: "mf_version sample_manifest = 3" by (simp add: sample_manifest_def)
  show ?thesis
    unfolding commit_manifest_with_def Let_def v sample_encoded sample_decodes
    by (simp add: store_eval fs_eval AList.delete_eq)
qed

lemma sample_recovery:
  "read_current_with sample_codecs local_owner (versions_fs [(''00000000000000000003.manifest'', [1])] 1) =
     (Inr (Some sample_manifest), versions_fs [(''00000000000000000003.manifest'', [1])] 1)"
  unfolding read_current_with_def read_current_with_byte_count_with_def read_bounded_manifest_bytes_def
  by (simp add: store_eval fs_eval lfs_get_range_def checked_sub_def sample_decodes MAX_MANIFEST_BYTES_def)


end
