(* ===== verification/ManifestImage.thy ===== *)
theory ManifestImage
  imports ManifestStore
begin

text \<open>
  A manifest whose fields have their widths and that its own decoder accepts is read back
  unchanged: the decoder accepts it only when every float statistic is finite, and then the
  round trip is exact.  \<open>exact\<close> are the floats that the JSON library reads back as it printed them.
\<close>

fun val_fits :: "(f64 \<Rightarrow> bool) \<Rightarrow> val \<Rightarrow> bool" where
  "val_fits exact (Int64 i) = is_i64 i"
| "val_fits exact (Float64 f) = (f64_is_finite f \<longrightarrow> exact f)"
| "val_fits exact (Utf8 s) = True"

definition stats_fit :: "(f64 \<Rightarrow> bool) \<Rightarrow> (string \<times> column_stats) list \<Rightarrow> bool" where
  "stats_fit exact st \<longleftrightarrow> sorted (map fst st) \<and> distinct (map fst st) \<and>
     (\<forall>(k, e)\<in>set st. val_fits exact (min_v e) \<and> val_fits exact (max_v e))"

definition data_file_fits :: "(f64 \<Rightarrow> bool) \<Rightarrow> data_file_entry \<Rightarrow> bool" where
  "data_file_fits exact d \<longleftrightarrow> df_byte_len d < 2 ^ 64 \<and> df_crc32c d < 2 ^ 32 \<and> df_row_count d < 2 ^ 64 \<and>
     (case df_row_id_range d of None \<Rightarrow> True | Some (a, b) \<Rightarrow> a < 2 ^ 64 \<and> b < 2 ^ 64) \<and> stats_fit exact (df_stats d)"

definition segment_fits :: "(f64 \<Rightarrow> bool) \<Rightarrow> segment_entry \<Rightarrow> bool" where
  "segment_fits exact g \<longleftrightarrow> sg_format_version g < 2 ^ 32 \<and> sg_vector_count g < 2 ^ 64 \<and> sg_dimension g < 2 ^ 32 \<and>
     sg_row_id_min g < 2 ^ 64 \<and> sg_row_id_max g < 2 ^ 64 \<and> sg_byte_len g < 2 ^ 64 \<and> stats_fit exact (sg_zone_map g)"

definition image_fits :: "(f64 \<Rightarrow> bool) \<Rightarrow> manifest \<Rightarrow> bool" where
  "image_fits exact m \<longleftrightarrow> mf_version m < 2 ^ 64 \<and> (case mf_schema_version m of None \<Rightarrow> True | Some v \<Rightarrow> v < 2 ^ 32) \<and>
     (\<forall>d\<in>set (mf_data_files m). data_file_fits exact d) \<and> mf_next_row_id m < 2 ^ 64 \<and>
     (\<forall>r\<in>set (mf_tombstones m). r < 2 ^ 64) \<and> mf_next_attempt_id m < 2 ^ 64 \<and>
     is_i64 (mf_commit_time_high_water m) \<and> is_i64 (mf_committed_at_us m) \<and>
     (\<forall>g\<in>set (mf_segments m). segment_fits exact g)"

definition finite_stats :: "(string \<times> column_stats) list \<Rightarrow> bool" where
  "finite_stats st \<longleftrightarrow> (\<forall>(k, e)\<in>set st. \<not> infinite_bound e)"

definition manifest_finite :: "manifest \<Rightarrow> bool" where
  "manifest_finite m \<longleftrightarrow>
     (\<forall>d\<in>set (mf_data_files m). finite_stats (df_stats d)) \<and> (\<forall>g\<in>set (mf_segments m). finite_stats (sg_zone_map g))"

lemma stats_fit_ok:
  assumes "stats_fit exact st" "finite_stats st"
  shows "stats_list_ok st" "stats_exact exact st"
proof -
  have v: "val_fits exact (min_v e) \<and> val_fits exact (max_v e) \<Longrightarrow> \<not> infinite_bound e \<Longrightarrow>
      val_ok (min_v e) \<and> val_ok (max_v e) \<and> val_exact exact (min_v e) \<and> val_exact exact (max_v e)" for e
    by (cases "min_v e"; cases "max_v e") (auto simp: infinite_bound_def)
  show "stats_list_ok st" using v assms unfolding stats_fit_def stats_list_ok_def finite_stats_def by blast
  show "stats_exact exact st" using v assms unfolding stats_fit_def stats_exact_def finite_stats_def by blast
qed

lemma image_fits_ok:
  assumes "image_fits exact m" "manifest_finite m"
  shows "manifest_ok m" "manifest_exact exact m"
  using assms stats_fit_ok [of exact]
  by (simp_all add: image_fits_def manifest_finite_def manifest_ok_def data_file_fits_def data_file_ok_def
      segment_fits_def segment_ok_def manifest_exact_def)

lemma printable_stats_fit: "stats_fit exact st \<Longrightarrow> json_printable exact (stats_json st)"
proof -
  have v: "val_fits exact v \<Longrightarrow> json_printable exact (val_json v)" for v
    by (cases v) (simp_all add: json_f_def)
  assume a: "stats_fit exact st"
  have "json_printable exact (column_stats_json e)" if "(k, e) \<in> set st" for k e
    using a that v [of "min_v e"] v [of "max_v e"] by (fastforce simp: column_stats_json_def stats_fit_def)
  then show "json_printable exact (stats_json st)" by (auto simp: stats_json_def list_all_iff)
qed

lemma printable_image:
  assumes "image_fits exact m"
  shows "json_printable exact (manifest_json m)"
proof -
  have "json_printable exact (data_file_json d)" if "d \<in> set (mf_data_files m)" for d
    using assms that
    by (auto simp: image_fits_def data_file_fits_def data_file_json_def range_json_def printable_stats_fit
        split: option.splits)
  moreover have "json_printable exact (segment_json g)" if "g \<in> set (mf_segments m)" for g
    using assms that by (auto simp: image_fits_def segment_fits_def segment_json_def printable_stats_fit)
  moreover have "unat b < 18446744073709551616" for b :: byte using unat_byte_less [of b] by linarith
  ultimately show ?thesis
    using assms by (auto simp: manifest_json_def image_fits_def list_all_iff split: option.splits)
qed

lemma de_segment_infinite:
  assumes "de_stats (json_value (stats_json (sg_zone_map g))) = None"
  shows "de_segment (json_value (segment_json g)) = None"
  using assms
  by (auto simp: de_segment_def segment_json_def Let_def struct_field_value struct_ok_value struct_optional_value
      struct_default_value bind_eq_None_conv simp del: json_value.simps(2))

lemma de_manifest_infinite_segment:
  assumes "g \<in> set (mf_segments m)" "de_segment (json_value (segment_json g)) = None"
  shows "de_manifest (json_value (manifest_json m)) = None"
proof -
  have "None \<in> set (map de_segment (map json_value (map segment_json (mf_segments m))))"
    using assms by (force simp: image_iff)
  then have "de_list de_segment (json_value (JArr (map segment_json (mf_segments m)))) = None"
    using those_None by fastforce
  then show ?thesis
    by (auto simp: de_manifest_def manifest_json_def Let_def struct_field_value struct_ok_value struct_default_value
        bind_eq_None_conv simp del: json_value.simps(1,2) split: option.splits)
qed

lemma infinite_manifest_rejected:
  assumes "image_fits exact m" "\<not> manifest_finite m"
  shows "de_manifest (json_value (manifest_json m)) = None"
proof -
  have st: "de_stats (json_value (stats_json st)) = None" if s: "stats_fit exact st" "\<not> finite_stats st" for st
  proof -
    obtain k e where "(k, e) \<in> set st" "infinite_bound e" using s(2) by (auto simp: finite_stats_def)
    then show ?thesis using de_stats_infinite [of k e st] s(1) by (simp add: stats_fit_def)
  qed
  consider (entry) d where "d \<in> set (mf_data_files m)" "\<not> finite_stats (df_stats d)"
    | (zone) g where "g \<in> set (mf_segments m)" "\<not> finite_stats (sg_zone_map g)"
    using assms(2) by (auto simp: manifest_finite_def)
  then show ?thesis
  proof cases
    case entry
    then show ?thesis
      using de_manifest_infinite [OF entry(1) de_data_file_infinite [OF st [OF _ entry(2)]]] assms(1)
      by (simp add: image_fits_def data_file_fits_def)
  next
    case zone
    then show ?thesis
      using de_manifest_infinite_segment [OF zone(1) de_segment_infinite [OF st [OF _ zone(2)]]] assms(1)
      by (simp add: image_fits_def segment_fits_def)
  qed
qed

lemma decode_own_image:
  assumes spec: "json_spec (cd_json cd) exact" and m: "image_fits exact m"
    and d: "decode_manifest_with_byte_count cd v (encode_manifest cd m) = Inr (m', n)"
  shows "m' = m"
proof (cases "manifest_finite m")
  case True
  from decode_own_encoding [OF spec image_fits_ok [OF m True] d] show ?thesis .
next
  case False
  let ?ev = "envelope_new cd m"
  have "ev_checksum ?ev < 4294967296" using envelope_new_checksum(2) [of cd m] by simp
  then have "ev_checksum ?ev < 18446744073709551616" by linarith
  then have "json_printable exact (envelope_json ?ev)"
    using printable_image [OF m] by (simp add: envelope_json_def MANIFEST_FORMAT_VERSION_def)
  then have parse: "jc_parse (cd_json cd) (encode_manifest cd m) = Some (envelope_json ?ev)"
    using spec envelope_depth by (simp add: json_spec_def encode_manifest_def)
  have "de_manifest (json_value (manifest_json m)) = None" by (rule infinite_manifest_rejected [OF m False])
  then have "de_envelope (json_value (envelope_json ?ev)) = None"
    by (auto simp: de_envelope_def envelope_json_def Let_def struct_field_value struct_ok_value bind_eq_None_conv
        simp del: json_value.simps(1,2))
  then show ?thesis
    using parse d by (auto simp: decode_manifest_with_byte_count_def Let_def bindE_Inr_iff split: if_splits)
qed

end
