(* ===== verification/WritePhase.thy ===== *)
theory WritePhase
  imports Catalog RowIdAllocator Observability CommitLog ManifestImage
begin

text \<open>
  The part of a commit that runs before the commit lock is taken
  (\<open>Transaction::write_phase\<close> of \<open>crates/txn/src/dataset.rs\<close> and the functions it calls): the
  write-attempt number, the row-id claim, one data file per staged batch with the hidden
  columns and its statistics, and one vector segment.
\<close>

section \<open>The engine\<close>

text \<open>What the engine is built over: the owner of the dataset's objects, the directory calls made
  when it is local, the serialization and Arrow libraries, and the construction of a vector index
  from the vectors of one commit, in insertion order, with its parameters.\<close>

record 's engine_env =
  en_owner :: "'s backend"
  en_is_local :: bool
  en_create_data_dir :: "('s, io_kind, unit) effect"
  en_sync_data_dir :: "('s, storage_error, unit) effect"
  en_codecs :: codecs
  en_arrow :: arrow_lib
  en_kernels :: arrow_kernels
  en_build_index :: "f32 list list \<Rightarrow> (index_error, node_source \<times> segment_params) result"

text \<open>The state shared by the handles of one open dataset.\<close>

record 's engine =
  eg_store :: 's
  eg_current :: snapshot
  eg_leases :: lease_registry
  eg_next_row_id :: nat
  eg_attempts :: nat
  eg_log :: commit_log
  eg_insufficient :: nat
  eg_events :: event_log
  eg_last_ts :: int

definition on_store :: "('s, 'e, 'a) effect \<Rightarrow> ('s engine, 'e, 'a) effect" where
  "on_store m eg = (case m (eg_store eg) of (r, s) \<Rightarrow> (r, eg\<lparr> eg_store := s \<rparr>))"

definition i64_max :: int where
  "i64_max = 2 ^ 63 - 1"

text \<open>\<open>now\<close> is the clock in microseconds since the epoch.\<close>

definition issue_timestamp :: "int \<Rightarrow> ('s engine, txn_error, int) effect" where
  "issue_timestamp now eg =
     (if now < 0 then (Inl Clock, eg)
      else if now > i64_max then (Inl TryFromInt, eg)
      else (Inr (max (eg_last_ts eg) now), eg\<lparr> eg_last_ts := max (eg_last_ts eg) now \<rparr>))"

section \<open>Statistics of a commit\<close>

text \<open>A hash map is its list of entries in key order.\<close>

fun put_stat :: "string \<Rightarrow> column_stats \<Rightarrow> stats_table \<Rightarrow> stats_table" where
  "put_stat name e [] = [(name, e)]"
| "put_stat name e ((name', e') # st) =
     (if name < name' then (name, e) # (name', e') # st
      else if name = name' then (name, e) # st
      else (name', e') # put_stat name e st)"

definition stats_of :: "arrow_kernels \<Rightarrow> batch \<Rightarrow> stats_table" where
  "stats_of K b =
     foldl (\<lambda>st (name, col). case column_entry K col of None \<Rightarrow> st | Some e \<Rightarrow> put_stat name e st) [] b"

text \<open>\<open>f64::min\<close> and \<open>f64::max\<close> ignore a NaN operand.\<close>

definition f64_min :: "f64 \<Rightarrow> f64 \<Rightarrow> f64" where
  "f64_min a b =
     (if f64_is_nan a then b else if f64_is_nan b then a else if f64_key b < f64_key a then b else a)"

definition f64_max :: "f64 \<Rightarrow> f64 \<Rightarrow> f64" where
  "f64_max a b =
     (if f64_is_nan a then b else if f64_is_nan b then a else if f64_key a < f64_key b then b else a)"

definition merge_entry :: "column_stats \<Rightarrow> column_stats \<Rightarrow> column_stats option" where
  "merge_entry st other =
     (case (min_v st, min_v other) of
        (Int64 a_min, Int64 b_min) \<Rightarrow>
          (case (max_v st, max_v other) of
             (Int64 a_max, Int64 b_max) \<Rightarrow> Some \<lparr> min_v = Int64 (min a_min b_min), max_v = Int64 (max a_max b_max) \<rparr>
           | _ \<Rightarrow> None)
      | (Float64 a_min, Float64 b_min) \<Rightarrow>
          (case (max_v st, max_v other) of
             (Float64 a_max, Float64 b_max) \<Rightarrow>
               Some \<lparr> min_v = Float64 (f64_min a_min b_min), max_v = Float64 (f64_max a_max b_max) \<rparr>
           | _ \<Rightarrow> None)
      | (Utf8 a_min, Utf8 b_min) \<Rightarrow>
          (case (max_v st, max_v other) of
             (Utf8 a_max, Utf8 b_max) \<Rightarrow>
               Some \<lparr> min_v = (if b_min < a_min then Utf8 b_min else Utf8 a_min),
                      max_v = (if a_max < b_max then Utf8 b_max else Utf8 a_max) \<rparr>
           | _ \<Rightarrow> None)
      | _ \<Rightarrow> None)"

definition merge_zone_map_stats :: "stats_table \<Rightarrow> stats_table \<Rightarrow> bool \<Rightarrow> stats_table" where
  "merge_zone_map_stats accumulated batch_stats is_first_batch =
     (if is_first_batch then batch_stats
      else List.map_filter
             (\<lambda>(name, st). case map_of batch_stats name of
                None \<Rightarrow> None
              | Some other \<Rightarrow> map_option (Pair name) (merge_entry st other)) accumulated)"

section \<open>Vectors of a commit\<close>

type_synonym vector_insert = "nat \<times> f32 list"

fun vector_rows :: "nat \<Rightarrow> nat \<Rightarrow> f32 list option list \<Rightarrow> (txn_error, vector_insert list) result" where
  "vector_rows row_id_base i [] = Inr []"
| "vector_rows row_id_base i (None # rows) = vector_rows row_id_base (Suc i) rows"
| "vector_rows row_id_base i (Some row # rows) =
     bindE (of_option ManifestOverflow (checked_add row_id_base i)) (\<lambda>row_id.
       bindE (guardE (list_all f32_is_finite row) (NonFiniteVectorComponent row_id)) (\<lambda>_.
         bindE (vector_rows row_id_base (Suc i) rows) (\<lambda>rest. Inr ((row_id, row) # rest))))"

definition build_vector_inserts :: "record_batch \<Rightarrow> nat \<Rightarrow> (txn_error, vector_insert list) result" where
  "build_vector_inserts b row_id_base =
     (case schema_index_of (rb_schema b) ''vector'' of
        None \<Rightarrow> Inr []
      | Some i \<Rightarrow>
          (case rb_columns b ! i of
             PlainArr (VectorCol _ rows) \<Rightarrow> vector_rows row_id_base 0 rows
           | _ \<Rightarrow> Inl TxnArrow))"

fun validate_vector_dimensions :: "vector_insert list \<Rightarrow> nat \<Rightarrow> (txn_error, unit) result" where
  "validate_vector_dimensions [] expected = Inr ()"
| "validate_vector_dimensions ((row_id, v) # inserts) expected =
     (if expected = 0 then validate_vector_dimensions inserts (length v)
      else if length v \<noteq> expected then Inl (Index (DimensionMismatch (length v) expected))
      else validate_vector_dimensions inserts expected)"

section \<open>Data files of a commit\<close>

record write_acc =
  wa_files :: "data_file_entry list"
  wa_inserts :: "vector_insert list"
  wa_zone_map :: stats_table
  wa_row_id_base :: nat

definition data_file_name :: "nat \<Rightarrow> nat \<Rightarrow> string" where
  "data_file_name attempt_id i = fmt020 attempt_id @ ''-'' @ dec i @ ''.arrow''"

definition segment_file_name :: "nat \<Rightarrow> string" where
  "segment_file_name attempt_id = fmt020 attempt_id @ ''.seg''"

definition encode_user_columns :: "arrow_lib \<Rightarrow> record_batch \<Rightarrow> (txn_error, record_batch) result" where
  "encode_user_columns A b =
     (if rb_columns b = [] then Inr b else map_errE Storage (encode_batch A b))"

definition physical_batch ::
  "arrow_lib \<Rightarrow> record_batch \<Rightarrow> nat \<Rightarrow> int \<Rightarrow> (txn_error, record_batch) result" where
  "physical_batch A b row_id_base ts =
     bindE (encode_user_columns A b) (\<lambda>encoded.
       bindE (append_row_id_column A encoded row_id_base (rb_num_rows b)) (\<lambda>with_row_id.
         append_timestamp_column A with_row_id ts (rb_num_rows b)))"

definition batch_stats :: "arrow_kernels \<Rightarrow> record_batch \<Rightarrow> int \<Rightarrow> stats_table" where
  "batch_stats K b ts =
     put_stat TIMESTAMP_COLUMN \<lparr> min_v = Int64 ts, max_v = Int64 ts \<rparr> (stats_of K (batch_of b))"

definition write_pending_batch ::
  "'s engine_env \<Rightarrow> nat \<Rightarrow> int \<Rightarrow> nat \<Rightarrow> record_batch \<Rightarrow> write_acc \<Rightarrow> ('s, txn_error, write_acc) effect" where
  "write_pending_batch env attempt_id ts i b acc =
     (let st = batch_stats (en_kernels env) b ts;
          row_id_base = wa_row_id_base acc;
          num_rows = rb_num_rows b;
          file_name = data_file_name attempt_id i
      in bindSE (liftSE (build_vector_inserts b row_id_base)) (\<lambda>inserts.
         bindSE (liftSE (physical_batch (en_arrow env) b row_id_base ts)) (\<lambda>with_timestamp.
         bindSE (liftSE (map_errE Storage (data_object_key file_name))) (\<lambda>key.
         bindSE (map_errSE Storage (write_batch_with (en_arrow env) (cd_crc (en_codecs env)) (en_owner env) key with_timestamp))
           (\<lambda>metadata.
         returnSE
           \<lparr> wa_files = wa_files acc @
               [\<lparr> df_name = file_name, df_byte_len = wm_byte_len metadata, df_crc32c = wm_crc32c metadata,
                  df_row_count = num_rows,
                  df_row_id_range = (if num_rows = 0 then None else Some (row_id_base, row_id_base + num_rows - 1)),
                  df_stats = st \<rparr>],
             wa_inserts = wa_inserts acc @ inserts,
             wa_zone_map = merge_zone_map_stats (wa_zone_map acc) st (i = 0),
             wa_row_id_base = row_id_base + num_rows \<rparr>)))))"

fun write_batches_from ::
  "'s engine_env \<Rightarrow> nat \<Rightarrow> int \<Rightarrow> nat \<Rightarrow> record_batch list \<Rightarrow> write_acc \<Rightarrow> ('s, txn_error, write_acc) effect" where
  "write_batches_from env attempt_id ts i [] acc = returnSE acc"
| "write_batches_from env attempt_id ts i (b # bs) acc =
     bindSE (write_pending_batch env attempt_id ts i b acc) (write_batches_from env attempt_id ts (Suc i) bs)"

definition write_pending_batches ::
  "'s engine_env \<Rightarrow> record_batch list \<Rightarrow> nat \<Rightarrow> row_id_range \<Rightarrow> int \<Rightarrow> ('s, txn_error, write_acc) effect" where
  "write_pending_batches env pending attempt_id claimed ts =
     bindSE (write_batches_from env attempt_id ts 0 pending
               \<lparr> wa_files = [], wa_inserts = [], wa_zone_map = [], wa_row_id_base = base claimed \<rparr>) (\<lambda>acc.
       if wa_row_id_base acc \<noteq> base claimed + len claimed
       then throwSE (RowIdRangeMismatch (base claimed + len claimed) (wa_row_id_base acc))
       else returnSE acc)"

section \<open>The segment of a commit\<close>

record published_segment =
  ps_entry :: segment_entry
  ps_reader :: segment_reader

definition build_and_write_segment ::
  "'s engine_env \<Rightarrow> nat \<Rightarrow> vector_insert list \<Rightarrow> stats_table \<Rightarrow> ('s, txn_error, published_segment option) effect" where
  "build_and_write_segment env attempt_id inserts zone_map =
     (if inserts = [] then returnSE None
      else let row_ids = map fst inserts; crc = cd_crc (en_codecs env); name = segment_file_name attempt_id in
        bindSE (liftSE (map_errE Index (en_build_index env (map snd inserts)))) (\<lambda>(index, params).
        bindSE (liftSE (map_errE Index (encode_segment crc index row_ids params))) (\<lambda>b.
        bindSE (liftSE (map_errE Storage (data_object_key name))) (\<lambda>key.
        bindSE (map_errSE Storage (write_bytes_with crc (en_owner env) key b)) (\<lambda>_.
        bindSE (liftSE (map_errE Index (segment_from_bytes crc b))) (\<lambda>reader.
        bindSE (liftSE (guardE (ns_dimension index \<le> u32_max) TryFromInt)) (\<lambda>_.
        returnSE (Some
          \<lparr> ps_entry =
              \<lparr> sg_name = name, sg_format_version = SEGMENT_FORMAT_VERSION, sg_vector_count = length inserts,
                sg_dimension = ns_dimension index, sg_row_id_min = hd row_ids, sg_row_id_max = last row_ids,
                sg_byte_len = length b, sg_zone_map = zone_map \<rparr>,
            ps_reader = reader \<rparr>))))))))"

section \<open>The write phase\<close>

definition hidden_column_in :: "record_batch \<Rightarrow> string option" where
  "hidden_column_in b = find (\<lambda>name. schema_index_of (rb_schema b) name \<noteq> None) HIDDEN_COLUMNS"

fun check_reserved_columns :: "record_batch list \<Rightarrow> (txn_error, unit) result" where
  "check_reserved_columns [] = Inr ()"
| "check_reserved_columns (b # bs) =
     (case hidden_column_in b of
        Some name \<Rightarrow> Inl (ReservedColumnName name)
      | None \<Rightarrow> check_reserved_columns bs)"

fun total_rows :: "nat \<Rightarrow> record_batch list \<Rightarrow> nat option" where
  "total_rows sum_rows [] = Some sum_rows"
| "total_rows sum_rows (b # bs) =
     (case checked_add sum_rows (rb_num_rows b) of None \<Rightarrow> None | Some t \<Rightarrow> total_rows t bs)"

text \<open>The reservations: the attempt number, which wraps around, and the row-id claim.  \<open>None\<close> would be
  a claim that never returns.\<close>

definition reserve_phase ::
  "'s engine_env \<Rightarrow> transaction \<Rightarrow> 's engine \<Rightarrow> ((txn_error, nat \<times> row_id_range) result \<times> 's engine) option" where
  "reserve_phase env tx eg =
     (case bindSE (liftSE (check_reserved_columns (tx_pending tx)))
             (\<lambda>_. if en_is_local env then map_errSE TxnIo (on_store (en_create_data_dir env)) else returnSE ()) eg of
        (Inl e, eg1) \<Rightarrow> Some (Inl e, eg1)
      | (Inr _, eg1) \<Rightarrow>
          (let attempt_id = eg_attempts eg1;
               eg2 = eg1\<lparr> eg_attempts := fetch_add_u64 attempt_id 1 \<rparr>
           in case total_rows 0 (tx_pending tx) of
                None \<Rightarrow> Some (Inl ManifestOverflow, eg2)
              | Some sum_rows \<Rightarrow>
                  (case claim (cd_crc (en_codecs env)) (en_owner env) sum_rows (eg_next_row_id eg2) (eg_store eg2) of
                     None \<Rightarrow> None
                   | Some (r, cur, s) \<Rightarrow>
                       Some (bindE r (\<lambda>claimed. Inr (attempt_id, claimed)),
                             eg2\<lparr> eg_next_row_id := cur, eg_store := s \<rparr>))))"

text \<open>The files: data files, the segment, and the directory entries.\<close>

definition fill_phase ::
  "'s engine_env \<Rightarrow> transaction \<Rightarrow> int \<Rightarrow> nat \<times> row_id_range
   \<Rightarrow> ('s engine, txn_error, data_file_entry list \<times> published_segment option) effect" where
  "fill_phase env tx ts reserved_ids =
     (case reserved_ids of (attempt_id, claimed) \<Rightarrow>
        bindSE (on_store (write_pending_batches env (tx_pending tx) attempt_id claimed ts)) (\<lambda>acc eg.
          bindSE (liftSE (validate_vector_dimensions (wa_inserts acc)
                            (established_dimension (sn_index (eg_current eg))))) (\<lambda>_.
          bindSE (on_store (build_and_write_segment env attempt_id (wa_inserts acc) (wa_zone_map acc))) (\<lambda>segment.
          bindSE (if en_is_local env then map_errSE Storage (on_store (en_sync_data_dir env)) else returnSE ()) (\<lambda>_.
          returnSE (wa_files acc, segment)))) eg))"

definition write_phase ::
  "'s engine_env \<Rightarrow> transaction \<Rightarrow> int \<Rightarrow> 's engine
   \<Rightarrow> ((txn_error, data_file_entry list \<times> published_segment option) result \<times> 's engine) option" where
  "write_phase env tx ts eg =
     (if tx_pending tx = [] then Some (Inr ([], None), eg)
      else case reserve_phase env tx eg of
        None \<Rightarrow> None
      | Some (Inl e, eg') \<Rightarrow> Some (Inl e, eg')
      | Some (Inr reserved_ids, eg') \<Rightarrow> Some (fill_phase env tx ts reserved_ids eg'))"

section \<open>What a data file holds\<close>

text \<open>A batch as the Arrow library guarantees it: one column per field, of the batch's length, with
  integers of their width.\<close>

definition column_fits :: "column \<Rightarrow> bool" where
  "column_fits c = (case c of Int64Col xs \<Rightarrow> \<forall>x. Some x \<in> set xs \<longrightarrow> is_i64 x | _ \<Rightarrow> True)"

definition wf_batch :: "record_batch \<Rightarrow> bool" where
  "wf_batch b \<longleftrightarrow> length (sch_fields (rb_schema b)) = length (rb_columns b) \<and>
     (\<forall>a\<in>set (rb_columns b). column_length (arr_values a) = rb_num_rows b \<and> column_fits (arr_values a))"

definition no_hidden :: "arrow_schema \<Rightarrow> bool" where
  "no_hidden sch \<longleftrightarrow> (\<forall>f\<in>set (sch_fields sch). fd_name f \<notin> set HIDDEN_COLUMNS)"

definition enumerated :: "nat \<Rightarrow> record_batch \<Rightarrow> (nat \<times> row) list" where
  "enumerated row_id_base b = map (\<lambda>i. (row_id_base + i, logical_row b i)) [0..<rb_num_rows b]"

fun enumerated_from :: "nat \<Rightarrow> record_batch list \<Rightarrow> (nat \<times> row) list" where
  "enumerated_from row_id_base [] = []"
| "enumerated_from row_id_base (b # bs) =
     enumerated row_id_base b @ enumerated_from (row_id_base + rb_num_rows b) bs"

lemma takeWhile_skip: "(\<forall>x\<in>set xs. P x) \<Longrightarrow> takeWhile P (xs @ ys) = xs @ takeWhile P ys"
  by (induction xs) auto

lemma schema_index_of_append:
  assumes "name \<notin> fd_name ` set fs" "fd_name f = name"
  shows "schema_index_of \<lparr> sch_fields = fs @ f # rest, sch_metadata = meta \<rparr> name = Some (length fs)"
proof -
  have "takeWhile (\<lambda>f. fd_name f \<noteq> name) (fs @ f # rest) = fs"
    using assms by (subst takeWhile_skip) (force simp: image_iff)+
  then show ?thesis by (simp add: schema_index_of_def)
qed

lemma schema_index_of_None:
  "schema_index_of sch name = None \<longleftrightarrow> name \<notin> fd_name ` set (sch_fields sch)"
proof -
  have "length (takeWhile P xs) < length xs \<longleftrightarrow> (\<exists>x\<in>set xs. \<not> P x)" for P and xs :: "field list"
    by (induction xs) auto
  then show ?thesis by (auto simp: schema_index_of_def Let_def)
qed

lemma stored_field_matches_refl: "stored_field_matches f f"
  by (simp add: stored_field_matches_def stored_type_matches_owned_schema_def)

lemma encode_user_columns_ok:
  assumes "encode_user_columns A b = Inr e" "arrow_lib_spec A" "wf_batch b"
  shows "list_all2 stored_field_matches (sch_fields (rb_schema e)) (sch_fields (rb_schema b)) \<and>
    sch_metadata (rb_schema e) = sch_metadata (rb_schema b) \<and>
    map arr_values (rb_columns e) = map arr_values (rb_columns b)"
proof (cases "rb_columns b = []")
  case True
  then have "e = b" using assms(1) by (simp add: encode_user_columns_def)
  then show ?thesis using stored_field_matches_refl by (simp add: list_all2_same)
next
  case False
  then have "encode_batch A b = Inr e" using assms(1) by (simp add: encode_user_columns_def)
  then show ?thesis using encode_batch_ok [OF _ assms(2)] assms(3) by (simp add: wf_batch_def)
qed

lemma matching_names: "list_all2 stored_field_matches fs gs \<Longrightarrow> map fd_name fs = map fd_name gs"
  by (induction rule: list_all2_induct) (auto simp: stored_field_matches_def)

lemma row_id_hidden [simp]: "ROW_ID_COLUMN \<in> set HIDDEN_COLUMNS" "TIMESTAMP_COLUMN \<in> set HIDDEN_COLUMNS"
  by (simp_all add: HIDDEN_COLUMNS_def)

text \<open>The columns of a physical batch: the encoded user columns and the two hidden ones.\<close>

lemma physical_batch_shape:
  assumes "physical_batch A b row_id_base ts = Inr p" "arrow_lib_spec A" "wf_batch b"
  obtains fs cols where "list_all2 stored_field_matches fs (sch_fields (rb_schema b))"
    "map arr_values cols = map arr_values (rb_columns b)" "length fs = length cols"
    "rb_schema p = \<lparr> sch_fields = fs @ [field_new ROW_ID_COLUMN DTUInt64 False, field_new TIMESTAMP_COLUMN DTInt64 False],
       sch_metadata = sch_metadata (rb_schema b) \<rparr>"
    "rb_columns p = cols @ [PlainArr (UInt64Col (map (\<lambda>i. Some (row_id_base + i)) [0..<rb_num_rows b])),
       PlainArr (Int64Col (replicate (rb_num_rows b) (Some ts)))]"
    "rb_num_rows p = rb_num_rows b"
proof -
  obtain e q where e: "encode_user_columns A b = Inr e"
      "append_row_id_column A e row_id_base (rb_num_rows b) = Inr q"
      "append_timestamp_column A q ts (rb_num_rows b) = Inr p"
    using assms(1) by (auto simp: physical_batch_def bindE_Inr_iff)
  note enc = encode_user_columns_ok [OF e(1) assms(2,3)]
  note q = rebuild_batch_ok [OF e(2) [unfolded append_row_id_column_def] assms(2)]
  note p = rebuild_batch_ok [OF e(3) [unfolded append_timestamp_column_def] assms(2)]
  have "rb_num_rows p = rb_num_rows b" using p by simp
  moreover have "length (sch_fields (rb_schema e)) = length (rb_columns e)" using q by simp
  ultimately show ?thesis using that [of "sch_fields (rb_schema e)" "rb_columns e"] enc q p by simp
qed

lemma physical_batch_rows:
  assumes p: "physical_batch A b row_id_base ts = Inr p" and A: "arrow_lib_spec A"
    and b: "wf_batch b" "no_hidden (rb_schema b)"
  shows "validate_physical_batch_schema (rb_schema b) p = Inr () \<and> rb_num_rows p = rb_num_rows b \<and>
    row_id_values p = Some (map Some [row_id_base..<row_id_base + rb_num_rows b]) \<and>
    stored_rows p = enumerated row_id_base b \<and>
    schema_index_of (rb_schema p) ROW_ID_COLUMN \<noteq> None"
proof -
  obtain fs cols where fs: "list_all2 stored_field_matches fs (sch_fields (rb_schema b))"
      and vals: "map arr_values cols = map arr_values (rb_columns b)" and len: "length fs = length cols"
      and sch: "rb_schema p = \<lparr> sch_fields = fs @ [field_new ROW_ID_COLUMN DTUInt64 False, field_new TIMESTAMP_COLUMN DTInt64 False],
         sch_metadata = sch_metadata (rb_schema b) \<rparr>"
      and cols: "rb_columns p = cols @ [PlainArr (UInt64Col (map (\<lambda>i. Some (row_id_base + i)) [0..<rb_num_rows b])),
         PlainArr (Int64Col (replicate (rb_num_rows b) (Some ts)))]"
      and n: "rb_num_rows p = rb_num_rows b"
    using physical_batch_shape [OF p A b(1)] .
  let ?gs = "sch_fields (rb_schema b)"
  have names: "map fd_name fs = map fd_name ?gs" using fs by (rule matching_names)
  then have hid: "fd_name ` set fs = fd_name ` set ?gs" by (metis list.set_map)
  have nh: "ROW_ID_COLUMN \<notin> fd_name ` set fs" "\<forall>f\<in>set fs. fd_name f \<notin> set HIDDEN_COLUMNS"
  proof -
    have "\<forall>x\<in>fd_name ` set fs. x \<notin> set HIDDEN_COLUMNS" unfolding hid using b(2) by (auto simp: no_hidden_def)
    then show "\<forall>f\<in>set fs. fd_name f \<notin> set HIDDEN_COLUMNS" "ROW_ID_COLUMN \<notin> fd_name ` set fs"
      using row_id_hidden(1) by blast+
  qed
  have ix: "schema_index_of (rb_schema p) ROW_ID_COLUMN = Some (length fs)"
    unfolding sch by (rule schema_index_of_append [OF nh(1)]) (simp add: field_new_def)
  have lg: "length fs = length ?gs" using fs by (rule list_all2_lengthD)
  have ids: "row_id_values p = Some (map (\<lambda>i. Some (row_id_base + i)) [0..<rb_num_rows b])"
    using len by (simp add: row_id_values_def ix cols nth_append)
  have shift: "map (\<lambda>i. Some (row_id_base + i)) [0..<m] = map Some [row_id_base..<row_id_base + m]" for m
    by (rule nth_equalityI) simp_all
  have lcs: "logical_columns p = logical_columns b"
  proof -
    have z: "zip (sch_fields (rb_schema p)) (rb_columns p) = zip fs cols @
        zip [field_new ROW_ID_COLUMN DTUInt64 False, field_new TIMESTAMP_COLUMN DTInt64 False]
          [PlainArr (UInt64Col (map (\<lambda>i. Some (row_id_base + i)) [0..<rb_num_rows b])),
           PlainArr (Int64Col (replicate (rb_num_rows b) (Some ts)))]"
      unfolding sch cols using len by simp
    have keep: "filter (\<lambda>(f, a). fd_name f \<notin> set HIDDEN_COLUMNS) (zip hs as) = zip hs as"
      if "\<forall>f\<in>set hs. fd_name f \<notin> set HIDDEN_COLUMNS" for hs and as :: "arr list"
      using that by (auto simp: filter_id_conv dest: set_zip_leftD)
    have pair: "map (\<lambda>(f, a). (fd_name f, arr_values a)) (zip hs as) = zip (map fd_name hs) (map arr_values as)"
      for hs as by (simp add: zip_map_map)
    have "logical_columns p = zip (map fd_name fs) (map arr_values cols)"
      unfolding logical_columns_def z filter_append keep [OF nh(2)] by (simp add: field_new_def pair)
    also have "\<dots> = zip (map fd_name ?gs) (map arr_values (rb_columns b))" using names vals by simp
    also have "\<dots> = logical_columns b"
      unfolding logical_columns_def using keep [of ?gs "rb_columns b"] b(2) by (simp add: no_hidden_def pair)
    finally show ?thesis .
  qed
  have "validate_physical_batch_schema (rb_schema b) p = Inr ()"
  proof -
    have "list_all (\<lambda>(stored, own). stored_field_matches stored own) (zip (sch_fields (rb_schema p)) ?gs)"
      using fs lg unfolding sch by (auto simp: list_all2_iff list_all_iff zip_append1)
    moreover have "drop (length ?gs) (sch_fields (rb_schema p)) =
        [field_new ROW_ID_COLUMN DTUInt64 False, field_new TIMESTAMP_COLUMN DTInt64 False]"
      unfolding sch using lg by simp
    ultimately show ?thesis
      using lg by (simp add: validate_physical_batch_schema_def Let_def guardE_def sch expected_hidden_def
          hidden_field_ok_def field_new_def HIDDEN_COLUMNS_def stored_type_matches_owned_schema_def
          ROW_ID_COLUMN_def TIMESTAMP_COLUMN_def)
  qed
  moreover have "stored_rows p = enumerated row_id_base b"
    by (simp add: stored_rows_def ids enumerated_def n logical_row_def lcs)
  ultimately show ?thesis using n ids ix shift by simp
qed

section \<open>Names of an attempt\<close>

definition attempt_keys :: "nat \<Rightarrow> string set" where
  "attempt_keys a = {k. \<exists>x. k = ''data/'' @ fmt020 a @ x}"

lemma attempt_keys_disjoint:
  "is_u64 a \<Longrightarrow> is_u64 b \<Longrightarrow> k \<in> attempt_keys a \<Longrightarrow> k \<in> attempt_keys b \<Longrightarrow> a = b"
  using fmt020_length [of a] fmt020_length [of b] by (auto simp: attempt_keys_def fmt020_inject)

lemma attempt_names:
  "''data/'' @ data_file_name a i \<in> attempt_keys a" "''data/'' @ segment_file_name a \<in> attempt_keys a"
  by (auto simp: attempt_keys_def data_file_name_def segment_file_name_def)

lemma attempt_keys_not_catalog:
  "k \<in> attempt_keys a \<Longrightarrow> k \<noteq> manifest_object_key v \<and> k \<noteq> record_key n"
  by (auto simp: attempt_keys_def manifest_object_key_def record_key_def ROW_ID_HIGH_WATER_PREFIX_def)

lemma simple_name:
  assumes "name = c # cs" "is_ascii_digit c" "CHR ''/'' \<notin> set name" "CHR 0x5C \<notin> set name"
  shows "listed_name name \<and> \<not> temporary (''data/'' @ name)"
proof -
  have c: "c \<noteq> CHR ''.''" using assms(2) by (auto simp: is_ascii_digit_def)
  have sp: "split_on (CHR ''/'') name = [name]" by (rule split_on_no_sep [OF assms(3)])
  have spd: "split_on (CHR ''/'') (''data/'' @ name) = [''data'', name]" using sp by simp
  have u: "\<not> unsafe_segment name" using assms(1) c by (auto simp: unsafe_segment_def)
  have "valid_key name" unfolding valid_key_iff sp using assms(1,4) u by simp
  moreover have "valid_key (''data/'' @ name)"
    unfolding valid_key_iff spd using assms(4) u by (simp add: unsafe_segment_def)
  moreover have "safe_join name = Inr ()"
    unfolding safe_join_def guardE_def sp using assms(1,3) c by auto
  moreover have "\<not> temporary (''data/'' @ name)" unfolding temporary_def spd using assms(1) c by simp
  ultimately show ?thesis by (simp add: listed_name_def data_object_key_def valid_key_def)
qed

lemma name_chars: "CHR ''/'' \<notin> set (fmt020 a)" "CHR 0x5C \<notin> set (fmt020 a)" "CHR ''/'' \<notin> set (dec i)" "CHR 0x5C \<notin> set (dec i)"
  using not_digit_in_fmt020 [of "CHR ''/''" a] not_digit_in_fmt020 [of "CHR 0x5C" a] dec_digits [of i]
  by (auto simp: is_ascii_digit_def list_all_iff)

lemma attempt_name_ok:
  "listed_name (data_file_name a i)" "\<not> temporary (''data/'' @ data_file_name a i)"
  "listed_name (segment_file_name a)" "\<not> temporary (''data/'' @ segment_file_name a)"
proof -
  obtain c cs where c: "fmt020 a = c # cs" using fmt020_not_Nil [of a] by (cases "fmt020 a") auto
  have d: "is_ascii_digit c" using fmt020_digits [of a] c by simp
  have "listed_name (data_file_name a i) \<and> \<not> temporary (''data/'' @ data_file_name a i)"
    by (rule simple_name [OF _ d]) (use c name_chars(1,2) [of a] name_chars(3,4) [of i] in \<open>auto simp: data_file_name_def\<close>)
  moreover have "listed_name (segment_file_name a) \<and> \<not> temporary (''data/'' @ segment_file_name a)"
    by (rule simple_name [OF _ d]) (use c name_chars(1,2) [of a] in \<open>auto simp: segment_file_name_def\<close>)
  ultimately show "listed_name (data_file_name a i)" "\<not> temporary (''data/'' @ data_file_name a i)"
    "listed_name (segment_file_name a)" "\<not> temporary (''data/'' @ segment_file_name a)" by simp_all
qed

lemma dec_inject: "dec m = dec n \<longleftrightarrow> m = n"
  by (metis digits_val_dec)

lemma data_file_name_inject: "data_file_name a i = data_file_name a j \<longleftrightarrow> i = j"
  by (simp add: data_file_name_def dec_inject)

lemma data_file_not_segment: "data_file_name a i \<noteq> segment_file_name a"
  by (simp add: data_file_name_def segment_file_name_def)

section \<open>Effects on the store\<close>

definition keeps ::
  "('s \<Rightarrow> string \<Rightarrow> bytes option) \<Rightarrow> ('s \<Rightarrow> bool) \<Rightarrow> string set \<Rightarrow> 's \<Rightarrow> 's \<Rightarrow> bool" where
  "keeps content good touched s t \<longleftrightarrow>
     good t \<and> (\<forall>k. \<not> temporary k \<longrightarrow> k \<notin> touched \<longrightarrow> content t k = content s k)"

lemma keeps_refl: "good s \<Longrightarrow> keeps content good touched s s"
  by (simp add: keeps_def)

lemma keeps_same: "good t \<and> content t = content s \<Longrightarrow> keeps content good touched s t"
  by (simp add: keeps_def)

lemma keeps_trans:
  "keeps content good X s t \<Longrightarrow> keeps content good Y t u \<Longrightarrow> X \<subseteq> Z \<Longrightarrow> Y \<subseteq> Z \<Longrightarrow> keeps content good Z s u"
  unfolding keeps_def by (metis subset_iff)

lemma keeps_good: "keeps content good X s t \<Longrightarrow> good t"
  by (simp add: keeps_def)

lemma keepsD: "keeps content good X s t \<Longrightarrow> \<not> temporary k \<Longrightarrow> k \<notin> X \<Longrightarrow> content t k = content s k"
  by (simp add: keeps_def)

lemma keeps_mono: "keeps content good X s t \<Longrightarrow> X \<subseteq> Y \<Longrightarrow> keeps content good Y s t"
  by (auto simp: keeps_def)

text \<open>The rows, and the acceptance, of a file depend on its object only.\<close>

lemma file_rows_cong:
  "t (''data/'' @ df_name f) = s (''data/'' @ df_name f) \<Longrightarrow> file_rows t A f = file_rows s A f"
  by (simp add: file_rows_def)

lemma file_ok_cong:
  "t (''data/'' @ df_name f) = s (''data/'' @ df_name f) \<Longrightarrow> file_ok t A crc sch f = file_ok s A crc sch f"
  by (simp add: file_ok_def)

lemma segment_loaded_cong:
  "t (''data/'' @ sg_name e) = s (''data/'' @ sg_name e) \<Longrightarrow> segment_loaded t crc own e part = segment_loaded s crc own e part"
  by (simp add: segment_loaded_def)

text \<open>A file entry as the write phase leaves it, for a batch whose ids start at \<open>row_id_base\<close>.\<close>

definition written ::
  "(string \<Rightarrow> bytes option) \<Rightarrow> 's engine_env \<Rightarrow> int \<Rightarrow> data_file_entry \<Rightarrow> nat \<Rightarrow> record_batch \<Rightarrow> bool" where
  "written objects env ts f row_id_base b \<longleftrightarrow>
     file_ok objects (en_arrow env) (cd_crc (en_codecs env)) (rb_schema b) f \<and>
     file_rows objects (en_arrow env) f = enumerated row_id_base b \<and>
     entry_ids f = [row_id_base..<row_id_base + rb_num_rows b] \<and>
     df_stats f = batch_stats (en_kernels env) b ts \<and> df_byte_len f \<le> u64_max \<and> df_row_count f = rb_num_rows b"

fun written_all ::
  "(string \<Rightarrow> bytes option) \<Rightarrow> 's engine_env \<Rightarrow> int \<Rightarrow> data_file_entry list \<Rightarrow> nat \<Rightarrow> record_batch list \<Rightarrow> bool" where
  "written_all objects env ts (f # fs) row_id_base (b # bs) =
     (written objects env ts f row_id_base b \<and> written_all objects env ts fs (row_id_base + rb_num_rows b) bs)"
| "written_all objects env ts fs row_id_base bs = (fs = [] \<and> bs = [])"

definition row_total :: "record_batch list \<Rightarrow> nat" where
  "row_total bs = sum_list (map rb_num_rows bs)"

lemma row_total_simps [simp]: "row_total [] = 0" "row_total (b # bs) = rb_num_rows b + row_total bs"
  by (simp_all add: row_total_def)

fun merge_all :: "stats_table \<Rightarrow> nat \<Rightarrow> stats_table list \<Rightarrow> stats_table" where
  "merge_all z i [] = z"
| "merge_all z i (st # sts) = merge_all (merge_zone_map_stats z st (i = 0)) (Suc i) sts"

lemma written_cong:
  "t (''data/'' @ df_name f) = s (''data/'' @ df_name f) \<Longrightarrow> written t env ts f n b = written s env ts f n b"
  by (simp add: written_def file_ok_cong [of t f s] file_rows_cong [of t f s])

lemma written_all_cong:
  "\<forall>f\<in>set fs. t (''data/'' @ df_name f) = s (''data/'' @ df_name f) \<Longrightarrow>
   written_all t env ts fs n bs = written_all s env ts fs n bs"
proof (induction fs arbitrary: n bs)
  case (Cons f fs)
  show ?case
  proof (cases bs)
    case bs: (Cons b cs)
    have "written t env ts f n b = written s env ts f n b" by (rule written_cong) (use Cons.prems in simp)
    moreover have "written_all t env ts fs m cs = written_all s env ts fs m cs" for m
      by (rule Cons.IH) (use Cons.prems in simp)
    ultimately show ?thesis unfolding bs by (simp only: written_all.simps)
  qed simp
qed simp

text \<open>The files of a write phase together: accepted, with the enumerated rows, over the claimed ids.\<close>

lemma written_all_files:
  assumes "written_all objects env ts fs n bs" "\<forall>b\<in>set bs. rb_schema b = sch"
  shows "list_all (file_ok objects (en_arrow env) (cd_crc (en_codecs env)) sch) fs \<and>
    concat (map (file_rows objects (en_arrow env)) fs) = enumerated_from n bs \<and>
    concat (map entry_ids fs) = [n..<n + row_total bs] \<and>
    length fs = length bs"
  using assms
proof (induction objects env ts fs n bs rule: written_all.induct)
  case (1 objects env ts f fs n b bs)
  then show ?case
    using upt_add_eq_append [of n "n + rb_num_rows b" "row_total bs"] by (simp add: written_def add.assoc)
qed auto

lemma vector_rows_ids:
  "vector_rows n i rows = Inr inserts \<Longrightarrow> x \<in> set inserts \<Longrightarrow> n + i \<le> fst x \<and> fst x < n + i + length rows"
  by (induction n i rows arbitrary: inserts rule: vector_rows.induct)
    (fastforce simp: bindE_Inr_iff checked_add_Some_iff)+

lemma build_vector_inserts_ids:
  assumes "build_vector_inserts b n = Inr inserts" "wf_batch b" "x \<in> set inserts"
  shows "n \<le> fst x \<and> fst x < n + rb_num_rows b"
proof (cases "schema_index_of (rb_schema b) ''vector''")
  case None
  then show ?thesis using assms by (simp add: build_vector_inserts_def)
next
  case (Some i)
  then have i: "i < length (rb_columns b)"
    using assms(2) by (auto simp: schema_index_of_def wf_batch_def Let_def split: if_splits)
  obtain nl rows where c: "rb_columns b ! i = PlainArr (VectorCol nl rows)" "vector_rows n 0 rows = Inr inserts"
    using assms(1) Some by (auto simp: build_vector_inserts_def split: arr.splits column.splits)
  have "length rows = rb_num_rows b"
    using assms(2) nth_mem [OF i] c(1) by (force simp: wf_batch_def)
  then show ?thesis using vector_rows_ids [OF c(2) assms(3)] by simp
qed

text \<open>A segment as the write phase leaves it: accepted against any set of rows that has its own.\<close>

definition segment_written ::
  "(string \<Rightarrow> bytes option) \<Rightarrow> checksum \<Rightarrow> nat \<Rightarrow> nat set \<Rightarrow> published_segment \<Rightarrow> bool" where
  "segment_written objects crc a own ps \<longleftrightarrow>
     sg_name (ps_entry ps) = segment_file_name a \<and>
     (\<forall>more. own \<subseteq> more \<longrightarrow>
        segment_loaded objects crc more (ps_entry ps) (Sealed (ps_reader ps) (sg_zone_map (ps_entry ps)))) \<and>
     set (row_id_slice (ps_reader ps)) \<subseteq> own \<and> distinct (row_id_slice (ps_reader ps)) \<and>
     sg_dimension (ps_entry ps) = sr_dim (ps_reader ps) \<and> 0 < sr_dim (ps_reader ps) \<and>
     sr_dim (ps_reader ps) \<le> u32_max \<and> sg_format_version (ps_entry ps) = SEGMENT_FORMAT_VERSION \<and>
     sg_vector_count (ps_entry ps) \<le> u32_max \<and> sg_byte_len (ps_entry ps) \<le> u64_max \<and>
     {sg_row_id_min (ps_entry ps), sg_row_id_max (ps_entry ps)} \<subseteq> own"

definition same_shared :: "'s engine \<Rightarrow> 's engine \<Rightarrow> bool" where
  "same_shared eg eg' \<longleftrightarrow>
     eg_current eg' = eg_current eg \<and> eg_leases eg' = eg_leases eg \<and> eg_log eg' = eg_log eg \<and>
     eg_insufficient eg' = eg_insufficient eg \<and> eg_events eg' = eg_events eg \<and> eg_last_ts eg' = eg_last_ts eg"

lemma total_rows_row_total: "total_rows n bs = Some m \<Longrightarrow> m = n + row_total bs"
  by (induction bs arbitrary: n) (fastforce simp: checked_add_Some_iff add.assoc split: option.splits)+

lemma check_reserved_columns_ok:
  "check_reserved_columns bs = Inr u \<longleftrightarrow> (\<forall>b\<in>set bs. no_hidden (rb_schema b))"
proof -
  have "hidden_column_in b = None \<longleftrightarrow> no_hidden (rb_schema b)" for b
    by (auto simp: hidden_column_in_def find_None_iff schema_index_of_None no_hidden_def)
  then have h: "no_hidden (rb_schema b) \<longleftrightarrow> hidden_column_in b = None" for b by blast
  show ?thesis unfolding h by (induction bs) (auto split: option.splits)
qed

lemma fetch_add_u64_is: "is_u64 (fetch_add_u64 n k)"
  by (simp add: fetch_add_u64_def is_u64_def u64_max_less)

locale engine_store = backend_contract "en_owner env" content good
  for env :: "'s engine_env" and content :: "'s \<Rightarrow> string \<Rightarrow> bytes option" and good :: "'s \<Rightarrow> bool" +
  assumes create_data_dir_frame:
      "good s \<Longrightarrow> en_create_data_dir env s = (ri, t) \<Longrightarrow>
       good t \<and> (\<forall>k. \<not> temporary k \<longrightarrow> content t k = content s k)"
    and sync_data_dir_frame:
      "good s \<Longrightarrow> en_sync_data_dir env s = (ru, t) \<Longrightarrow>
       good t \<and> (\<forall>k. \<not> temporary k \<longrightarrow> content t k = content s k)"
begin

lemma write_pending_batch_post:
  assumes A: "arrow_lib_spec (en_arrow env)" and b: "wf_batch b" "no_hidden (rb_schema b)"
    and ids: "is_u64 (wa_row_id_base acc + rb_num_rows b)"
    and g: "good s" and w: "write_pending_batch env a ts i b acc s = (r, t)"
  shows "keeps content good {''data/'' @ data_file_name a i} s t \<and>
    (\<forall>acc'. r = Inr acc' \<longrightarrow> (\<exists>f inserts.
       df_name f = data_file_name a i \<and> written (content t) env ts f (wa_row_id_base acc) b \<and>
       build_vector_inserts b (wa_row_id_base acc) = Inr inserts \<and>
       acc' = \<lparr> wa_files = wa_files acc @ [f], wa_inserts = wa_inserts acc @ inserts,
         wa_zone_map = merge_zone_map_stats (wa_zone_map acc) (df_stats f) (i = 0),
         wa_row_id_base = wa_row_id_base acc + rb_num_rows b \<rparr>))"
proof -
  let ?name = "data_file_name a i" and ?base = "wa_row_id_base acc" and ?n = "rb_num_rows b"
  let ?key = "''data/'' @ data_file_name a i"
  let ?A = "en_arrow env" and ?crc = "cd_crc (en_codecs env)"
  have key: "data_object_key ?name = Inr ?key" "valid_key ?key" "\<not> temporary ?key"
    using attempt_name_ok(1,2) [of a i] by (simp_all add: listed_name_def)
  show ?thesis
  proof (cases "\<exists>inserts p bs. build_vector_inserts b ?base = Inr inserts \<and> physical_batch ?A b ?base ts = Inr p \<and>
      al_ipc_write ?A p = Some bs")
    case False
    then have "t = s \<and> (\<forall>acc'. r \<noteq> Inr acc')"
      using w key(1) by (auto simp: write_pending_batch_def Let_def write_batch_with_def bindSE_def map_errSE_def
          split: sum.splits option.splits)
    then show ?thesis using g by (simp add: keeps_refl)
  next
    case True
    then obtain inserts p bs where v: "build_vector_inserts b ?base = Inr inserts"
        and p: "physical_batch ?A b ?base ts = Inr p" and bs: "al_ipc_write ?A p = Some bs" by blast
    obtain pr u where put: "be_put (en_owner env) ?key bs s = (pr, u)" by fastforce
    note frame = put_frame [OF g key(2,3) put]
    have kp: "keeps content good {?key} s u" using frame by (auto simp: keeps_def)
    have tu: "t = u" and r: "r = (case pr of Inl e \<Rightarrow> Inl (Storage e) | Inr _ \<Rightarrow> Inr
        \<lparr> wa_files = wa_files acc @ [\<lparr> df_name = ?name, df_byte_len = length bs, df_crc32c = unat (?crc bs),
            df_row_count = ?n, df_row_id_range = (if ?n = 0 then None else Some (?base, ?base + ?n - 1)),
            df_stats = batch_stats (en_kernels env) b ts \<rparr>],
          wa_inserts = wa_inserts acc @ inserts,
          wa_zone_map = merge_zone_map_stats (wa_zone_map acc) (batch_stats (en_kernels env) b ts) (i = 0),
          wa_row_id_base = ?base + ?n \<rparr>)"
      using w key(1) v p bs put
      by (auto simp: write_pending_batch_def Let_def write_batch_with_def bindSE_def map_errSE_def metadata_of_def
          split: sum.splits)
    show ?thesis
    proof (cases pr)
      case (Inl e)
      then show ?thesis using kp tu r by simp
    next
      case (Inr x)
      have cu: "content u ?key = Some bs" using put_ok [OF g key(2,3)] put Inr by blast
      let ?f = "\<lparr> df_name = ?name, df_byte_len = length bs, df_crc32c = unat (?crc bs), df_row_count = ?n,
          df_row_id_range = (if ?n = 0 then None else Some (?base, ?base + ?n - 1)),
          df_stats = batch_stats (en_kernels env) b ts \<rparr>"
      note pb = physical_batch_rows [OF p A b]
      have rd: "al_ipc_read ?A bs = IpcFirst p" by (rule arrow_lib_specD(3) [OF A bs])
      have ei: "entry_ids ?f = [?base..<?base + ?n]" by (auto simp: entry_ids_def Suc_diff_Suc simp del: upt_Suc)
      have rng: "catalog_row_id_range ?f = Inr (df_row_id_range ?f)"
        using ids by (auto simp: catalog_row_id_range_def checked_add_def is_u64_def)
      have "validate_data_file_row_ids p (df_row_id_range ?f) {} = Inr (set [?base..<?base + ?n])"
        using pb check_row_ids_ok [of ?base 0 ?n "{}" "?base + ?n - 1"] ids
        by (auto simp: validate_data_file_row_ids_def comp_def)
      then have "check_data_file ?A ?crc (rb_schema b) ?f bs {} = Inr (set (entry_ids ?f))"
        using pb rd rng by (simp add: check_data_file_def guardE_def read_batch_from_bytes_def ei)
      then have "file_ok (content u) ?A ?crc (rb_schema b) ?f"
        using cu attempt_name_ok(1) [of a i] by (simp add: file_ok_def)
      moreover have "file_rows (content u) ?A ?f = enumerated ?base b"
        using cu rd pb by (simp add: file_rows_def)
      ultimately have "written (content u) env ts ?f ?base b"
        using ei arrow_lib_specD(4) [OF A bs] by (simp add: written_def)
      then show ?thesis using kp tu r Inr v by (intro conjI allI impI exI [of _ ?f] exI [of _ inserts]) auto
    qed
  qed
qed

lemma write_batches_from_post:
  assumes A: "arrow_lib_spec (en_arrow env)" and bs: "\<forall>b\<in>set bs. wf_batch b \<and> no_hidden (rb_schema b)"
    and ids: "is_u64 (wa_row_id_base acc + row_total bs)"
    and g: "good s" and w: "write_batches_from env a ts i bs acc s = (r, t)"
  shows "keeps content good {k. \<exists>j\<ge>i. k = ''data/'' @ data_file_name a j} s t \<and>
    (\<forall>acc'. r = Inr acc' \<longrightarrow> (\<exists>fs inserts.
       map df_name fs = map (data_file_name a) [i..<i + length bs] \<and>
       written_all (content t) env ts fs (wa_row_id_base acc) bs \<and>
       (\<forall>x\<in>set inserts. wa_row_id_base acc \<le> fst x \<and> fst x < wa_row_id_base acc + row_total bs) \<and>
       acc' = \<lparr> wa_files = wa_files acc @ fs, wa_inserts = wa_inserts acc @ inserts,
         wa_zone_map = merge_all (wa_zone_map acc) i (map (\<lambda>b. batch_stats (en_kernels env) b ts) bs),
         wa_row_id_base = wa_row_id_base acc + row_total bs \<rparr>))"
  using bs ids g w
proof (induction bs arbitrary: i acc s)
  case Nil
  then show ?case by (auto simp: keeps_refl intro!: exI [of _ "[]"])
next
  case (Cons b bs)
  let ?base = "wa_row_id_base acc"
  have idb: "is_u64 (?base + rb_num_rows b)" using Cons.prems(2) by (simp add: is_u64_def)
  have wb: "wf_batch b" "no_hidden (rb_schema b)" using Cons.prems(1) by simp_all
  have step: "bindSE (write_pending_batch env a ts i b acc) (write_batches_from env a ts (Suc i) bs) s = (r, t)"
    using Cons.prems(4) by simp
  let ?later = "\<lambda>i. {k. \<exists>j\<ge>i. k = ''data/'' @ data_file_name a j}"
  have sub: "{''data/'' @ data_file_name a i} \<subseteq> ?later i" "?later (Suc i) \<subseteq> ?later i"
    using Suc_leD by blast+
  from step show ?case
  proof (cases rule: bindSE_cases)
    case (failed e)
    note post = write_pending_batch_post [OF A wb idb Cons.prems(3) failed(1)]
    have "keeps content good (?later i) s t" by (rule keeps_mono [OF conjunct1 [OF post] sub(1)])
    then show ?thesis using failed(2) by simp
  next
    case (passed acc1 u)
    note post = write_pending_batch_post [OF A wb idb Cons.prems(3) passed(1)]
    have ku: "keeps content good {''data/'' @ data_file_name a i} s u" using post by blast
    obtain f ins where f: "df_name f = data_file_name a i" "written (content u) env ts f ?base b"
        "build_vector_inserts b ?base = Inr ins"
        and acc1: "acc1 = \<lparr> wa_files = wa_files acc @ [f], wa_inserts = wa_inserts acc @ ins,
          wa_zone_map = merge_zone_map_stats (wa_zone_map acc) (df_stats f) (i = 0),
          wa_row_id_base = ?base + rb_num_rows b \<rparr>"
      using post by blast
    have ih: "keeps content good (?later (Suc i)) u t \<and>
      (\<forall>acc'. r = Inr acc' \<longrightarrow> (\<exists>fs inserts.
       map df_name fs = map (data_file_name a) [Suc i..<Suc i + length bs] \<and>
       written_all (content t) env ts fs (wa_row_id_base acc1) bs \<and>
       (\<forall>x\<in>set inserts. wa_row_id_base acc1 \<le> fst x \<and> fst x < wa_row_id_base acc1 + row_total bs) \<and>
       acc' = \<lparr> wa_files = wa_files acc1 @ fs, wa_inserts = wa_inserts acc1 @ inserts,
         wa_zone_map = merge_all (wa_zone_map acc1) (Suc i) (map (\<lambda>b. batch_stats (en_kernels env) b ts) bs),
         wa_row_id_base = wa_row_id_base acc1 + row_total bs \<rparr>))"
      by (rule Cons.IH) (use Cons.prems(1,2) keeps_good [OF ku] passed(2) acc1 in \<open>auto simp: add.assoc\<close>)
    have kt: "keeps content good (?later i) s t" by (rule keeps_trans [OF ku conjunct1 [OF ih] sub])
    have "content t (''data/'' @ df_name f) = content u (''data/'' @ df_name f)"
      using keepsD [OF conjunct1 [OF ih]] attempt_name_ok(2) [of a i] data_file_name_inject [of a i] f(1) by fastforce
    then have wf: "written (content t) env ts f ?base b" using f(2) written_cong by blast
    show ?thesis
    proof (intro conjI kt allI impI)
      fix acc' assume "r = Inr acc'"
      then obtain fs inserts where x: "map df_name fs = map (data_file_name a) [Suc i..<Suc i + length bs]"
         "written_all (content t) env ts fs (wa_row_id_base acc1) bs"
         "\<forall>x\<in>set inserts. wa_row_id_base acc1 \<le> fst x \<and> fst x < wa_row_id_base acc1 + row_total bs"
         "acc' = \<lparr> wa_files = wa_files acc1 @ fs, wa_inserts = wa_inserts acc1 @ inserts,
           wa_zone_map = merge_all (wa_zone_map acc1) (Suc i) (map (\<lambda>b. batch_stats (en_kernels env) b ts) bs),
           wa_row_id_base = wa_row_id_base acc1 + row_total bs \<rparr>"
        using ih by blast
      have "[i..<i + length (b # bs)] = i # [Suc i..<Suc i + length bs]"
        using upt_rec [of i "i + length (b # bs)"] by (simp del: upt_Suc)
      then have names: "map df_name (f # fs) = map (data_file_name a) [i..<i + length (b # bs)]"
        using x(1) f(1) by (simp del: upt_Suc)
      have bounds: "\<forall>x\<in>set (ins @ inserts). ?base \<le> fst x \<and> fst x < ?base + row_total (b # bs)"
        using x(3) build_vector_inserts_ids [OF f(3) wb(1)] acc1 by force
      have "df_stats f = batch_stats (en_kernels env) b ts" using f(2) by (simp add: written_def)
      then show "\<exists>fs inserts. map df_name fs = map (data_file_name a) [i..<i + length (b # bs)] \<and>
        written_all (content t) env ts fs ?base (b # bs) \<and>
        (\<forall>x\<in>set inserts. ?base \<le> fst x \<and> fst x < ?base + row_total (b # bs)) \<and>
        acc' = \<lparr> wa_files = wa_files acc @ fs, wa_inserts = wa_inserts acc @ inserts,
          wa_zone_map = merge_all (wa_zone_map acc) i (map (\<lambda>b. batch_stats (en_kernels env) b ts) (b # bs)),
          wa_row_id_base = ?base + row_total (b # bs) \<rparr>"
        using names bounds wf x(2,4) acc1 by (intro exI [of _ "f # fs"] exI [of _ "ins @ inserts"]) simp
    qed
  qed
qed

lemma build_and_write_segment_post:
  assumes g: "good s" and ids: "\<forall>x\<in>set inserts. is_u64 (fst x)" and own: "fst ` set inserts \<subseteq> own"
    and w: "build_and_write_segment env a inserts z s = (r, t)"
  shows "keeps content good {''data/'' @ segment_file_name a} s t \<and>
    (\<forall>ps. r = Inr (Some ps) \<longrightarrow>
       segment_written (content t) (cd_crc (en_codecs env)) a own ps \<and> sg_zone_map (ps_entry ps) = z)"
proof (cases "inserts = []")
  case True
  then show ?thesis using w g by (auto simp: build_and_write_segment_def keeps_refl)
next
  case False
  let ?crc = "cd_crc (en_codecs env)" and ?name = "segment_file_name a"
  let ?key = "''data/'' @ segment_file_name a" and ?ids = "map fst inserts"
  have key: "data_object_key ?name = Inr ?key" "valid_key ?key" "\<not> temporary ?key"
    using attempt_name_ok(3,4) [of a] by (simp_all add: listed_name_def)
  show ?thesis
  proof (cases "\<exists>index params bs. en_build_index env (map snd inserts) = Inr (index, params) \<and>
      encode_segment ?crc index ?ids params = Inr bs")
    case no: False
    then have "t = s \<and> (\<forall>ps. r \<noteq> Inr (Some ps))"
      using w False
      by (auto simp: build_and_write_segment_def Let_def bindSE_def map_errE_def split: sum.splits prod.splits)
    then show ?thesis using g by (simp add: keeps_refl)
  next
    case True
    then obtain index params bs where ix: "en_build_index env (map snd inserts) = Inr (index, params)"
      and bs: "encode_segment ?crc index ?ids params = Inr bs" by blast
    obtain pr u where put: "be_put (en_owner env) ?key bs s = (pr, u)" by fastforce
    have kp: "keeps content good {?key} s u" using put_frame [OF g key(2,3) put] by (auto simp: keeps_def)
    obtain rd where rd: "segment_from_bytes ?crc bs = Inr rd" "row_id_slice rd = ?ids"
      "sr_node_count rd = length ?ids" "sr_dim rd = ns_dimension index" "sr_format_version rd = SEGMENT_FORMAT_VERSION"
      "reader_row_id_range rd = (hd ?ids, last ?ids)" "distinct ?ids" "0 < ns_dimension index"
      "ns_dimension index \<le> u32_max" "length bs \<le> u64_max" "length ?ids \<le> u32_max" "?ids \<noteq> []"
      by (rule segment_accepted [OF bs]) (use ids in auto)
    let ?e = "\<lparr> sg_name = ?name, sg_format_version = SEGMENT_FORMAT_VERSION, sg_vector_count = length inserts,
        sg_dimension = ns_dimension index, sg_row_id_min = hd ?ids, sg_row_id_max = last ?ids,
        sg_byte_len = length bs, sg_zone_map = z \<rparr>"
    have tu: "t = u" and r: "r = (case pr of Inl e \<Rightarrow> Inl (Storage e) | Inr _ \<Rightarrow> Inr (Some \<lparr> ps_entry = ?e, ps_reader = rd \<rparr>))"
      using w False key(1) ix bs put rd(1,9)
      by (auto simp: build_and_write_segment_def Let_def bindSE_def map_errSE_def write_bytes_with_def guardE_def
          split: sum.splits)
    show ?thesis
    proof (cases pr)
      case (Inl e)
      then show ?thesis using kp tu r by simp
    next
      case (Inr x)
      have cu: "content u ?key = Some bs" using put_ok [OF g key(2,3)] put Inr by blast
      have acc: "check_segment ?crc ?e bs None more {} = Inr (rd, set ?ids)" if "own \<subseteq> more" for more
        using rd check_vector_rows_ok [of ?ids more "{}"] own that by (auto simp: check_segment_def guardE_def)
      have "segment_loaded (content u) ?crc more ?e (Sealed rd z)" if "own \<subseteq> more" for more
        using cu acc [OF that] attempt_name_ok(3) [of a] by (simp add: segment_loaded_def)
      moreover have "{hd ?ids, last ?ids} \<subseteq> own" using rd(12) own hd_in_set [of ?ids] last_in_set [of ?ids] by auto
      ultimately have "segment_written (content u) ?crc a own \<lparr> ps_entry = ?e, ps_reader = rd \<rparr>"
        using rd own by (simp add: segment_written_def)
      then show ?thesis using kp tu r Inr by auto
    qed
  qed
qed

lemma reserve_phase_post:
  assumes g: "good (eg_store eg)" and u: "is_u64 (eg_next_row_id eg)" "is_u64 (eg_attempts eg)"
    and r: "reserve_phase env tx eg = Some (r, eg')"
  shows "keeps content good (range record_key) (eg_store eg) (eg_store eg') \<and> same_shared eg eg' \<and>
    is_u64 (eg_next_row_id eg') \<and> eg_next_row_id eg \<le> eg_next_row_id eg' \<and>
    (\<forall>n. reserved content (eg_store eg) n \<longrightarrow> reserved content (eg_store eg') n) \<and>
    eg_attempts eg' \<in> {eg_attempts eg, fetch_add_u64 (eg_attempts eg) 1} \<and>
    (\<forall>a claimed. r = Inr (a, claimed) \<longrightarrow>
       a = eg_attempts eg \<and> eg_attempts eg' = fetch_add_u64 a 1 \<and>
       (\<forall>b\<in>set (tx_pending tx). no_hidden (rb_schema b)) \<and> len claimed = row_total (tx_pending tx) \<and>
       eg_next_row_id eg \<le> base claimed \<and> eg_next_row_id eg' = range_end claimed \<and>
       floor_is content (eg_store eg') (Some (range_end claimed)))"
proof -
  let ?start = "bindSE (liftSE (check_reserved_columns (tx_pending tx)))
     (\<lambda>_. if en_is_local env then map_errSE TxnIo (on_store (en_create_data_dir env)) else returnSE ()) eg"
  obtain r1 eg1 where s1: "?start = (r1, eg1)" by fastforce
  have frame: "keeps content good {} (eg_store eg) (eg_store eg1) \<and> eg1 = eg\<lparr> eg_store := eg_store eg1 \<rparr>"
  proof (cases "check_reserved_columns (tx_pending tx) = Inr () \<and> en_is_local env")
    case True
    obtain ri t where c: "en_create_data_dir env (eg_store eg) = (ri, t)" by fastforce
    have "eg1 = eg\<lparr> eg_store := t \<rparr>"
      using s1 True c by (auto simp: bindSE_def map_errSE_def on_store_def split: sum.splits)
    then show ?thesis using create_data_dir_frame [OF g c] by (simp add: keeps_def)
  next
    case False
    then have "eg1 = eg" using s1 by (auto simp: bindSE_def split: sum.splits if_splits)
    then show ?thesis using g by (simp add: keeps_refl)
  qed
  have g1: "good (eg_store eg1)" by (rule keeps_good [OF conjunct1 [OF frame]])
  obtain t1 where "eg1 = eg\<lparr> eg_store := t1 \<rparr>" by (rule that) (rule conjunct2 [OF frame])
  then have same1: "eg_next_row_id eg1 = eg_next_row_id eg" "eg_attempts eg1 = eg_attempts eg" "same_shared eg eg1"
    by (simp_all add: same_shared_def)
  have k1: "keeps content good (range record_key) (eg_store eg) (eg_store eg1)"
    using conjunct1 [OF frame] by (rule keeps_mono) simp
  have res1: "reserved content (eg_store eg1) n" if "reserved content (eg_store eg) n" for n
    using that keepsD [OF conjunct1 [OF frame], of "record_key n"] record_key_not_temporary
    by (simp add: reserved_def)
  show ?thesis
  proof (cases r1)
    case (Inl e)
    then have "r = Inl e" "eg' = eg1" using r s1 by (simp_all add: reserve_phase_def)
    then show ?thesis using k1 same1 u res1 by simp
  next
    case (Inr x)
    have "check_reserved_columns (tx_pending tx) = Inr ()"
      using s1 Inr by (auto simp: bindSE_def split: sum.splits)
    then have hid: "\<forall>b\<in>set (tx_pending tx). no_hidden (rb_schema b)"
      by (rule check_reserved_columns_ok [THEN iffD1])
    show ?thesis
    proof (cases "total_rows 0 (tx_pending tx)")
      case None
      then have "r = Inl ManifestOverflow" "eg' = eg1\<lparr> eg_attempts := fetch_add_u64 (eg_attempts eg) 1 \<rparr>"
        using r s1 Inr same1(2) by (simp_all add: reserve_phase_def Let_def)
      then show ?thesis using k1 same1 u res1 by (simp add: same_shared_def)
    next
      case (Some m)
      have m: "m = row_total (tx_pending tx)" using total_rows_row_total [OF Some] by simp
      obtain rc cur t where c: "claim (cd_crc (en_codecs env)) (en_owner env) m (eg_next_row_id eg) (eg_store eg1) = Some (rc, cur, t)"
          and rr: "r = bindE rc (\<lambda>claimed. Inr (eg_attempts eg, claimed))"
          and eg': "eg' = eg1\<lparr> eg_attempts := fetch_add_u64 (eg_attempts eg) 1, eg_next_row_id := cur, eg_store := t \<rparr>"
        using r s1 Inr Some same1(1,2) by (auto simp: reserve_phase_def Let_def split: option.splits prod.splits)
      have post: "claim_post content good m (eg_next_row_id eg) (eg_store eg1) (rc, cur, t)"
        by (rule claim_correct [OF c g1 u(1)])
      have k2: "keeps content good (range record_key) (eg_store eg1) t"
        using post by (auto simp: claim_post_def keeps_def)
      have k: "keeps content good (range record_key) (eg_store eg) (eg_store eg')"
        using keeps_trans [OF k1 k2] eg' by simp
      have ss: "same_shared eg eg'" using same1(3) eg' by (simp add: same_shared_def)
      have "a = eg_attempts eg \<and> eg_attempts eg' = fetch_add_u64 a 1 \<and>
         (\<forall>b\<in>set (tx_pending tx). no_hidden (rb_schema b)) \<and> len claimed = row_total (tx_pending tx) \<and>
         eg_next_row_id eg \<le> base claimed \<and> eg_next_row_id eg' = range_end claimed \<and>
         floor_is content (eg_store eg') (Some (range_end claimed))"
        if "r = Inr (a, claimed)" for a claimed
      proof -
        have "rc = Inr claimed" "a = eg_attempts eg" using that rr by (auto simp: bindE_Inr_iff)
        then show ?thesis using post hid m eg' by (simp add: claim_post_def)
      qed
      then show ?thesis using k ss post res1 eg' by (simp add: claim_post_def)
    qed
  qed
qed

lemma reserve_phase_returns:
  assumes g: "good (eg_store eg)" and u: "is_u64 (eg_next_row_id eg)"
  shows "\<exists>y. reserve_phase env tx eg = Some y"
proof -
  let ?start = "bindSE (liftSE (check_reserved_columns (tx_pending tx)))
     (\<lambda>_. if en_is_local env then map_errSE TxnIo (on_store (en_create_data_dir env)) else returnSE ()) eg"
  obtain r1 eg1 where s1: "?start = (r1, eg1)" by fastforce
  have g1: "good (eg_store eg1) \<and> eg_next_row_id eg1 = eg_next_row_id eg"
    using s1 g create_data_dir_frame [OF g]
    by (auto simp: bindSE_def map_errSE_def on_store_def split: sum.splits if_splits prod.splits)
  have cl: "\<exists>y. claim (cd_crc (en_codecs env)) (en_owner env) m (eg_next_row_id eg) (eg_store eg1) = Some y" for m
    by (rule claim_returns) (use g1 u in simp_all)
  show ?thesis
  proof (cases r1)
    case (Inl e)
    then show ?thesis using s1 by (simp add: reserve_phase_def)
  next
    case (Inr x)
    show ?thesis
    proof (cases "total_rows 0 (tx_pending tx)")
      case None
      then show ?thesis using s1 Inr by (simp add: reserve_phase_def Let_def)
    next
      case (Some m)
      obtain rc cur t where "claim (cd_crc (en_codecs env)) (en_owner env) m (eg_next_row_id eg) (eg_store eg1) = Some (rc, cur, t)"
        using cl [of m] by (metis surj_pair)
      then show ?thesis using s1 Inr Some g1 by (simp add: reserve_phase_def Let_def)
    qed
  qed
qed

lemma write_pending_batches_post:
  assumes A: "arrow_lib_spec (en_arrow env)" and bs: "\<forall>b\<in>set bs. wf_batch b \<and> no_hidden (rb_schema b)"
    and ids: "is_u64 (base claimed + row_total bs)"
    and g: "good s" and w: "write_pending_batches env bs a claimed ts s = (r, t)"
  shows "keeps content good {k. \<exists>j. k = ''data/'' @ data_file_name a j} s t \<and>
    (\<forall>acc. r = Inr acc \<longrightarrow>
       map df_name (wa_files acc) = map (data_file_name a) [0..<length bs] \<and>
       written_all (content t) env ts (wa_files acc) (base claimed) bs \<and> row_total bs = len claimed \<and>
       (\<forall>x\<in>set (wa_inserts acc). base claimed \<le> fst x \<and> fst x < range_end claimed) \<and>
       wa_zone_map acc = merge_all [] 0 (map (\<lambda>b. batch_stats (en_kernels env) b ts) bs))"
proof -
  let ?acc0 = "\<lparr> wa_files = [], wa_inserts = [], wa_zone_map = [], wa_row_id_base = base claimed \<rparr>"
  obtain r1 t1 where w1: "write_batches_from env a ts 0 bs ?acc0 s = (r1, t1)" by fastforce
  have post: "keeps content good {k. \<exists>j\<ge>0. k = ''data/'' @ data_file_name a j} s t1 \<and>
    (\<forall>acc'. r1 = Inr acc' \<longrightarrow> (\<exists>fs inserts.
       map df_name fs = map (data_file_name a) [0..<0 + length bs] \<and>
       written_all (content t1) env ts fs (wa_row_id_base ?acc0) bs \<and>
       (\<forall>x\<in>set inserts. wa_row_id_base ?acc0 \<le> fst x \<and> fst x < wa_row_id_base ?acc0 + row_total bs) \<and>
       acc' = \<lparr> wa_files = wa_files ?acc0 @ fs, wa_inserts = wa_inserts ?acc0 @ inserts,
         wa_zone_map = merge_all (wa_zone_map ?acc0) 0 (map (\<lambda>b. batch_stats (en_kernels env) b ts) bs),
         wa_row_id_base = wa_row_id_base ?acc0 + row_total bs \<rparr>))"
    by (rule write_batches_from_post [OF A bs _ g w1]) (use ids in simp)
  have k: "keeps content good {k. \<exists>j. k = ''data/'' @ data_file_name a j} s t1" using conjunct1 [OF post] by simp
  have t: "t = t1" and r: "\<And>acc. r = Inr acc \<Longrightarrow> r1 = Inr acc \<and> wa_row_id_base acc = base claimed + len claimed"
    using w w1 by (auto simp: write_pending_batches_def bindSE_def split: sum.splits if_splits)
  show ?thesis
  proof (intro conjI allI impI)
    show "keeps content good {k. \<exists>j. k = ''data/'' @ data_file_name a j} s t" using k t by simp
    fix acc assume "r = Inr acc"
    note acc = r [OF this]
    obtain fs inserts where x: "map df_name fs = map (data_file_name a) [0..<0 + length bs]"
       "written_all (content t1) env ts fs (base claimed) bs"
       "\<forall>x\<in>set inserts. base claimed \<le> fst x \<and> fst x < base claimed + row_total bs"
       "acc = \<lparr> wa_files = fs, wa_inserts = inserts,
         wa_zone_map = merge_all [] 0 (map (\<lambda>b. batch_stats (en_kernels env) b ts) bs),
         wa_row_id_base = base claimed + row_total bs \<rparr>"
      using conjunct2 [OF post, rule_format, OF conjunct1 [OF acc]] by auto
    have tot: "row_total bs = len claimed" using acc x(4) by simp
    show "map df_name (wa_files acc) = map (data_file_name a) [0..<length bs]"
      "written_all (content t) env ts (wa_files acc) (base claimed) bs" "row_total bs = len claimed"
      "\<forall>x\<in>set (wa_inserts acc). base claimed \<le> fst x \<and> fst x < range_end claimed"
      "wa_zone_map acc = merge_all [] 0 (map (\<lambda>b. batch_stats (en_kernels env) b ts) bs)"
      using x t tot by (simp_all add: range_end_def)
  qed
qed

lemma fill_phase_post:
  assumes A: "arrow_lib_spec (en_arrow env)"
    and bs: "\<forall>b\<in>set (tx_pending tx). wf_batch b \<and> no_hidden (rb_schema b)"
    and ids: "is_u64 (range_end claimed)" "row_total (tx_pending tx) = len claimed"
    and g: "good (eg_store eg)" and f: "fill_phase env tx ts (a, claimed) eg = (r, eg')"
  shows "keeps content good (attempt_keys a) (eg_store eg) (eg_store eg') \<and> eg' = eg\<lparr> eg_store := eg_store eg' \<rparr> \<and>
    (\<forall>files seg. r = Inr (files, seg) \<longrightarrow>
       map df_name files = map (data_file_name a) [0..<length (tx_pending tx)] \<and>
       written_all (content (eg_store eg')) env ts files (base claimed) (tx_pending tx) \<and>
       (\<forall>ps. seg = Some ps \<longrightarrow>
          segment_written (content (eg_store eg')) (cd_crc (en_codecs env)) a {base claimed..<range_end claimed} ps \<and>
          sg_zone_map (ps_entry ps) =
            merge_all [] 0 (map (\<lambda>b. batch_stats (en_kernels env) b ts) (tx_pending tx))))"
proof -
  let ?s = "eg_store eg" and ?bs = "tx_pending tx" and ?crc = "cd_crc (en_codecs env)"
  let ?D = "{k. \<exists>j. k = ''data/'' @ data_file_name a j}" and ?S = "{''data/'' @ segment_file_name a}"
  have sub: "?D \<subseteq> attempt_keys a" "?S \<subseteq> attempt_keys a" "{} \<subseteq> attempt_keys a" using attempt_names by auto
  obtain r1 s1 where w1: "write_pending_batches env ?bs a claimed ts ?s = (r1, s1)" by fastforce
  have idb: "is_u64 (base claimed + row_total ?bs)" using ids by (simp add: range_end_def)
  note p1 = write_pending_batches_post [OF A bs idb g w1]
  show ?thesis
  proof (cases r1)
    case (Inl e)
    then have "r = Inl e" "eg' = eg\<lparr> eg_store := s1 \<rparr>"
      using f w1 by (simp_all add: fill_phase_def on_store_def bindSE_def)
    then show ?thesis using keeps_mono [OF conjunct1 [OF p1] sub(1)] by simp
  next
    case (Inr acc)
    note acc = conjunct2 [OF p1, rule_format, OF Inr]
    let ?eg1 = "eg\<lparr> eg_store := s1 \<rparr>"
    have g1: "good s1" by (rule keeps_good [OF conjunct1 [OF p1]])
    show ?thesis
    proof (cases "validate_vector_dimensions (wa_inserts acc) (established_dimension (sn_index (eg_current eg)))")
      case inl: (Inl e)
      then have "r = Inl e" "eg' = ?eg1"
        using f w1 Inr by (simp_all add: fill_phase_def on_store_def bindSE_def)
      then show ?thesis using keeps_mono [OF conjunct1 [OF p1] sub(1)] by simp
    next
      case inr: (Inr u)
      obtain r2 s2 where w2: "build_and_write_segment env a (wa_inserts acc) (wa_zone_map acc) s1 = (r2, s2)" by fastforce
      have p2: "keeps content good ?S s1 s2 \<and>
        (\<forall>ps. r2 = Inr (Some ps) \<longrightarrow>
           segment_written (content s2) ?crc a {base claimed..<range_end claimed} ps \<and> sg_zone_map (ps_entry ps) = wa_zone_map acc)"
        by (rule build_and_write_segment_post [OF g1 _ _ w2]) (use acc ids(1) in \<open>auto simp: is_u64_def\<close>)
      have k2: "keeps content good (attempt_keys a) ?s s2"
        by (rule keeps_trans [OF conjunct1 [OF p1] conjunct1 [OF p2] sub(1,2)])
      show ?thesis
      proof (cases r2)
        case (Inl e)
        then have "r = Inl e" "eg' = eg\<lparr> eg_store := s2 \<rparr>"
          using f w1 Inr inr w2 by (simp_all add: fill_phase_def on_store_def bindSE_def)
        then show ?thesis using k2 by simp
      next
        case seg: (Inr seg)
        obtain r3 s3 where w3: "(if en_is_local env then map_errSE Storage (on_store (en_sync_data_dir env)) else returnSE ())
            (eg\<lparr> eg_store := s2 \<rparr>) = (r3, eg\<lparr> eg_store := s3 \<rparr>)"
            and k3: "keeps content good {} s2 s3"
        proof (cases "en_is_local env")
          case True
          obtain ru v where c: "en_sync_data_dir env s2 = (ru, v)" by fastforce
          then show ?thesis
            using that [of "case ru of Inl e \<Rightarrow> Inl (Storage e) | Inr x \<Rightarrow> Inr x" v] True
              sync_data_dir_frame [OF keeps_good [OF k2] c]
            by (auto simp: map_errSE_def on_store_def keeps_def split: sum.splits)
        next
          case False
          then show ?thesis using that [of "Inr ()" s2] keeps_good [OF k2] by (simp add: keeps_refl)
        qed
        have k: "keeps content good (attempt_keys a) ?s s3" by (rule keeps_trans [OF k2 k3 _ sub(3)]) simp
        have eg': "eg' = eg\<lparr> eg_store := s3 \<rparr>" and r: "\<And>x. r = Inr x \<Longrightarrow> x = (wa_files acc, seg)"
          using f w1 Inr inr w2 seg w3
          by (auto simp: fill_phase_def on_store_def bindSE_def split: sum.splits)
        have same: "content s3 key = content s1 key" if "key \<in> ?D" for key
          using that keepsD [OF conjunct1 [OF p2], of key] keepsD [OF k3, of key] attempt_name_ok(2) [of a]
            data_file_not_segment [of a] by auto
        have "\<forall>f\<in>set (wa_files acc). df_name f \<in> data_file_name a ` {0..<length ?bs}"
          using arg_cong [OF conjunct1 [OF acc], of set] by auto
        then have "\<forall>f\<in>set (wa_files acc). content s3 (''data/'' @ df_name f) = content s1 (''data/'' @ df_name f)"
          using same by blast
        then have wr: "written_all (content s3) env ts (wa_files acc) (base claimed) ?bs"
          using written_all_cong [of "wa_files acc" "content s3" "content s1" env ts] acc by blast
        have sw: "segment_written (content s3) ?crc a {base claimed..<range_end claimed} ps \<and>
            sg_zone_map (ps_entry ps) = wa_zone_map acc" if "seg = Some ps" for ps
        proof -
          have w: "segment_written (content s2) ?crc a {base claimed..<range_end claimed} ps"
              "sg_zone_map (ps_entry ps) = wa_zone_map acc"
            using p2 seg that by simp_all
          have "content s3 (''data/'' @ segment_file_name a) = content s2 (''data/'' @ segment_file_name a)"
            using keepsD [OF k3] attempt_name_ok(4) [of a] by simp
          then show ?thesis
            using w segment_loaded_cong [of "content s3" "ps_entry ps" "content s2"] by (simp add: segment_written_def)
        qed
        show ?thesis using k eg' r wr sw acc by (auto simp del: written_all.simps)
      qed
    qed
  qed
qed

end

end
