(* ===== verification/ZoneMap.thy ===== *)
theory ZoneMap
  imports WritePhase
begin

text \<open>
  Soundness of the zone map of a commit's segment: the statistics of the staged batches, merged
  by \<open>merge_zone_map_stats\<close> of \<open>crates/txn/src/dataset.rs\<close>, bound every batch of the commit, so
  a segment skipped by its zone map has no matching row.
\<close>

lemma map_of_put_stat: "map_of (put_stat k e st) = (map_of st)(k \<mapsto> e)"
  by (induction k e st rule: put_stat.induct) (auto simp: fun_eq_iff)

lemma put_stat_keys: "set (map fst (put_stat k e st)) = insert k (set (map fst st))"
  by (induction k e st rule: put_stat.induct) auto

lemma put_stat_sorted: "sorted_wrt (<) (map fst st) \<Longrightarrow> sorted_wrt (<) (map fst (put_stat k e st))"
proof (induction k e st rule: put_stat.induct)
  case (2 k e k' e' st)
  show ?case
  proof (cases "k < k' \<or> k = k'")
    case True
    then show ?thesis using 2(2) by (auto intro: less_trans)
  next
    case False
    then have "k' < k" by auto
    then show ?thesis using 2 False put_stat_keys [of k e st] by auto
  qed
qed simp

lemma stats_of_compute: "map_of (stats_of K b) = compute_stats K b"
proof -
  have "map_of (foldl (\<lambda>st (name, col). case column_entry K col of None \<Rightarrow> st | Some e \<Rightarrow> put_stat name e st) st b) =
    foldl (\<lambda>st (name, col). case column_entry K col of None \<Rightarrow> st | Some e \<Rightarrow> st(name \<mapsto> e)) (map_of st) b" for st
    by (induction b arbitrary: st) (auto simp: map_of_put_stat split: option.splits)
  from this [of "[]"] show ?thesis by (simp add: stats_of_def compute_stats_def)
qed

lemma stats_of_sorted: "sorted_wrt (<) (map fst (stats_of K b))"
proof -
  have "sorted_wrt (<) (map fst st) \<Longrightarrow> sorted_wrt (<) (map fst
    (foldl (\<lambda>st (name, col). case column_entry K col of None \<Rightarrow> st | Some e \<Rightarrow> put_stat name e st) st b))" for st
    by (induction b arbitrary: st) (auto simp: put_stat_sorted split: option.splits)
  from this [of "[]"] show ?thesis by (simp add: stats_of_def)
qed

text \<open>The columns of a batch that a predicate can mention: its own and the timestamp.\<close>

definition stamped :: "record_batch \<Rightarrow> int \<Rightarrow> batch" where
  "stamped b ts = batch_of b @ [(TIMESTAMP_COLUMN, Int64Col (replicate (rb_num_rows b) (Some ts)))]"

lemma batch_of_names: "wf_batch b \<Longrightarrow> map fst (batch_of b) = map fd_name (sch_fields (rb_schema b))"
  by (simp add: batch_of_def wf_batch_def)

lemma batch_stats_ok:
  assumes K: "arrow_spec K" and b: "wf_batch b" "no_hidden (rb_schema b)"
    and d: "distinct (map fd_name (sch_fields (rb_schema b)))"
  shows "stats_ok (map_of (batch_stats K b ts)) (stamped b ts)" "sorted_wrt (<) (map fst (batch_stats K b ts))"
proof -
  have "TIMESTAMP_COLUMN \<notin> fd_name ` set (sch_fields (rb_schema b))"
    using b(2) row_id_hidden(2) unfolding no_hidden_def by (metis imageE)
  then have none: "map_of (batch_of b) TIMESTAMP_COLUMN = None"
    using batch_of_names [OF b(1)] by (metis list.set_map map_of_eq_None_iff)
  have own: "stats_ok (compute_stats K (batch_of b)) (batch_of b)"
    by (rule compute_stats_ok [OF K]) (use d batch_of_names [OF b(1)] in simp)
  show "stats_ok (map_of (batch_stats K b ts)) (stamped b ts)"
    unfolding stats_ok_def
  proof (intro allI impI)
    fix name e c
    assume e: "map_of (batch_stats K b ts) name = Some e" and c: "map_of (stamped b ts) name = Some c"
    show "bounds_ok e c"
    proof (cases "name = TIMESTAMP_COLUMN")
      case True
      then show ?thesis using e c none
        by (auto simp: batch_stats_def map_of_put_stat stamped_def map_add_def bounds_ok_def split: if_splits)
    next
      case False
      then show ?thesis using e c own
        by (auto simp: batch_stats_def map_of_put_stat stats_of_compute stamped_def map_add_def stats_ok_def
            split: option.splits if_splits)
    qed
  qed
  show "sorted_wrt (<) (map fst (batch_stats K b ts))"
    by (simp add: batch_stats_def put_stat_sorted stats_of_sorted)
qed

lemma merge_entry_bounds:
  assumes "merge_entry st other = Some e" "bounds_ok st c \<or> bounds_ok other c"
    and "\<exists>c. bounds_ok st c" "\<exists>c. bounds_ok other c"
  shows "bounds_ok e c"
proof -
  have nan: "min_v x = Float64 a \<Longrightarrow> max_v x = Float64 b \<Longrightarrow> \<exists>c. bounds_ok x c \<Longrightarrow> \<not> f64_is_nan a \<and> \<not> f64_is_nan b"
    for x a b
  proof -
    assume x: "min_v x = Float64 a" "max_v x = Float64 b" "\<exists>c. bounds_ok x c"
    then obtain c where "bounds_ok x c" by blast
    then show ?thesis using x(1,2) by (cases c) (auto simp: bounds_ok_def)
  qed
  consider (int) a b a' b' where "min_v st = Int64 a" "max_v st = Int64 b" "min_v other = Int64 a'" "max_v other = Int64 b'"
      "e = \<lparr> min_v = Int64 (min a a'), max_v = Int64 (max b b') \<rparr>"
    | (float) a b a' b' where "min_v st = Float64 a" "max_v st = Float64 b" "min_v other = Float64 a'" "max_v other = Float64 b'"
      "e = \<lparr> min_v = Float64 (f64_min a a'), max_v = Float64 (f64_max b b') \<rparr>"
    | (utf) a b a' b' where "min_v st = Utf8 a" "max_v st = Utf8 b" "min_v other = Utf8 a'" "max_v other = Utf8 b'"
      "e = \<lparr> min_v = (if a' < a then Utf8 a' else Utf8 a), max_v = (if b < b' then Utf8 b' else Utf8 b) \<rparr>"
    using assms(1) by (auto simp: merge_entry_def split: val.splits)
  then show ?thesis
  proof cases
    case int
    then show ?thesis using assms(2) by (cases c) (auto simp: bounds_ok_def)
  next
    case float
    have n: "\<not> f64_is_nan a" "\<not> f64_is_nan b" "\<not> f64_is_nan a'" "\<not> f64_is_nan b'"
      using nan [OF float(1,2) assms(3)] nan [OF float(3,4) assms(4)] by auto
    have k: "f64_key (f64_min a a') \<le> f64_key a" "f64_key (f64_min a a') \<le> f64_key a'"
      "f64_key b \<le> f64_key (f64_max b b')" "f64_key b' \<le> f64_key (f64_max b b')"
      "\<not> f64_is_nan (f64_min a a')" "\<not> f64_is_nan (f64_max b b')"
      using n by (auto simp: f64_min_def f64_max_def)
    obtain xs where c: "c = Float64Col xs"
      using assms(2) float(1,3) by (cases c) (auto simp: bounds_ok_def)
    have "f64_key (f64_min a a') \<le> f64_key x \<and> f64_key x \<le> f64_key (f64_max b b')"
      if "Some x \<in> set (valid_f64 xs)" "\<not> f64_is_nan x" for x
      using assms(2) that k(1-4) float(1-4) unfolding c bounds_ok_def
      by (auto intro: order_trans)
    then show ?thesis using k(5,6) float(5) by (simp add: bounds_ok_def c)
  next
    case utf
    obtain xs where c: "c = Utf8Col xs"
      using assms(2) utf(1,3) by (cases c) (auto simp: bounds_ok_def)
    show ?thesis using assms(2) utf unfolding c bounds_ok_def by (auto dest: less_imp_le)
  qed
qed

text \<open>A table whose entries bound the columns of every listed batch, and bound something.\<close>

definition covers :: "stats_table \<Rightarrow> batch list \<Rightarrow> bool" where
  "covers z bs \<longleftrightarrow> sorted_wrt (<) (map fst z) \<and> (\<forall>b\<in>set bs. stats_ok (map_of z) b) \<and>
     (\<forall>name e. map_of z name = Some e \<longrightarrow> (\<exists>c. bounds_ok e c))"

lemma merge_covers:
  assumes z: "covers z bs" and st: "covers st [b]"
  shows "covers (merge_zone_map_stats z st False) (bs @ [b])"
proof -
  let ?f = "\<lambda>(name, x). case map_of st name of None \<Rightarrow> None | Some y \<Rightarrow> map_option (Pair name) (merge_entry x y)"
  have m: "merge_zone_map_stats z st False = List.map_filter ?f z" by (simp add: merge_zone_map_stats_def)
  have sub: "set (map fst (List.map_filter ?f xs)) \<subseteq> set (map fst xs)" for xs
    by (induction xs) (auto simp: List.map_filter_simps split: option.splits)
  have d: "sorted_wrt (<) (map fst (List.map_filter ?f xs))" if "sorted_wrt (<) (map fst xs)" for xs
    using that
  proof (induction xs)
    case (Cons x xs)
    have f: "?f x = Some y \<Longrightarrow> fst y = fst x" for y by (cases x) (auto split: option.splits)
    have "\<forall>k\<in>set (map fst xs). fst x < k" using Cons.prems by simp
    then have "\<forall>k\<in>set (map fst (List.map_filter ?f xs)). fst x < k" using sub [of xs] by blast
    then show ?case using Cons f by (cases "?f x") (simp_all add: List.map_filter_simps)
  qed (simp add: List.map_filter_simps)
  have dz: "sorted_wrt (<) (map fst z)" using z by (simp add: covers_def)
  have e: "\<exists>x y. map_of z name = Some x \<and> map_of st name = Some y \<and> merge_entry x y = Some v"
    if "map_of (List.map_filter ?f z) name = Some v" for name v
  proof -
    have "(name, v) \<in> set (List.map_filter ?f z)" using that by (rule map_of_SomeD)
    then obtain x y where "(name, x) \<in> set z" "map_of st name = Some y" "merge_entry x y = Some v"
      by (auto simp: List.map_filter_def split: option.splits)
    moreover have "distinct (map fst z)" using dz by (simp add: strict_sorted_iff)
    ultimately show ?thesis by auto
  qed
  show ?thesis
    unfolding covers_def m
  proof (intro conjI ballI allI impI d [OF dz])
    fix b' assume b': "b' \<in> set (bs @ [b])"
    show "stats_ok (map_of (List.map_filter ?f z)) b'"
      unfolding stats_ok_def
    proof (intro allI impI)
      fix name v c assume v: "map_of (List.map_filter ?f z) name = Some v" and c: "map_of b' name = Some c"
      obtain x y where xy: "map_of z name = Some x" "map_of st name = Some y" "merge_entry x y = Some v"
        using e [OF v] by blast
      have "bounds_ok x c \<or> bounds_ok y c"
        using b' z st xy(1,2) c by (auto simp: covers_def stats_ok_def)
      then show "bounds_ok v c"
        by (rule merge_entry_bounds [OF xy(3)]) (use z st xy(1,2) in \<open>unfold covers_def, blast+\<close>)
    qed
  next
    fix name v assume v: "map_of (List.map_filter ?f z) name = Some v"
    obtain x y where xy: "map_of z name = Some x" "map_of st name = Some y" "merge_entry x y = Some v"
      using e [OF v] by blast
    obtain c where c: "bounds_ok x c" using z xy(1) unfolding covers_def by blast
    have "bounds_ok v c"
      by (rule merge_entry_bounds [OF xy(3)]) (use z st xy(1,2) c in \<open>unfold covers_def, blast+\<close>)
    then show "\<exists>c. bounds_ok v c" ..
  qed
qed

text \<open>Statistics computed from a batch bound some column.\<close>

lemma batch_stats_covers:
  assumes "arrow_spec K" "wf_batch b" "no_hidden (rb_schema b)" "distinct (map fd_name (sch_fields (rb_schema b)))"
  shows "covers (batch_stats K b ts) [stamped b ts]"
proof -
  have "\<exists>c. bounds_ok e c" if e: "map_of (batch_stats K b ts) name = Some e" for name e
  proof (cases "name = TIMESTAMP_COLUMN")
    case True
    then have "e = \<lparr> min_v = Int64 ts, max_v = Int64 ts \<rparr>"
      using e by (simp add: batch_stats_def map_of_put_stat)
    then have "bounds_ok e (Int64Col [])" by (simp add: bounds_ok_def)
    then show ?thesis ..
  next
    case False
    then have "compute_stats K (batch_of b) name = Some e"
      using e by (simp add: batch_stats_def map_of_put_stat stats_of_compute)
    then obtain c where "column_entry K c = Some e"
      using compute_stats_entry [of "batch_of b" K name e] assms(2,4) batch_of_names by metis
    then show ?thesis using column_entry_bounds [OF assms(1)] by blast
  qed
  then show ?thesis using batch_stats_ok [OF assms] by (simp add: covers_def)
qed

lemma merge_all_covers:
  assumes K: "arrow_spec K"
    and bs: "\<forall>b\<in>set bs. wf_batch b \<and> no_hidden (rb_schema b) \<and> distinct (map fd_name (sch_fields (rb_schema b)))"
    and z: "covers z (map (\<lambda>b. stamped b ts) done) \<or> i = 0 \<and> done = []" "i = length done"
  shows "bs \<noteq> [] \<or> done \<noteq> [] \<Longrightarrow>
    covers (merge_all z i (map (\<lambda>b. batch_stats K b ts) bs)) (map (\<lambda>b. stamped b ts) (done @ bs))"
  using bs z
proof (induction bs arbitrary: z i "done")
  case (Cons b bs)
  let ?z = "merge_zone_map_stats z (batch_stats K b ts) (i = 0)"
  have st: "covers (batch_stats K b ts) [stamped b ts]" by (rule batch_stats_covers [OF K]) (use Cons.prems(2) in auto)
  have "covers ?z (map (\<lambda>b. stamped b ts) (done @ [b]))"
  proof (cases "i = 0")
    case True
    then show ?thesis using st Cons.prems(4) by (simp add: merge_zone_map_stats_def)
  next
    case False
    then show ?thesis using merge_covers [OF _ st, of z "map (\<lambda>b. stamped b ts) done"] Cons.prems(3) by simp
  qed
  then have "covers (merge_all ?z (Suc i) (map (\<lambda>b. batch_stats K b ts) bs)) (map (\<lambda>b. stamped b ts) ((done @ [b]) @ bs))"
    by (intro Cons.IH) (use Cons.prems(2,4) in auto)
  then show ?case by simp
qed auto


definition two_batches :: "record_batch list" where
  "two_batches =
     map (\<lambda>xs. \<lparr> rb_schema = \<lparr> sch_fields = [field_new ''a'' DTInt64 True], sch_metadata = [] \<rparr>,
                 rb_columns = [PlainArr (Int64Col xs)], rb_num_rows = 2 \<rparr>) [[Some 3, None], [Some 9, Some 5]]"


end
