(* ===== verification/LocalEngine.thy ===== *)
theory LocalEngine
  imports ZoneMap
begin

text \<open>
  The engine over the local filesystem: creating and syncing the data directory
  (\<open>sync_dir\<close> of \<open>crates/storage/src/datafile.rs\<close>), and that the local store keeps what the
  write phase relies on.
\<close>

definition directory_sync_error :: "io_kind \<Rightarrow> storage_error" where
  "directory_sync_error k = (if k = Unsupported \<or> k = InvalidInput then DurabilityUnsupported else Io k)"

text \<open>Opening and flushing the directory are two calls that may fail; neither changes the tree.\<close>

definition sync_dir :: "(lfs, storage_error, unit) effect" where
  "sync_dir s =
     (case take_fault s of
        (Some (Fault k _), s1) \<Rightarrow> (Inl (directory_sync_error k), s1)
      | (None, s1) \<Rightarrow>
          (case take_fault s1 of
             (Some (Fault k _), s2) \<Rightarrow> (Inl (directory_sync_error k), s2)
           | (None, s2) \<Rightarrow> (Inr (), s2)))"

definition create_data_dir :: "(lfs, io_kind, unit) effect" where
  "create_data_dir s =
     (case create_dir_all [''data''] s of
        (Inr u, t) \<Rightarrow> (Inr u, t)
      | (Inl (Io k), t) \<Rightarrow> (Inl k, t)
      | (Inl _, t) \<Rightarrow> (Inl OtherIo, t))"

definition local_env ::
  "codecs \<Rightarrow> arrow_lib \<Rightarrow> arrow_kernels
   \<Rightarrow> (f32 list list \<Rightarrow> (index_error, node_source \<times> segment_params) result) \<Rightarrow> lfs engine_env" where
  "local_env cd A K build =
     \<lparr> en_owner = local_owner, en_is_local = True, en_create_data_dir = create_data_dir,
       en_sync_data_dir = sync_dir, en_codecs = cd, en_arrow = A, en_kernels = K, en_build_index = build \<rparr>"

lemma create_data_dir_keeps_files:
  assumes "lfs_good s" "create_data_dir s = (r, t)"
  shows "lfs_good t \<and> files t = files s"
proof -
  obtain r' t' where c: "create_dir_all [''data''] s = (r', t')" by fastforce
  have "t' = t" using assms(2) c by (auto simp: create_data_dir_def split: sum.splits storage_error.splits)
  then show ?thesis using create_dir_all_frame [OF c assms(1)] by (simp add: good_name_def unsafe_segment_def)
qed

lemma sync_dir_keeps_root:
  assumes "sync_dir s = (r, t)"
  shows "root_node t = root_node s"
  using assms by (auto simp: sync_dir_def dest!: take_fault_root split: prod.splits option.splits fault.splits)

lemma local_store_contract:
  "engine_store (local_env cd A K build) owner_content lfs_good"
proof (rule engine_store.intro)
  show "backend_contract (en_owner (local_env cd A K build)) owner_content lfs_good"
    using local_dataset.own.backend_contract_axioms by (simp add: local_env_def)
  show "engine_store_axioms (local_env cd A K build) owner_content lfs_good"
  proof (unfold_locales, goal_cases)
    case (1 s r t)
    then show ?case
      using create_data_dir_keeps_files [of s r t] by (simp add: local_env_def owned_content_def lfs_content_def)
  next
    case (2 s r t)
    then show ?case
      using same_root [OF sync_dir_keeps_root [of s r t]]
      by (simp add: local_env_def owned_content_def lfs_content_def)
  qed
qed

interpretation local_engine: engine_store "local_env cd A K build" owner_content lfs_good
  for cd A K build
  by (rule local_store_contract)

end
