(* ===== verification/Commit.thy ===== *)
theory Commit
  imports LocalEngine
begin

text \<open>
  Commits (\<open>Transaction::commit\<close>, \<open>commit_inner\<close> and \<open>Dataset::begin\<close> of
  \<open>crates/txn/src/dataset.rs\<close>): the critical section under the commit lock, the whole commit as
  one function, and the interleavings of the commits of one open dataset as a step relation whose
  steps are the parts of the commit that other threads can run between.
\<close>

section \<open>The critical section\<close>

text \<open>The loop over the pending tombstones: the in-memory set and the persisted list.\<close>

fun append_tombstones :: "nat list \<Rightarrow> nat set \<Rightarrow> nat list \<Rightarrow> nat set \<times> nat list" where
  "append_tombstones [] tombstones persisted = (tombstones, persisted)"
| "append_tombstones (row_id # rest) tombstones persisted =
     append_tombstones rest (insert row_id tombstones)
       (if row_id \<in> tombstones then persisted else persisted @ [row_id])"

definition check_segment_dimension :: "snapshot \<Rightarrow> published_segment option \<Rightarrow> (txn_error, unit) result" where
  "check_segment_dimension latest new_segment =
     (case new_segment of
        None \<Rightarrow> Inr ()
      | Some published \<Rightarrow>
          (let established = established_dimension (sn_index latest);
               segment_dimension = sg_dimension (ps_entry published)
           in if established \<noteq> 0 \<and> segment_dimension \<noteq> established
              then Inl (Index (DimensionMismatch segment_dimension established)) else Inr ()))"

definition candidate_manifest ::
  "'s engine \<Rightarrow> transaction \<Rightarrow> int \<Rightarrow> data_file_entry list \<Rightarrow> published_segment option \<Rightarrow> nat \<Rightarrow> manifest" where
  "candidate_manifest eg tx ts new_files new_segment new_version =
     (let latest = eg_current eg; m = sn_manifest latest in
      m\<lparr> mf_version := new_version,
         mf_data_files := mf_data_files m @ new_files,
         mf_segments := mf_segments m @ (case new_segment of None \<Rightarrow> [] | Some published \<Rightarrow> [ps_entry published]),
         mf_next_row_id := eg_next_row_id eg,
         mf_next_attempt_id := eg_attempts eg,
         mf_commit_time_high_water := max (mf_commit_time_high_water m) ts,
         mf_committed_at_us := ts,
         mf_tombstones := snd (append_tombstones (tx_pending_tombstones tx) (sn_tombstones latest) (mf_tombstones m)) \<rparr>)"

definition candidate_index :: "snapshot \<Rightarrow> published_segment option \<Rightarrow> segment_set" where
  "candidate_index latest new_segment =
     (case new_segment of
        Some published \<Rightarrow> with_appended (ps_reader published) (sg_zone_map (ps_entry published)) (sn_index latest)
      | None \<Rightarrow> sn_index latest)"

text \<open>What happens once the candidate is visible: the log entry, the lease and the new snapshot.\<close>

definition install ::
  "(nat \<Rightarrow> bool) \<Rightarrow> transaction \<Rightarrow> manifest \<Rightarrow> segment_set \<Rightarrow> nat set \<Rightarrow> nat \<Rightarrow> 's engine \<Rightarrow> 's engine" where
  "install alive tx m index tombstones new_version eg =
     (case register alive new_version (eg_leases eg) of (lease, reg) \<Rightarrow>
        eg\<lparr> eg_log := push new_version (tx_write_set tx) (eg_log eg),
            eg_leases := reg,
            eg_current := \<lparr> sn_version = new_version, sn_lease = lease, sn_schema = tx_schema tx, sn_manifest = m,
                            sn_index = index, sn_tombstones = tombstones \<rparr> \<rparr>)"

definition publish_candidate ::
  "'s engine_env \<Rightarrow> (nat \<Rightarrow> bool) \<Rightarrow> transaction \<Rightarrow> int \<Rightarrow> data_file_entry list \<Rightarrow> published_segment option \<Rightarrow> nat
   \<Rightarrow> ('s engine, txn_error, unit) effect" where
  "publish_candidate env alive tx ts new_files new_segment new_version eg =
     (let latest = eg_current eg;
          tombstones = fst (append_tombstones (tx_pending_tombstones tx) (sn_tombstones latest) (mf_tombstones (sn_manifest latest)));
          m = candidate_manifest eg tx ts new_files new_segment new_version;
          index = candidate_index latest new_segment
      in case commit_manifest_with (en_codecs env) (en_owner env) m (eg_store eg) of
           (Inr _, s) \<Rightarrow> (Inr (), install alive tx m index tombstones new_version (eg\<lparr> eg_store := s \<rparr>))
         | (Inl PublicationIndeterminate, s) \<Rightarrow>
             (Inl (IndeterminateManifestPublication new_version PublicationIndeterminate),
              install alive tx m index tombstones new_version (eg\<lparr> eg_store := s \<rparr>))
         | (Inl e, s) \<Rightarrow> (Inl (Storage e), eg\<lparr> eg_store := s \<rparr>))"

definition critical_section ::
  "'s engine_env \<Rightarrow> (nat \<Rightarrow> bool) \<Rightarrow> transaction \<Rightarrow> int \<Rightarrow> data_file_entry list \<Rightarrow> published_segment option
   \<Rightarrow> ('s engine, txn_error, unit) effect" where
  "critical_section env alive tx ts new_files new_segment eg =
     (let latest = eg_current eg;
          latest_version = sn_version latest;
          expected = schema_version (sn_manifest (tx_base_snapshot tx));
          actual = schema_version (sn_manifest latest)
      in if actual \<noteq> expected then (Inl (Storage (SchemaVersionChanged expected actual)), eg)
         else case conflicts_with (eg_log eg) (tx_base_version tx) latest_version (tx_write_set tx) of
           Conflict contested \<Rightarrow> (Inl (TxnConflict contested), eg)
         | InsufficientHistory oldest \<Rightarrow>
             (Inl (TxnInsufficientHistory (tx_base_version tx) oldest latest_version),
              eg\<lparr> eg_insufficient := fetch_add_u64 (eg_insufficient eg) 1 \<rparr>)
         | Clean \<Rightarrow>
             (case find (\<lambda>row_id. \<not> owns_live_row latest row_id) (tx_write_set tx) of
                Some row_id \<Rightarrow> (Inl (TxnConflict [row_id]), eg)
              | None \<Rightarrow>
                  (case checked_add latest_version 1 of
                     None \<Rightarrow> (Inl ManifestOverflow, eg)
                   | Some new_version \<Rightarrow>
                       (case check_segment_dimension latest new_segment of
                          Inl e \<Rightarrow> (Inl e, eg)
                        | Inr _ \<Rightarrow> publish_candidate env alive tx ts new_files new_segment new_version eg))))"

section \<open>Begin and commit\<close>

definition record_event ::
  "operational_event_kind \<Rightarrow> operational_event_outcome \<Rightarrow> 's engine \<Rightarrow> 's engine" where
  "record_event kind outcome eg = eg\<lparr> eg_events := event_record kind outcome (eg_events eg) \<rparr>"

definition dataset_begin :: "'s engine \<Rightarrow> transaction \<times> 's engine" where
  "dataset_begin eg = (begin_at (eg_current eg), record_event TransactionBegan EvSucceeded eg)"

definition commit_inner ::
  "'s engine_env \<Rightarrow> (nat \<Rightarrow> bool) \<Rightarrow> int \<Rightarrow> transaction \<Rightarrow> 's engine \<Rightarrow> ((txn_error, unit) result \<times> 's engine) option" where
  "commit_inner env alive now tx eg =
     (case issue_timestamp now eg of
        (Inl e, eg1) \<Rightarrow> Some (Inl e, eg1)
      | (Inr ts, eg1) \<Rightarrow>
          (case write_phase env tx ts eg1 of
             None \<Rightarrow> None
           | Some (Inl e, eg2) \<Rightarrow> Some (Inl e, eg2)
           | Some (Inr (new_files, new_segment), eg2) \<Rightarrow>
               Some (critical_section env alive tx ts new_files new_segment eg2)))"

definition finish_commit :: "(txn_error, unit) result \<Rightarrow> 's engine \<Rightarrow> 's engine" where
  "finish_commit r eg =
     (case r of
        Inr _ \<Rightarrow> record_event TransactionCommitted EvSucceeded eg
      | Inl (TxnConflict _) \<Rightarrow> record_event TransactionConflict EvConflict eg
      | Inl (TxnInsufficientHistory _ _ _) \<Rightarrow> record_event TransactionConflict EvConflict eg
      | Inl _ \<Rightarrow> record_event TransactionFailed EvFailed eg)"

definition commit ::
  "'s engine_env \<Rightarrow> (nat \<Rightarrow> bool) \<Rightarrow> int \<Rightarrow> transaction \<Rightarrow> 's engine \<Rightarrow> ((txn_error, unit) result \<times> 's engine) option" where
  "commit env alive now tx eg =
     map_option (\<lambda>(r, eg'). (r, finish_commit r eg')) (commit_inner env alive now tx eg)"

end
