(* ===== verification/Isolation.thy ===== *)
theory Isolation
  imports Commit
begin

text \<open>
  The commits of one open dataset, interleaved: a step relation over the shared engine and the
  transactions in flight, its invariant, and the refinement of first-committer-wins snapshot
  isolation over the rows that snapshots show.

  A commit runs in four parts that other threads can run between: the timestamp, the reservation
  of an attempt number and of row ids, the writing of the files, and the critical section under
  the commit lock.  Files of different attempts have different names, so the writes of a commit
  are one step.
\<close>

section \<open>Steps\<close>

datatype phase =
    Staging transaction
  | Stamped transaction int
  | Reserved transaction int "nat \<times> row_id_range"
  | Prepared transaction int "(nat \<times> row_id_range) option" "data_file_entry list" "published_segment option"
  | Finished "(txn_error, unit) result"

text \<open>The snapshots published since the dataset was opened, oldest first, and the write sets of the
  commits between them are kept for the statements only.\<close>

record 's system =
  sy_engine :: "'s engine"
  sy_phase :: "nat \<rightharpoonup> phase"
  sy_snapshots :: "snapshot list"
  sy_writes :: "nat list list"

definition advance :: "nat \<Rightarrow> phase \<Rightarrow> 's engine \<Rightarrow> 's system \<Rightarrow> 's system" where
  "advance i p eg sy = sy\<lparr> sy_engine := eg, sy_phase := (sy_phase sy)(i \<mapsto> p) \<rparr>"

definition published :: "(txn_error, unit) result \<Rightarrow> bool" where
  "published r = (case r of Inr _ \<Rightarrow> True | Inl (IndeterminateManifestPublication _ _) \<Rightarrow> True | Inl _ \<Rightarrow> False)"

fun wf_op :: "staged_op \<Rightarrow> bool" where
  "wf_op (StageInsert b) = wf_batch b"
| "wf_op (StageDelete row_id) = True"
| "wf_op (StageUpdate row_id b) = wf_batch b"

inductive step :: "'s engine_env \<Rightarrow> 's system \<Rightarrow> 's system \<Rightarrow> bool" for env where
  begins:
    "sy_phase sy i = None \<Longrightarrow> dataset_begin (sy_engine sy) = (tx, eg) \<Longrightarrow>
     step env sy (advance i (Staging tx) eg sy)"
| stages:
    "sy_phase sy i = Some (Staging tx) \<Longrightarrow> wf_op oper \<Longrightarrow> stage oper tx = (r, tx') \<Longrightarrow>
     step env sy (advance i (Staging tx') (sy_engine sy) sy)"
| stamps:
    "sy_phase sy i = Some (Staging tx) \<Longrightarrow> issue_timestamp now (sy_engine sy) = (Inr ts, eg) \<Longrightarrow>
     step env sy (advance i (Stamped tx ts) eg sy)"
| clock_fails:
    "sy_phase sy i = Some (Staging tx) \<Longrightarrow> issue_timestamp now (sy_engine sy) = (Inl e, eg) \<Longrightarrow>
     step env sy (advance i (Finished (Inl e)) (finish_commit (Inl e) eg) sy)"
| writes_nothing:
    "sy_phase sy i = Some (Stamped tx ts) \<Longrightarrow> tx_pending tx = [] \<Longrightarrow>
     step env sy (advance i (Prepared tx ts None [] None) (sy_engine sy) sy)"
| reserves:
    "sy_phase sy i = Some (Stamped tx ts) \<Longrightarrow> tx_pending tx \<noteq> [] \<Longrightarrow> eg_attempts (sy_engine sy) < u64_max \<Longrightarrow>
     reserve_phase env tx (sy_engine sy) = Some (Inr res, eg) \<Longrightarrow>
     step env sy (advance i (Reserved tx ts res) eg sy)"
| reservation_fails:
    "sy_phase sy i = Some (Stamped tx ts) \<Longrightarrow> tx_pending tx \<noteq> [] \<Longrightarrow> eg_attempts (sy_engine sy) < u64_max \<Longrightarrow>
     reserve_phase env tx (sy_engine sy) = Some (Inl e, eg) \<Longrightarrow>
     step env sy (advance i (Finished (Inl e)) (finish_commit (Inl e) eg) sy)"
| fills:
    "sy_phase sy i = Some (Reserved tx ts res) \<Longrightarrow> fill_phase env tx ts res (sy_engine sy) = (Inr (new_files, seg), eg) \<Longrightarrow>
     step env sy (advance i (Prepared tx ts (Some res) new_files seg) eg sy)"
| filling_fails:
    "sy_phase sy i = Some (Reserved tx ts res) \<Longrightarrow> fill_phase env tx ts res (sy_engine sy) = (Inl e, eg) \<Longrightarrow>
     step env sy (advance i (Finished (Inl e)) (finish_commit (Inl e) eg) sy)"
| publishes:
    "sy_phase sy i = Some (Prepared tx ts res new_files seg) \<Longrightarrow>
     critical_section env alive tx ts new_files seg (sy_engine sy) = (r, eg) \<Longrightarrow> published r \<Longrightarrow>
     step env sy ((advance i (Finished r) (finish_commit r eg) sy)\<lparr>
       sy_snapshots := sy_snapshots sy @ [eg_current eg], sy_writes := sy_writes sy @ [tx_write_set tx] \<rparr>)"
| rejects:
    "sy_phase sy i = Some (Prepared tx ts res new_files seg) \<Longrightarrow>
     critical_section env alive tx ts new_files seg (sy_engine sy) = (r, eg) \<Longrightarrow> \<not> published r \<Longrightarrow>
     step env sy (advance i (Finished r) (finish_commit r eg) sy)"

text \<open>A commit that nothing interrupts is a run of these steps.\<close>

definition runs_to :: "'s engine_env \<Rightarrow> 's system \<Rightarrow> nat \<Rightarrow> (txn_error, unit) result \<Rightarrow> 's engine \<Rightarrow> bool" where
  "runs_to env sy i r eg \<longleftrightarrow>
     (\<exists>sy'. (step env)\<^sup>*\<^sup>* sy sy' \<and> sy_engine sy' = eg \<and> sy_phase sy' i = Some (Finished r) \<and>
        (\<forall>j. j \<noteq> i \<longrightarrow> sy_phase sy' j = sy_phase sy j))"

lemma advance_simps [simp]:
  "sy_engine (advance i p eg sy) = eg" "sy_phase (advance i p eg sy) = (sy_phase sy)(i \<mapsto> p)"
  "sy_snapshots (advance i p eg sy) = sy_snapshots sy" "sy_writes (advance i p eg sy) = sy_writes sy"
  by (simp_all add: advance_def)

lemma runs_to_advance:
  assumes "step env sy (advance i p eg1 sy)" "runs_to env (advance i p eg1 sy) i r eg"
  shows "runs_to env sy i r eg"
proof -
  obtain sy' where "(step env)\<^sup>*\<^sup>* (advance i p eg1 sy) sy'" "sy_engine sy' = eg" "sy_phase sy' i = Some (Finished r)"
      "\<forall>j. j \<noteq> i \<longrightarrow> sy_phase sy' j = sy_phase sy j"
    using assms(2) by (auto simp: runs_to_def)
  then show ?thesis using converse_rtranclp_into_rtranclp [of "step env", OF assms(1)] by (auto simp: runs_to_def)
qed

lemma runs_to_end:
  "step env sy sy' \<Longrightarrow> sy_engine sy' = eg \<Longrightarrow> sy_phase sy' = (sy_phase sy)(i \<mapsto> Finished r) \<Longrightarrow> runs_to env sy i r eg"
  unfolding runs_to_def by (intro exI [of _ sy']) auto

lemma prepared_runs_to:
  assumes "sy_phase sy i = Some (Prepared tx ts res new_files seg)"
    and "critical_section env alive tx ts new_files seg (sy_engine sy) = (r, eg)"
  shows "runs_to env sy i r (finish_commit r eg)"
  using publishes [OF assms] rejects [OF assms] by (cases "published r") (auto intro: runs_to_end)

lemma reserved_runs_to:
  assumes "sy_phase sy i = Some (Reserved tx ts res)" "fill_phase env tx ts res (sy_engine sy) = (rf, egf)"
    and "(case rf of Inl e \<Rightarrow> (Inl e, egf) | Inr (new_files, seg) \<Rightarrow> critical_section env alive tx ts new_files seg egf) = (r, eg)"
  shows "runs_to env sy i r (finish_commit r eg)"
proof (cases rf)
  case (Inl e)
  then show ?thesis using filling_fails [OF assms(1), of env e egf] assms(2,3) by (auto intro: runs_to_end)
next
  case (Inr out)
  then obtain new_files seg where out: "rf = Inr (new_files, seg)" by (metis surj_pair)
  then have s: "step env sy (advance i (Prepared tx ts (Some res) new_files seg) egf sy)"
    using fills [OF assms(1)] assms(2) by blast
  show ?thesis by (rule runs_to_advance [OF s], rule prepared_runs_to) (use assms(3) out in auto)
qed

lemma stamped_runs_to:
  assumes st: "sy_phase sy i = Some (Stamped tx ts)" "eg_attempts (sy_engine sy) < u64_max"
    and w: "write_phase env tx ts (sy_engine sy) = Some (rw, egw)"
    and c: "(case rw of Inl e \<Rightarrow> (Inl e, egw) | Inr (new_files, seg) \<Rightarrow> critical_section env alive tx ts new_files seg egw) = (r, eg)"
  shows "runs_to env sy i r (finish_commit r eg)"
proof (cases "tx_pending tx = []")
  case True
  show ?thesis
    by (rule runs_to_advance [OF writes_nothing [OF st(1) True]], rule prepared_runs_to)
      (use w c True in \<open>auto simp: write_phase_def\<close>)
next
  case False
  obtain rr eg2 where rp: "reserve_phase env tx (sy_engine sy) = Some (rr, eg2)"
    using w False by (auto simp: write_phase_def split: option.splits)
  show ?thesis
  proof (cases rr)
    case (Inl e)
    then show ?thesis
      using reservation_fails [OF st(1) False st(2), of env e eg2] w c False rp
      by (auto simp: write_phase_def intro: runs_to_end)
  next
    case (Inr res)
    obtain rf egf where fl: "fill_phase env tx ts res eg2 = (rf, egf)" by fastforce
    then have "rw = rf" "egw = egf" using w False rp Inr by (auto simp: write_phase_def)
    then show ?thesis
      by (intro runs_to_advance [OF reserves [OF st(1) False st(2) rp [unfolded Inr]]] reserved_runs_to)
        (use fl c in auto)
  qed
qed

lemma commit_runs:
  assumes st: "sy_phase sy i = Some (Staging tx)" "eg_attempts (sy_engine sy) < u64_max"
    and c: "commit env alive now tx (sy_engine sy) = Some (r, eg)"
  shows "runs_to env sy i r eg"
proof -
  obtain eg3 where ci: "commit_inner env alive now tx (sy_engine sy) = Some (r, eg3)" "eg = finish_commit r eg3"
    using c by (auto simp: commit_def)
  obtain r1 eg1 where ts: "issue_timestamp now (sy_engine sy) = (r1, eg1)" by fastforce
  show ?thesis
  proof (cases r1)
    case (Inl e)
    then show ?thesis
      using clock_fails [OF st(1), of now e eg1 env] ts ci by (auto simp: commit_inner_def intro: runs_to_end)
  next
    case (Inr stamp)
    have "eg_attempts eg1 = eg_attempts (sy_engine sy)"
      using ts by (auto simp: issue_timestamp_def Let_def split: if_splits)
    moreover obtain rw egw where w: "write_phase env tx stamp eg1 = Some (rw, egw)"
      using ci(1) ts Inr by (auto simp: commit_inner_def split: option.splits)
    ultimately show ?thesis
      unfolding ci(2)
      by (intro runs_to_advance [OF stamps [OF st(1) ts [unfolded Inr]]] stamped_runs_to [where rw = rw and egw = egw])
        (use ci(1) ts Inr st(2) in \<open>auto simp: commit_inner_def split: sum.splits\<close>)
  qed
qed

section \<open>The invariant\<close>

text \<open>The objects a manifest names.\<close>

definition manifest_keys :: "manifest \<Rightarrow> string set" where
  "manifest_keys m = (\<lambda>f. ''data/'' @ df_name f) ` set (mf_data_files m) \<union> (\<lambda>e. ''data/'' @ sg_name e) ` set (mf_segments m)"

text \<open>A published snapshot over the objects of the store: every check of an open passes on its
  files and segments, the loaded segments are the snapshot's, and the numbers it uses are below
  the engine's counters.\<close>

definition snapshot_ok :: "(string \<Rightarrow> bytes option) \<Rightarrow> 's engine_env \<Rightarrow> nat \<Rightarrow> nat \<Rightarrow> snapshot \<Rightarrow> bool" where
  "snapshot_ok objects env next_row_id attempts sn \<longleftrightarrow>
     (let m = sn_manifest sn; crc = cd_crc (en_codecs env) in
      mf_version m = sn_version sn \<and>
      files_ok objects (en_arrow env) crc (sn_schema sn) (mf_data_files m) \<and>
      (\<forall>f\<in>set (mf_data_files m). map fst (file_rows objects (en_arrow env) f) = entry_ids f) \<and>
      segments_loaded objects crc (rows_owned (mf_data_files m)) (mf_segments m) (sn_index sn) \<and>
      (\<forall>e\<in>set (mf_segments m). 0 < sg_dimension e) \<and>
      sn_tombstones sn = set (mf_tombstones m) \<and> distinct (mf_tombstones m) \<and>
      sn_tombstones sn \<subseteq> rows_owned (mf_data_files m) \<and>
      (\<forall>k\<in>manifest_keys m. \<not> temporary k) \<and>
      rows_owned (mf_data_files m) \<subseteq> {..<next_row_id} \<and>
      (\<forall>k\<in>manifest_keys m. \<forall>a. is_u64 a \<longrightarrow> k \<in> attempt_keys a \<longrightarrow> a < attempts))"

text \<open>Every published snapshot is an older state of the current one.\<close>

definition older :: "snapshot \<Rightarrow> snapshot \<Rightarrow> bool" where
  "older sn cur \<longleftrightarrow> sn_schema sn = sn_schema cur \<and>
     schema_version (sn_manifest sn) = schema_version (sn_manifest cur) \<and>
     set (mf_data_files (sn_manifest sn)) \<subseteq> set (mf_data_files (sn_manifest cur))"

text \<open>A reservation in flight: its attempt and rows are not yet used by the current snapshot.\<close>

definition reservation_ok :: "'s engine \<Rightarrow> transaction \<Rightarrow> nat \<times> row_id_range \<Rightarrow> bool" where
  "reservation_ok eg tx res \<longleftrightarrow>
     (let m = sn_manifest (eg_current eg) in
      is_u64 (fst res) \<and> fst res < eg_attempts eg \<and> range_end (snd res) \<le> eg_next_row_id eg \<and>
      len (snd res) = row_total (tx_pending tx) \<and>
      manifest_keys m \<inter> attempt_keys (fst res) = {} \<and>
      rows_owned (mf_data_files m) \<inter> {base (snd res)..<range_end (snd res)} = {} \<and>
      (\<forall>b\<in>set (tx_pending tx). no_hidden (rb_schema b)))"

definition prepared_ok ::
  "(string \<Rightarrow> bytes option) \<Rightarrow> 's engine_env \<Rightarrow> transaction \<Rightarrow> int \<Rightarrow> (nat \<times> row_id_range) option \<Rightarrow> data_file_entry list
   \<Rightarrow> published_segment option \<Rightarrow> bool" where
  "prepared_ok objects env tx ts res new_files seg =
     (case res of
        None \<Rightarrow> tx_pending tx = [] \<and> new_files = [] \<and> seg = None
      | Some (a, claimed) \<Rightarrow>
          map df_name new_files = map (data_file_name a) [0..<length (tx_pending tx)] \<and>
          written_all objects env ts new_files (base claimed) (tx_pending tx) \<and>
          (\<forall>ps. seg = Some ps \<longrightarrow>
             segment_written objects (cd_crc (en_codecs env)) a {base claimed..<range_end claimed} ps \<and>
             sg_zone_map (ps_entry ps) =
               merge_all [] 0 (map (\<lambda>b. batch_stats (en_kernels env) b ts) (tx_pending tx))))"

text \<open>A transaction in flight, with the published snapshot it started from.\<close>

definition txn_ok :: "'s system \<Rightarrow> transaction \<Rightarrow> bool" where
  "txn_ok sy tx \<longleftrightarrow> staged_ok tx \<and> (\<forall>b\<in>set (tx_pending tx). wf_batch b) \<and>
     (\<exists>j<length (sy_snapshots sy). tx_base_snapshot tx = sy_snapshots sy ! j)"

fun reservation :: "phase \<Rightarrow> (nat \<times> row_id_range) option" where
  "reservation (Reserved tx ts res) = Some res"
| "reservation (Prepared tx ts res new_files seg) = res"
| "reservation p = None"

fun phase_txn :: "phase \<Rightarrow> transaction option" where
  "phase_txn (Staging tx) = Some tx"
| "phase_txn (Stamped tx ts) = Some tx"
| "phase_txn (Reserved tx ts res) = Some tx"
| "phase_txn (Prepared tx ts res new_files seg) = Some tx"
| "phase_txn (Finished r) = None"

definition phase_ok :: "('s \<Rightarrow> string \<Rightarrow> bytes option) \<Rightarrow> 's engine_env \<Rightarrow> 's system \<Rightarrow> phase \<Rightarrow> bool" where
  "phase_ok content env sy p \<longleftrightarrow>
     (\<forall>tx. phase_txn p = Some tx \<longrightarrow> txn_ok sy tx \<and>
        (\<forall>res. reservation p = Some res \<longrightarrow> reservation_ok (sy_engine sy) tx res)) \<and>
     (\<forall>tx ts res new_files seg. p = Prepared tx ts res new_files seg \<longrightarrow>
        prepared_ok (content (eg_store (sy_engine sy))) env tx ts res new_files seg)"

definition reservations_disjoint :: "(nat \<rightharpoonup> phase) \<Rightarrow> bool" where
  "reservations_disjoint ph \<longleftrightarrow>
     (\<forall>i j p q x y. i \<noteq> j \<longrightarrow> ph i = Some p \<longrightarrow> ph j = Some q \<longrightarrow> reservation p = Some x \<longrightarrow> reservation q = Some y \<longrightarrow>
        fst x \<noteq> fst y \<and> {base (snd x)..<range_end (snd x)} \<inter> {base (snd y)..<range_end (snd y)} = {})"

definition sys_inv ::
  "('s \<Rightarrow> string \<Rightarrow> bytes option) \<Rightarrow> ('s \<Rightarrow> bool) \<Rightarrow> 's engine_env \<Rightarrow> 's system \<Rightarrow> bool" where
  "sys_inv content good env sy \<longleftrightarrow>
     (let eg = sy_engine sy; v = sn_version (hd (sy_snapshots sy)) in
      good (eg_store eg) \<and> is_u64 (eg_next_row_id eg) \<and> is_u64 (eg_attempts eg) \<and>
      length (sy_snapshots sy) = length (sy_writes sy) + 1 \<and> last (sy_snapshots sy) = eg_current eg \<and>
      (\<forall>j<length (sy_snapshots sy). sn_version (sy_snapshots sy ! j) = v + j \<and> older (sy_snapshots sy ! j) (eg_current eg)) \<and>
      log_of v (sy_writes sy) (eg_log eg) \<and>
      snapshot_ok (content (eg_store eg)) env (eg_next_row_id eg) (eg_attempts eg) (eg_current eg) \<and>
      (\<forall>i p. sy_phase sy i = Some p \<longrightarrow> phase_ok content env sy p) \<and>
      reservations_disjoint (sy_phase sy))"

section \<open>What a step keeps\<close>

lemma snapshot_ok_cong:
  assumes "snapshot_ok s env n a sn" "\<forall>k\<in>manifest_keys (sn_manifest sn). t k = s k" "n \<le> n'" "a \<le> a'"
  shows "snapshot_ok t env n' a' sn"
proof -
  let ?m = "sn_manifest sn" and ?crc = "cd_crc (en_codecs env)"
  have f: "t (''data/'' @ df_name f) = s (''data/'' @ df_name f)" if "f \<in> set (mf_data_files ?m)" for f
    using assms(2) that by (simp add: manifest_keys_def)
  have g: "t (''data/'' @ sg_name e) = s (''data/'' @ sg_name e)" if "e \<in> set (mf_segments ?m)" for e
    using assms(2) that by (simp add: manifest_keys_def)
  have 1: "files_ok t (en_arrow env) ?crc (sn_schema sn) (mf_data_files ?m) = files_ok s (en_arrow env) ?crc (sn_schema sn) (mf_data_files ?m)"
    unfolding files_ok_def list_all_iff using file_ok_cong [of t _ s, OF f] by blast
  have 2: "\<forall>f\<in>set (mf_data_files ?m). file_rows t (en_arrow env) f = file_rows s (en_arrow env) f"
    using file_rows_cong [of t _ s, OF f] by blast
  have "list_all2 (segment_loaded t ?crc own) (mf_segments ?m) (sn_index sn)"
    if "list_all2 (segment_loaded s ?crc own) (mf_segments ?m) (sn_index sn)" for own
    by (rule list.rel_mono_strong [OF that]) (use segment_loaded_cong [of t _ s, OF g] in blast)
  then have 3: "segments_loaded s ?crc own (mf_segments ?m) (sn_index sn) \<Longrightarrow> segments_loaded t ?crc own (mf_segments ?m) (sn_index sn)" for own
    unfolding segments_loaded_def by blast
  show ?thesis
    using assms(1,3,4) 1 2 3 unfolding snapshot_ok_def Let_def by auto (meson order_less_le_trans)+
qed

lemma prepared_ok_cong:
  assumes "prepared_ok s env tx ts res new_files seg"
    and "\<forall>x. res = Some x \<longrightarrow> (\<forall>k\<in>attempt_keys (fst x). \<not> temporary k \<longrightarrow> t k = s k)"
  shows "prepared_ok t env tx ts res new_files seg"
proof (cases res)
  case None
  then show ?thesis using assms(1) by (simp add: prepared_ok_def)
next
  case (Some x)
  obtain a claimed where x: "x = (a, claimed)" by fastforce
  note p = assms(1) [unfolded prepared_ok_def Some x option.case prod.case]
  have key: "t (''data/'' @ data_file_name a i) = s (''data/'' @ data_file_name a i)"
      "t (''data/'' @ segment_file_name a) = s (''data/'' @ segment_file_name a)" for i
    using assms(2) Some x attempt_names attempt_name_ok by auto
  have "\<forall>f\<in>set new_files. \<exists>i. df_name f = data_file_name a i"
  proof
    fix f assume "f \<in> set new_files"
    then have "df_name f \<in> set (map df_name new_files)" by simp
    then show "\<exists>i. df_name f = data_file_name a i" using p by auto
  qed
  then have "\<forall>f\<in>set new_files. t (''data/'' @ df_name f) = s (''data/'' @ df_name f)" using key(1) by fastforce
  then have w: "written_all t env ts new_files (base claimed) (tx_pending tx)" using p written_all_cong by blast
  have "segment_written t (cd_crc (en_codecs env)) a own ps"
    if "segment_written s (cd_crc (en_codecs env)) a own ps" for own ps
  proof -
    have "sg_name (ps_entry ps) = segment_file_name a" using that by (simp add: segment_written_def)
    then have "segment_loaded t crc more (ps_entry ps) part = segment_loaded s crc more (ps_entry ps) part" for crc more part
      by (intro segment_loaded_cong) (simp only: key(2))
    then show ?thesis using that by (simp add: segment_written_def)
  qed
  then show ?thesis unfolding prepared_ok_def Some x option.case prod.case using p w by blast
qed

text \<open>What happened elsewhere does not disturb a transaction in flight, as long as the store keeps
  the objects of its attempt and the current snapshot still leaves its reservation alone.\<close>

lemma phase_ok_transport:
  assumes p: "phase_ok content env sy p"
    and snaps: "prefix (sy_snapshots sy) (sy_snapshots sy')"
    and mono: "eg_attempts (sy_engine sy) \<le> eg_attempts (sy_engine sy')" "eg_next_row_id (sy_engine sy) \<le> eg_next_row_id (sy_engine sy')"
    and objs: "\<And>x k. reservation p = Some x \<Longrightarrow> k \<in> attempt_keys (fst x) \<Longrightarrow> \<not> temporary k \<Longrightarrow>
      content (eg_store (sy_engine sy')) k = content (eg_store (sy_engine sy)) k"
    and cur: "\<And>x. reservation p = Some x \<Longrightarrow>
      manifest_keys (sn_manifest (eg_current (sy_engine sy'))) \<inter> attempt_keys (fst x) = {} \<and>
      rows_owned (mf_data_files (sn_manifest (eg_current (sy_engine sy')))) \<inter> {base (snd x)..<range_end (snd x)} = {}"
  shows "phase_ok content env sy' p"
proof -
  have "txn_ok sy' tx" if "txn_ok sy tx" for tx
    using that snaps unfolding txn_ok_def prefix_def by (metis length_append nth_append trans_less_add1)
  moreover have "reservation_ok (sy_engine sy') tx x" if "reservation p = Some x" "reservation_ok (sy_engine sy) tx x" for tx x
    using that(2) mono cur [OF that(1)] unfolding reservation_ok_def Let_def by linarith
  moreover have "prepared_ok (content (eg_store (sy_engine sy'))) env tx ts res new_files seg"
    if "p = Prepared tx ts res new_files seg" "prepared_ok (content (eg_store (sy_engine sy))) env tx ts res new_files seg"
    for tx ts res new_files seg
    by (rule prepared_ok_cong [OF that(2)]) (use objs that(1) in auto)
  ultimately show ?thesis using p unfolding phase_ok_def by blast
qed

lemma data_key_not_catalog:
  assumes "k = ''data/'' @ x"
  shows "k \<noteq> manifest_object_key v" "k \<noteq> record_key n"
  using assms by (auto simp: manifest_object_key_def record_key_def ROW_ID_HIGH_WATER_PREFIX_def)

lemma reservations_disjoint_update:
  assumes "reservations_disjoint ph"
    and "\<And>x j q y. reservation p = Some x \<Longrightarrow> j \<noteq> i \<Longrightarrow> ph j = Some q \<Longrightarrow> reservation q = Some y \<Longrightarrow>
      fst x \<noteq> fst y \<and> {base (snd x)..<range_end (snd x)} \<inter> {base (snd y)..<range_end (snd y)} = {}"
  shows "reservations_disjoint (ph(i \<mapsto> p))"
  unfolding reservations_disjoint_def
proof (intro allI impI)
  fix j j' q q' x y
  assume *: "j \<noteq> j'" "(ph(i \<mapsto> p)) j = Some q" "(ph(i \<mapsto> p)) j' = Some q'" "reservation q = Some x" "reservation q' = Some y"
  consider "j = i" "j' \<noteq> i" | "j \<noteq> i" "j' = i" | "j \<noteq> i" "j' \<noteq> i" using *(1) by blast
  then show "fst x \<noteq> fst y \<and> {base (snd x)..<range_end (snd x)} \<inter> {base (snd y)..<range_end (snd y)} = {}"
  proof cases
    case 1
    then show ?thesis using * assms(2) [of x j' q' y] by simp
  next
    case 2
    then show ?thesis using * assms(2) [of y j q x] by (simp add: Int_commute)
  next
    case 3
    then show ?thesis using * assms(1) [unfolded reservations_disjoint_def, rule_format, of j j' q q' x y] by simp
  qed
qed

lemma sys_inv_frame:
  assumes inv: "sys_inv content good env sy"
    and cur: "eg_current eg = eg_current (sy_engine sy)" "eg_log eg = eg_log (sy_engine sy)"
    and cnt: "is_u64 (eg_next_row_id eg)" "is_u64 (eg_attempts eg)"
      "eg_next_row_id (sy_engine sy) \<le> eg_next_row_id eg" "eg_attempts (sy_engine sy) \<le> eg_attempts eg"
    and st: "keeps content good touched (eg_store (sy_engine sy)) (eg_store eg)"
    and cat: "touched \<inter> manifest_keys (sn_manifest (eg_current (sy_engine sy))) = {}"
    and oth: "\<And>j q x. j \<noteq> i \<Longrightarrow> sy_phase sy j = Some q \<Longrightarrow> reservation q = Some x \<Longrightarrow> touched \<inter> attempt_keys (fst x) = {}"
    and p: "phase_ok content env (advance i p eg sy) p"
    and res: "\<And>x j q y. reservation p = Some x \<Longrightarrow> j \<noteq> i \<Longrightarrow> sy_phase sy j = Some q \<Longrightarrow> reservation q = Some y \<Longrightarrow>
      fst x \<noteq> fst y \<and> {base (snd x)..<range_end (snd x)} \<inter> {base (snd y)..<range_end (snd y)} = {}"
  shows "sys_inv content good env (advance i p eg sy)"
proof -
  let ?eg = "sy_engine sy" and ?sy = "advance i p eg sy"
  note I = inv [unfolded sys_inv_def Let_def]
  have keep: "content (eg_store eg) k = content (eg_store ?eg) k" if "\<not> temporary k" "k \<notin> touched" for k
    using keepsD [OF st that] .
  have snap: "snapshot_ok (content (eg_store eg)) env (eg_next_row_id eg) (eg_attempts eg) (eg_current eg)"
    unfolding cur
  proof (rule snapshot_ok_cong [of "content (eg_store ?eg)" _ "eg_next_row_id ?eg" "eg_attempts ?eg"])
    show so: "snapshot_ok (content (eg_store ?eg)) env (eg_next_row_id ?eg) (eg_attempts ?eg) (eg_current ?eg)" using I by blast
    then show "\<forall>k\<in>manifest_keys (sn_manifest (eg_current ?eg)). content (eg_store eg) k = content (eg_store ?eg) k"
      using keep cat unfolding snapshot_ok_def Let_def by blast
  qed (use cnt in simp_all)
  have phases: "phase_ok content env ?sy q" if q: "sy_phase ?sy j = Some q" for j q
  proof (cases "j = i")
    case True
    then show ?thesis using q p by simp
  next
    case False
    then have qj: "sy_phase sy j = Some q" using q by simp
    then have po: "phase_ok content env sy q" using I by blast
    have ro: "\<exists>tx. reservation_ok ?eg tx x" if rx: "reservation q = Some x" for x
    proof -
      obtain tx where "phase_txn q = Some tx" using rx by (cases q) auto
      then show ?thesis using po rx unfolding phase_ok_def by blast
    qed
    show ?thesis
    proof (rule phase_ok_transport [OF po])
      fix x k assume "reservation q = Some x" "k \<in> attempt_keys (fst x)" "\<not> temporary k"
      then show "content (eg_store (sy_engine ?sy)) k = content (eg_store ?eg) k" using keep oth [OF False qj] by auto
    next
      fix x assume "reservation q = Some x"
      then show "manifest_keys (sn_manifest (eg_current (sy_engine ?sy))) \<inter> attempt_keys (fst x) = {} \<and>
          rows_owned (mf_data_files (sn_manifest (eg_current (sy_engine ?sy)))) \<inter> {base (snd x)..<range_end (snd x)} = {}"
        using ro cur(1) unfolding reservation_ok_def Let_def by auto
    qed (use cnt in simp_all)
  qed
  have "reservations_disjoint (sy_phase ?sy)"
    using reservations_disjoint_update [OF _ res, of "sy_phase sy"] I by simp
  then show ?thesis
    unfolding sys_inv_def Let_def using I snap phases cur cnt keeps_good [OF st] by simp
qed

section \<open>Publishing a candidate\<close>

lemma append_tombstones_set: "fst (append_tombstones pending tombs persisted) = tombs \<union> set pending"
  by (induction pending arbitrary: tombs persisted) simp_all

lemma append_tombstones_persisted:
  "distinct persisted \<Longrightarrow> distinct (snd (append_tombstones pending (set persisted) persisted)) \<and>
   set (snd (append_tombstones pending (set persisted) persisted)) = set persisted \<union> set pending"
proof (induction pending arbitrary: persisted)
  case (Cons row_id pending)
  show ?case
  proof (cases "row_id \<in> set persisted")
    case True
    then show ?thesis using Cons.IH [OF Cons.prems] by (auto simp: insert_absorb)
  next
    case False
    then show ?thesis using Cons.IH [of "persisted @ [row_id]"] Cons.prems by simp
  qed
qed simp

definition res_rows :: "(nat \<times> row_id_range) option \<Rightarrow> nat set" where
  "res_rows res = (case res of None \<Rightarrow> {} | Some (a, claimed) \<Rightarrow> {base claimed..<range_end claimed})"

definition res_keys :: "(nat \<times> row_id_range) option \<Rightarrow> string set" where
  "res_keys res = (case res of None \<Rightarrow> {} | Some (a, claimed) \<Rightarrow> attempt_keys a)"

definition res_base :: "(nat \<times> row_id_range) option \<Rightarrow> nat" where
  "res_base res = (case res of None \<Rightarrow> 0 | Some (a, claimed) \<Rightarrow> base claimed)"

lemma enumerated_ids: "map fst (enumerated n b) = [n..<n + rb_num_rows b]"
  by (rule nth_equalityI) (simp_all add: enumerated_def)

lemma enumerated_from_ids: "map fst (enumerated_from n bs) = [n..<n + row_total bs]"
proof (induction bs arbitrary: n)
  case (Cons b bs)
  show ?case
    using upt_add_eq_append [of n "n + rb_num_rows b" "row_total bs"] Cons.IH [of "n + rb_num_rows b"]
    by (simp add: enumerated_ids add.assoc)
qed simp

lemma written_all_rows:
  "written_all objects env ts fs n bs \<Longrightarrow> f \<in> set fs \<Longrightarrow> map fst (file_rows objects (en_arrow env) f) = entry_ids f"
  by (induction objects env ts fs n bs rule: written_all.induct) (auto simp: written_def enumerated_ids)

lemma prepared_files:
  assumes p: "prepared_ok objects env tx ts res new_files seg"
    and len: "\<forall>x. res = Some x \<longrightarrow> len (snd x) = row_total (tx_pending tx)"
    and sch: "\<forall>b\<in>set (tx_pending tx). rb_schema b = sch"
  shows "list_all (file_ok objects (en_arrow env) (cd_crc (en_codecs env)) sch) new_files"
    "distinct (map df_name new_files)" "\<forall>f\<in>set new_files. ''data/'' @ df_name f \<in> res_keys res \<and> \<not> temporary (''data/'' @ df_name f)"
    "distinct (concat (map entry_ids new_files))" "rows_owned new_files = res_rows res"
    "concat (map (file_rows objects (en_arrow env)) new_files) = enumerated_from (res_base res) (tx_pending tx)"
    "\<forall>f\<in>set new_files. map fst (file_rows objects (en_arrow env) f) = entry_ids f"
proof -
  have "list_all (file_ok objects (en_arrow env) (cd_crc (en_codecs env)) sch) new_files \<and>
    distinct (map df_name new_files) \<and>
    (\<forall>f\<in>set new_files. ''data/'' @ df_name f \<in> res_keys res \<and> \<not> temporary (''data/'' @ df_name f)) \<and>
    distinct (concat (map entry_ids new_files)) \<and> rows_owned new_files = res_rows res \<and>
    concat (map (file_rows objects (en_arrow env)) new_files) = enumerated_from (res_base res) (tx_pending tx) \<and>
    (\<forall>f\<in>set new_files. map fst (file_rows objects (en_arrow env) f) = entry_ids f)"
  proof (cases res)
    case None
    then show ?thesis using p by (simp add: prepared_ok_def rows_owned_def res_rows_def)
  next
    case (Some x)
    obtain a c where x: "x = (a, c)" by fastforce
    note q = p [unfolded prepared_ok_def Some x option.case prod.case]
    note w = written_all_files [OF conjunct1 [OF conjunct2 [OF q]] sch]
    have "inj_on (data_file_name a) A" for A by (auto simp: inj_on_def data_file_name_inject)
    then have "distinct (map df_name new_files)" using q by (simp add: distinct_map)
    moreover have "''data/'' @ df_name f \<in> attempt_keys a \<and> \<not> temporary (''data/'' @ df_name f)" if "f \<in> set new_files" for f
    proof -
      have "df_name f \<in> set (map df_name new_files)" using that by simp
      then obtain i where "df_name f = data_file_name a i" using q by auto
      then show ?thesis using attempt_names(1) attempt_name_ok(2) by simp
    qed
    moreover have "range_end c = base c + row_total (tx_pending tx)" using len Some x by (simp add: range_end_def)
    ultimately show ?thesis
      using w q written_all_rows [of objects env ts new_files "base c" "tx_pending tx"]
      unfolding Some x by (simp add: res_rows_def res_keys_def res_base_def rows_owned_def)
  qed
  then show "list_all (file_ok objects (en_arrow env) (cd_crc (en_codecs env)) sch) new_files"
    "distinct (map df_name new_files)" "\<forall>f\<in>set new_files. ''data/'' @ df_name f \<in> res_keys res \<and> \<not> temporary (''data/'' @ df_name f)"
    "distinct (concat (map entry_ids new_files))" "rows_owned new_files = res_rows res"
    "concat (map (file_rows objects (en_arrow env)) new_files) = enumerated_from (res_base res) (tx_pending tx)"
    "\<forall>f\<in>set new_files. map fst (file_rows objects (en_arrow env) f) = entry_ids f" by simp_all
qed

lemma segment_loaded_facts:
  assumes "segment_loaded objects crc own e part"
  shows "part_dimension part = sg_dimension e" "set (part_rows part) \<subseteq> own"
    "own \<subseteq> own' \<Longrightarrow> segment_loaded objects crc own' e part"
proof -
  obtain b reader seen where b: "listed_name (sg_name e)" "objects (''data/'' @ sg_name e) = Some b"
      "part = Sealed reader (sg_zone_map e)" "check_segment crc e b None own {} = Inr (reader, seen)"
    using assms by (auto simp: segment_loaded_def)
  have c: "segment_from_bytes crc b = Inr reader" "sr_dim reader = sg_dimension e"
      "check_vector_rows (row_id_slice reader) own {} = Inr seen"
    using b(4) by (auto simp: check_segment_def bindE_Inr_iff)
  show "part_dimension part = sg_dimension e" using b(3) c(2) by simp
  show "set (part_rows part) \<subseteq> own" using b(3) check_vector_rows_subset [OF c(3)] by simp
  assume o: "own \<subseteq> own'"
  have "check_vector_rows ids own x = Inr y \<Longrightarrow> check_vector_rows ids own' x = Inr y" for ids x y
    using o by (induction ids arbitrary: x) (auto split: if_splits)
  then have "check_segment crc e b None own' {} = Inr (reader, seen)"
    using b(4) by (auto simp: check_segment_def bindE_Inr_iff)
  then show "segment_loaded objects crc own' e part" using b by (auto simp: segment_loaded_def)
qed

lemma segments_loaded_facts:
  assumes "list_all2 (segment_loaded objects crc own) es parts"
  shows "map part_dimension parts = map sg_dimension es" "set (concat (map part_rows parts)) \<subseteq> own"
    "own \<subseteq> own' \<Longrightarrow> list_all2 (segment_loaded objects crc own') es parts"
proof -
  show "map part_dimension parts = map sg_dimension es"
    using assms by (induction rule: list_all2_induct) (auto dest: segment_loaded_facts(1))
  show "set (concat (map part_rows parts)) \<subseteq> own"
    using assms by (induction rule: list_all2_induct) (auto dest: segment_loaded_facts(2))
  show "own \<subseteq> own' \<Longrightarrow> list_all2 (segment_loaded objects crc own') es parts"
    using list.rel_mono_strong [OF assms] segment_loaded_facts(3) by blast
qed

lemma segments_loaded_mono:
  "segments_loaded objects crc own es parts \<Longrightarrow> own \<subseteq> own' \<Longrightarrow> segments_loaded objects crc own' es parts"
  unfolding segments_loaded_def using segments_loaded_facts(3) by blast

lemma established_dimension_loaded:
  assumes "list_all2 (segment_loaded objects crc own) es parts" "\<forall>e\<in>set es. 0 < sg_dimension e"
  shows "established_dimension parts = (case es of [] \<Rightarrow> 0 | e # _ \<Rightarrow> sg_dimension e)"
  unfolding established_dimension_def segments_loaded_facts(1) [OF assms(1)]
  using assms(2) by (cases es) auto

text \<open>Appending a commit's segment keeps the segment set loadable.\<close>

lemma segments_loaded_append:
  assumes l: "segments_loaded objects crc own es parts" and pos: "\<forall>e\<in>set es. 0 < sg_dimension e"
    and w: "segment_written objects crc a rows ps" and dim: "check_segment_dimension sn (Some ps) = Inr u" "sn_index sn = parts"
    and own: "own \<union> rows \<subseteq> own'" "own \<inter> rows = {}" and names: "segment_file_name a \<notin> sg_name ` set es"
  shows "segments_loaded objects crc own' (es @ [ps_entry ps]) (with_appended (ps_reader ps) (sg_zone_map (ps_entry ps)) parts)"
proof -
  let ?part = "Sealed (ps_reader ps) (sg_zone_map (ps_entry ps))"
  note L = l [unfolded segments_loaded_def] and W = w [unfolded segment_written_def]
  note la = conjunct1 [OF L]
  have "list_all2 (segment_loaded objects crc own') (es @ [ps_entry ps]) (parts @ [?part])"
    using segments_loaded_facts(3) [OF la, of own'] W own(1) by (simp add: list_all2_appendI)
  moreover have "distinct (map sg_name (es @ [ps_entry ps]))" using L W names by auto
  moreover have "sg_dimension e = sg_dimension (hd (es @ [ps_entry ps]))" if e: "e \<in> set (es @ [ps_entry ps])" for e
  proof (cases es)
    case Nil
    then show ?thesis using e by simp
  next
    case (Cons e0 es')
    have "established_dimension parts = sg_dimension e0" "0 < sg_dimension e0"
      using established_dimension_loaded [OF la pos] Cons pos by simp_all
    then have "sg_dimension (ps_entry ps) = sg_dimension e0"
      using dim by (simp add: check_segment_dimension_def Let_def split: if_splits)
    moreover have "\<forall>x\<in>set es. sg_dimension x = sg_dimension (hd es)" using L by blast
    then have "sg_dimension x = sg_dimension e0" if "x \<in> set es" for x using that Cons by (metis list.sel(1))
    moreover have "hd (es @ [ps_entry ps]) = e0" using Cons by simp
    ultimately show ?thesis using e by (metis Un_iff empty_iff empty_set list.set(2) insert_iff set_append)
  qed
  moreover have "distinct (concat (map part_rows (parts @ [?part])))"
  proof -
    have "set (concat (map part_rows parts)) \<inter> set (row_id_slice (ps_reader ps)) = {}"
      using W segments_loaded_facts(2) [OF la] own(2) by blast
    then show ?thesis using L W by simp
  qed
  ultimately show ?thesis unfolding segments_loaded_def with_appended_def by blast
qed

text \<open>The snapshot a commit publishes.\<close>

definition candidate_snapshot ::
  "'s engine \<Rightarrow> transaction \<Rightarrow> int \<Rightarrow> data_file_entry list \<Rightarrow> published_segment option \<Rightarrow> snapshot_lease \<Rightarrow> nat \<Rightarrow> snapshot" where
  "candidate_snapshot eg tx ts new_files seg lease v =
     \<lparr> sn_version = v, sn_lease = lease, sn_schema = tx_schema tx,
       sn_manifest = candidate_manifest eg tx ts new_files seg v, sn_index = candidate_index (eg_current eg) seg,
       sn_tombstones = fst (append_tombstones (tx_pending_tombstones tx) (sn_tombstones (eg_current eg))
         (mf_tombstones (sn_manifest (eg_current eg)))) \<rparr>"

definition publishable ::
  "(string \<Rightarrow> bytes option) \<Rightarrow> 's engine_env \<Rightarrow> 's engine \<Rightarrow> transaction \<Rightarrow> int \<Rightarrow> (nat \<times> row_id_range) option
   \<Rightarrow> data_file_entry list \<Rightarrow> published_segment option \<Rightarrow> bool" where
  "publishable objects env eg tx ts res new_files seg \<longleftrightarrow>
     snapshot_ok objects env (eg_next_row_id eg) (eg_attempts eg) (eg_current eg) \<and>
     prepared_ok objects env tx ts res new_files seg \<and> (\<forall>x. res = Some x \<longrightarrow> reservation_ok eg tx x) \<and>
     staged_ok tx \<and> tx_schema tx = sn_schema (eg_current eg) \<and>
     (\<forall>r\<in>set (tx_write_set tx). owns_live_row (eg_current eg) r) \<and>
     check_segment_dimension (eg_current eg) seg = Inr ()"

lemma candidate_fields [simp]:
  "mf_data_files (candidate_manifest eg tx ts new_files seg v) = mf_data_files (sn_manifest (eg_current eg)) @ new_files"
  "mf_segments (candidate_manifest eg tx ts new_files seg v) =
     mf_segments (sn_manifest (eg_current eg)) @ (case seg of None \<Rightarrow> [] | Some ps \<Rightarrow> [ps_entry ps])"
  "mf_version (candidate_manifest eg tx ts new_files seg v) = v"
  "schema_version (candidate_manifest eg tx ts new_files seg v) = schema_version (sn_manifest (eg_current eg))"
  "mf_tombstones (candidate_manifest eg tx ts new_files seg v) =
     snd (append_tombstones (tx_pending_tombstones tx) (sn_tombstones (eg_current eg)) (mf_tombstones (sn_manifest (eg_current eg))))"
  by (simp_all add: candidate_manifest_def Let_def schema_version_def)

lemma publishableD:
  assumes "publishable objects env eg tx ts res new_files seg"
  defines "m \<equiv> sn_manifest (eg_current eg)"
  shows "res_rows res \<inter> rows_owned (mf_data_files m) = {}" "res_keys res \<inter> manifest_keys m = {}"
    "res_rows res \<subseteq> {..<eg_next_row_id eg}"
    "k \<in> res_keys res \<Longrightarrow> is_u64 a \<Longrightarrow> k \<in> attempt_keys a \<Longrightarrow> a < eg_attempts eg"
    "set (tx_write_set tx) \<subseteq> rows_owned (mf_data_files m)"
    "\<forall>b\<in>set (tx_pending tx). rb_schema b = sn_schema (eg_current eg)"
    "\<forall>x. res = Some x \<longrightarrow> len (snd x) = row_total (tx_pending tx)"
proof -
  have r: "reservation_ok eg tx x" if "res = Some x" for x using assms(1) that by (simp add: publishable_def)
  show "res_rows res \<inter> rows_owned (mf_data_files m) = {}"
    using r by (cases res) (auto simp: res_rows_def reservation_ok_def Let_def m_def disjoint_iff)
  show "res_keys res \<inter> manifest_keys m = {}"
    using r by (cases res) (auto simp: res_keys_def reservation_ok_def Let_def m_def disjoint_iff)
  show "res_rows res \<subseteq> {..<eg_next_row_id eg}"
    using r by (auto simp: res_rows_def reservation_ok_def Let_def split: option.splits)
  show "a < eg_attempts eg" if k: "k \<in> res_keys res" "is_u64 a" "k \<in> attempt_keys a"
  proof -
    obtain b c where res: "res = Some (b, c)" "k \<in> attempt_keys b"
      using k(1) by (auto simp: res_keys_def split: option.splits)
    have b: "is_u64 b" "b < eg_attempts eg" using r [OF res(1)] by (simp_all add: reservation_ok_def Let_def)
    have "a = b" by (rule attempt_keys_disjoint [OF k(2) b(1) k(3) res(2)])
    then show ?thesis using b(2) by simp
  qed
  show "set (tx_write_set tx) \<subseteq> rows_owned (mf_data_files m)"
    using assms(1) by (auto simp: publishable_def owns_live_row_def owns_row_iff m_def)
  show "\<forall>b\<in>set (tx_pending tx). rb_schema b = sn_schema (eg_current eg)"
    using assms(1) unfolding publishable_def staged_ok_def by metis
  show "\<forall>x. res = Some x \<longrightarrow> len (snd x) = row_total (tx_pending tx)"
    using r by (simp add: reservation_ok_def Let_def)
qed

lemma candidate_tombstones:
  fixes lease :: snapshot_lease and v :: nat
  assumes "publishable objects env eg tx ts res new_files seg"
  defines "sn \<equiv> candidate_snapshot eg tx ts new_files seg lease v"
  shows "sn_tombstones sn = sn_tombstones (eg_current eg) \<union> set (tx_write_set tx)"
    "sn_tombstones sn = set (mf_tombstones (sn_manifest sn))" "distinct (mf_tombstones (sn_manifest sn))"
    "sn_tombstones sn \<subseteq> rows_owned (mf_data_files (sn_manifest (eg_current eg)))"
proof -
  have t: "sn_tombstones (eg_current eg) = set (mf_tombstones (sn_manifest (eg_current eg)))"
      "distinct (mf_tombstones (sn_manifest (eg_current eg)))"
      "sn_tombstones (eg_current eg) \<subseteq> rows_owned (mf_data_files (sn_manifest (eg_current eg)))"
    using assms(1) unfolding publishable_def snapshot_ok_def Let_def by blast+
  have w: "tx_pending_tombstones tx = tx_write_set tx" using assms(1) by (simp add: publishable_def staged_ok_def)
  show 1: "sn_tombstones sn = sn_tombstones (eg_current eg) \<union> set (tx_write_set tx)"
    by (simp add: sn_def candidate_snapshot_def append_tombstones_set w)
  show "sn_tombstones sn = set (mf_tombstones (sn_manifest sn))" "distinct (mf_tombstones (sn_manifest sn))"
    using append_tombstones_persisted [OF t(2), of "tx_write_set tx"] 1 by (simp_all add: sn_def candidate_snapshot_def t(1) w)
  show "sn_tombstones sn \<subseteq> rows_owned (mf_data_files (sn_manifest (eg_current eg)))"
    using 1 t(3) publishableD(5) [OF assms(1)] by simp
qed

lemma candidate_visible_rows:
  assumes pub: "publishable objects env eg tx ts res new_files seg"
  shows "visible_rows objects (en_arrow env) (candidate_snapshot eg tx ts new_files seg lease v) =
    filter (\<lambda>(r, _). r \<notin> set (tx_write_set tx)) (visible_rows objects (en_arrow env) (eg_current eg)) @
    enumerated_from (res_base res) (tx_pending tx)"
proof -
  let ?sn = "candidate_snapshot eg tx ts new_files seg lease v"
  have p: "prepared_ok objects env tx ts res new_files seg" using pub by (simp add: publishable_def)
  note F = prepared_files [OF p publishableD(7,6) [OF pub]]
  have ids: "fst ` set (enumerated_from (res_base res) (tx_pending tx)) = rows_owned new_files"
  proof -
    have "map (map fst) (map (file_rows objects (en_arrow env)) new_files) = map entry_ids new_files"
      using F(7) by (simp del: map_eq_conv add: map_eq_conv)
    then have "map fst (concat (map (file_rows objects (en_arrow env)) new_files)) = concat (map entry_ids new_files)"
      by (simp only: map_concat)
    then have "fst ` set (concat (map (file_rows objects (en_arrow env)) new_files)) = rows_owned new_files"
      unfolding rows_owned_def by (metis list.set_map)
    then show ?thesis by (simp only: F(6))
  qed
  have "is_visible ?sn (fst x)" if "x \<in> set (enumerated_from (res_base res) (tx_pending tx))" for x
  proof -
    have "fst x \<in> res_rows res" using that ids F(5) by blast
    then show ?thesis
      using candidate_tombstones(4) [OF pub, of lease v] publishableD(1) [OF pub] unfolding is_visible_def by blast
  qed
  then have new: "filter (\<lambda>(r, _). is_visible ?sn r) (enumerated_from (res_base res) (tx_pending tx)) =
      enumerated_from (res_base res) (tx_pending tx)"
    by (intro filter_True) (simp add: split_beta)
  have "filter (\<lambda>(r, _). is_visible ?sn r) xs =
      filter (\<lambda>(r, _). r \<notin> set (tx_write_set tx)) (filter (\<lambda>(r, _). is_visible (eg_current eg) r) xs)" for xs :: "(nat \<times> row) list"
    by (induction xs) (auto simp: is_visible_def candidate_tombstones(1) [OF pub])
  then show ?thesis
    using new unfolding visible_rows_def by (simp add: F(6) candidate_snapshot_def)
qed

lemma rows_owned_append: "rows_owned (fs @ gs) = rows_owned fs \<union> rows_owned gs"
  by (simp add: rows_owned_def)

lemma candidate_files_ok:
  assumes pub: "publishable objects env eg tx ts res new_files seg"
  shows "files_ok objects (en_arrow env) (cd_crc (en_codecs env)) (sn_schema (eg_current eg))
      (mf_data_files (sn_manifest (eg_current eg)) @ new_files)"
    "rows_owned (mf_data_files (sn_manifest (eg_current eg)) @ new_files) =
       rows_owned (mf_data_files (sn_manifest (eg_current eg))) \<union> res_rows res"
proof -
  let ?fs = "mf_data_files (sn_manifest (eg_current eg))"
  have p: "prepared_ok objects env tx ts res new_files seg" using pub by (simp add: publishable_def)
  note F = prepared_files [OF p publishableD(7,6) [OF pub]]
  have old: "files_ok objects (en_arrow env) (cd_crc (en_codecs env)) (sn_schema (eg_current eg)) ?fs"
    using pub unfolding publishable_def snapshot_ok_def Let_def by blast
  have "df_name f \<noteq> df_name g" if "f \<in> set ?fs" "g \<in> set new_files" for f g
  proof
    assume e: "df_name f = df_name g"
    have "''data/'' @ df_name g \<in> manifest_keys (sn_manifest (eg_current eg))"
      using that(1) unfolding e [symmetric] manifest_keys_def by blast
    then show False using F(3) that(2) publishableD(2) [OF pub] by blast
  qed
  then have "set (map df_name ?fs) \<inter> set (map df_name new_files) = {}" by auto
  moreover have "set (concat (map entry_ids ?fs)) \<inter> set (concat (map entry_ids new_files)) = {}"
    using publishableD(1) [OF pub] F(5) unfolding rows_owned_def by blast
  ultimately show "files_ok objects (en_arrow env) (cd_crc (en_codecs env)) (sn_schema (eg_current eg)) (?fs @ new_files)"
    using old F(1,2,4) by (simp add: files_ok_def)
  show "rows_owned (?fs @ new_files) = rows_owned ?fs \<union> res_rows res" by (simp add: rows_owned_append F(5))
qed

lemma candidate_segments_loaded:
  assumes pub: "publishable objects env eg tx ts res new_files seg"
  shows "segments_loaded objects (cd_crc (en_codecs env)) (rows_owned (mf_data_files (sn_manifest (eg_current eg)) @ new_files))
      (mf_segments (sn_manifest (eg_current eg)) @ (case seg of None \<Rightarrow> [] | Some ps \<Rightarrow> [ps_entry ps]))
      (candidate_index (eg_current eg) seg)"
    "e \<in> set (case seg of None \<Rightarrow> [] | Some ps \<Rightarrow> [ps_entry ps]) \<Longrightarrow>
       0 < sg_dimension e \<and> ''data/'' @ sg_name e \<in> res_keys res \<and> \<not> temporary (''data/'' @ sg_name e)"
proof -
  let ?m = "sn_manifest (eg_current eg)" and ?crc = "cd_crc (en_codecs env)"
  have l: "segments_loaded objects ?crc (rows_owned (mf_data_files ?m)) (mf_segments ?m) (sn_index (eg_current eg))"
      and pos: "\<forall>e\<in>set (mf_segments ?m). 0 < sg_dimension e"
    using pub unfolding publishable_def snapshot_ok_def Let_def by blast+
  have W: "\<exists>a claimed. res = Some (a, claimed) \<and> segment_written objects ?crc a (res_rows res) ps" if "seg = Some ps" for ps
    using pub that by (cases res) (auto simp: publishable_def prepared_ok_def res_rows_def)
  show "segments_loaded objects ?crc (rows_owned (mf_data_files ?m @ new_files))
      (mf_segments ?m @ (case seg of None \<Rightarrow> [] | Some ps \<Rightarrow> [ps_entry ps])) (candidate_index (eg_current eg) seg)"
  proof (cases seg)
    case None
    then show ?thesis
      using segments_loaded_mono [OF l] by (simp add: candidate_index_def candidate_files_ok(2) [OF pub])
  next
    case (Some ps)
    obtain a claimed where a: "res = Some (a, claimed)" "segment_written objects ?crc a (res_rows res) ps" using W [OF Some] by blast
    have "''data/'' @ segment_file_name a \<notin> manifest_keys ?m"
      using publishableD(2) [OF pub] attempt_names(2) [of a] a(1) by (auto simp: res_keys_def)
    then have n: "segment_file_name a \<notin> sg_name ` set (mf_segments ?m)" unfolding manifest_keys_def by blast
    have d: "check_segment_dimension (eg_current eg) (Some ps) = Inr ()" using pub Some by (simp add: publishable_def)
    have "segments_loaded objects ?crc (rows_owned (mf_data_files ?m @ new_files)) (mf_segments ?m @ [ps_entry ps])
        (with_appended (ps_reader ps) (sg_zone_map (ps_entry ps)) (sn_index (eg_current eg)))"
      by (rule segments_loaded_append [OF l pos a(2) d refl _ _ n])
        (use candidate_files_ok(2) [OF pub] publishableD(1) [OF pub] in auto)
    then show ?thesis using Some by (simp add: candidate_index_def)
  qed
  show "0 < sg_dimension e \<and> ''data/'' @ sg_name e \<in> res_keys res \<and> \<not> temporary (''data/'' @ sg_name e)"
    if "e \<in> set (case seg of None \<Rightarrow> [] | Some ps \<Rightarrow> [ps_entry ps])"
  proof (cases seg)
    case (Some ps)
    then obtain a claimed where a: "res = Some (a, claimed)" "segment_written objects ?crc a (res_rows res) ps" using W by blast
    then show ?thesis
      using that Some attempt_names(2) [of a] attempt_name_ok(4) [of a] by (simp add: segment_written_def res_keys_def)
  qed (use that in simp)
qed

lemma candidate_snapshot_ok:
  assumes pub: "publishable objects env eg tx ts res new_files seg"
  shows "snapshot_ok objects env (eg_next_row_id eg) (eg_attempts eg) (candidate_snapshot eg tx ts new_files seg lease v)"
    (is "snapshot_ok _ _ _ _ ?sn")
    and "manifest_keys (sn_manifest (candidate_snapshot eg tx ts new_files seg lease v)) \<subseteq>
      manifest_keys (sn_manifest (eg_current eg)) \<union> res_keys res"
proof -
  let ?m = "sn_manifest (eg_current eg)"
  have p: "prepared_ok objects env tx ts res new_files seg" using pub by (simp add: publishable_def)
  note F = prepared_files [OF p publishableD(7,6) [OF pub]]
  note O = pub [unfolded publishable_def snapshot_ok_def Let_def]
  have m: "mf_data_files (sn_manifest ?sn) = mf_data_files ?m @ new_files"
      "mf_segments (sn_manifest ?sn) = mf_segments ?m @ (case seg of None \<Rightarrow> [] | Some ps \<Rightarrow> [ps_entry ps])"
      "sn_schema ?sn = sn_schema (eg_current eg)" "sn_index ?sn = candidate_index (eg_current eg) seg"
      "mf_version (sn_manifest ?sn) = sn_version ?sn"
    using pub by (simp_all add: candidate_snapshot_def publishable_def)
  have keys: "k \<in> manifest_keys ?m \<or> k \<in> res_keys res \<and> \<not> temporary k" if "k \<in> manifest_keys (sn_manifest ?sn)" for k
    using that F(3) candidate_segments_loaded(2) [OF pub] unfolding manifest_keys_def m by auto
  then show "manifest_keys (sn_manifest ?sn) \<subseteq> manifest_keys ?m \<union> res_keys res" by blast
  have "rows_owned (mf_data_files ?m @ new_files) \<subseteq> {..<eg_next_row_id eg}"
    using O publishableD(3) [OF pub] unfolding candidate_files_ok(2) [OF pub] by blast
  moreover have "\<forall>k\<in>manifest_keys (sn_manifest ?sn). \<forall>a. is_u64 a \<longrightarrow> k \<in> attempt_keys a \<longrightarrow> a < eg_attempts eg"
    using O keys publishableD(4) [OF pub] by blast
  moreover have "sn_tombstones ?sn \<subseteq> rows_owned (mf_data_files ?m @ new_files)"
    using candidate_tombstones(4) [OF pub] by (simp add: rows_owned_append le_supI1)
  moreover have "\<forall>k\<in>manifest_keys (sn_manifest ?sn). \<not> temporary k" using O keys by blast
  moreover have "\<forall>f\<in>set (mf_data_files ?m @ new_files). map fst (file_rows objects (en_arrow env) f) = entry_ids f"
    using O F(7) by auto
  moreover have "\<forall>e\<in>set (mf_segments (sn_manifest ?sn)). 0 < sg_dimension e"
    using O candidate_segments_loaded(2) [OF pub] unfolding m by auto
  ultimately show "snapshot_ok objects env (eg_next_row_id eg) (eg_attempts eg) ?sn"
    using candidate_files_ok(1) [OF pub] candidate_segments_loaded(1) [OF pub] candidate_tombstones(2,3) [OF pub, of lease v] m(5)
    unfolding snapshot_ok_def Let_def m(1-4) by blast
qed

section \<open>The critical section\<close>

text \<open>Whatever the critical section answers, it either leaves the published state as it was or
  publishes the candidate after every check passed.\<close>

definition passes_checks :: "'s engine \<Rightarrow> transaction \<Rightarrow> published_segment option \<Rightarrow> bool" where
  "passes_checks eg tx seg \<longleftrightarrow> is_u64 (sn_version (eg_current eg) + 1) \<and>
     conflicts_with (eg_log eg) (tx_base_version tx) (sn_version (eg_current eg)) (tx_write_set tx) = Clean \<and>
     (\<forall>row_id\<in>set (tx_write_set tx). owns_live_row (eg_current eg) row_id) \<and>
     check_segment_dimension (eg_current eg) seg = Inr ()"

lemma critical_section_cases:
  assumes c: "critical_section env alive tx ts new_files seg eg = (r, eg')"
  obtains (kept) s n where "\<not> published r" "eg' = eg\<lparr> eg_store := s, eg_insufficient := n \<rparr>"
      "s = eg_store eg \<or>
       (\<exists>ru. commit_manifest_with (en_codecs env) (en_owner env)
          (candidate_manifest eg tx ts new_files seg (sn_version (eg_current eg) + 1)) (eg_store eg) = (ru, s) \<and>
        ru \<noteq> Inr () \<and> ru \<noteq> Inl PublicationIndeterminate \<and> passes_checks eg tx seg)"
  | (visible) s ru v reg lease where "published r" "v = sn_version (eg_current eg) + 1" "is_u64 v"
      "schema_version (sn_manifest (eg_current eg)) = schema_version (sn_manifest (tx_base_snapshot tx))"
      "conflicts_with (eg_log eg) (tx_base_version tx) (sn_version (eg_current eg)) (tx_write_set tx) = Clean"
      "\<forall>row_id\<in>set (tx_write_set tx). owns_live_row (eg_current eg) row_id"
      "check_segment_dimension (eg_current eg) seg = Inr ()"
      "commit_manifest_with (en_codecs env) (en_owner env) (candidate_manifest eg tx ts new_files seg v) (eg_store eg) = (ru, s)"
      "(ru = Inr () \<and> r = Inr ()) \<or>
       (ru = Inl PublicationIndeterminate \<and> r = Inl (IndeterminateManifestPublication v PublicationIndeterminate))"
      "eg' = eg\<lparr> eg_store := s, eg_log := push v (tx_write_set tx) (eg_log eg), eg_leases := reg,
         eg_current := candidate_snapshot eg tx ts new_files seg lease v \<rparr>"
proof -
  let ?cur = "eg_current eg" and ?v = "sn_version (eg_current eg) + 1"
  let ?m = "candidate_manifest eg tx ts new_files seg ?v"
  have early: thesis if "r = Inl e" "eg' = eg \<or> eg' = eg\<lparr> eg_insufficient := n \<rparr>" "\<forall>v x. e \<noteq> IndeterminateManifestPublication v x" for e n
  proof -
    have "\<not> published r" using that(1,3) by (cases e) (simp_all add: published_def)
    moreover have "\<exists>n. eg' = eg\<lparr> eg_store := eg_store eg, eg_insufficient := n \<rparr>"
      using that(2) by (metis engine.surjective engine.update_convs(1,7))
    ultimately show thesis using kept by blast
  qed
  show thesis
  proof (cases "schema_version (sn_manifest ?cur) = schema_version (sn_manifest (tx_base_snapshot tx)) \<and>
      conflicts_with (eg_log eg) (tx_base_version tx) (sn_version ?cur) (tx_write_set tx) = Clean \<and>
      find (\<lambda>row_id. \<not> owns_live_row ?cur row_id) (tx_write_set tx) = None \<and>
      checked_add (sn_version ?cur) 1 \<noteq> None \<and> check_segment_dimension ?cur seg = Inr ()")
    case False
    then have "\<exists>e n. r = Inl e \<and> (eg' = eg \<or> eg' = eg\<lparr> eg_insufficient := n \<rparr>) \<and> (\<forall>v x. e \<noteq> IndeterminateManifestPublication v x)"
      using c by (auto simp: critical_section_def Let_def check_segment_dimension_def
          split: conflict_check.splits option.splits sum.splits if_splits)
    then show thesis using early by blast
  next
    case True
    then have add: "checked_add (sn_version ?cur) 1 = Some ?v" by (auto simp: checked_add_def split: if_splits)
    then have v: "is_u64 ?v" by (simp add: checked_add_Some_iff is_u64_def)
    have p: "publish_candidate env alive tx ts new_files seg ?v eg = (r, eg')"
      using c True add by (simp add: critical_section_def Let_def)
    obtain ru s where cm: "commit_manifest_with (en_codecs env) (en_owner env) ?m (eg_store eg) = (ru, s)" by fastforce
    obtain lease reg where reg: "register alive ?v (eg_leases eg) = (lease, reg)" by fastforce
    have live: "\<forall>row_id\<in>set (tx_write_set tx). owns_live_row ?cur row_id" using True by (auto simp: find_None_iff)
    consider "ru = Inr ()" | "ru = Inl PublicationIndeterminate" | e where "ru = Inl e" "e \<noteq> PublicationIndeterminate"
      by (cases ru) auto
    then show thesis
    proof cases
      case 1
      then have "r = Inr ()" "eg' = eg\<lparr> eg_store := s, eg_log := push ?v (tx_write_set tx) (eg_log eg), eg_leases := reg,
         eg_current := candidate_snapshot eg tx ts new_files seg lease ?v \<rparr>"
        using p cm reg by (auto simp: publish_candidate_def Let_def install_def candidate_snapshot_def)
      then show thesis using visible [OF _ refl v _ _ live _ cm] True 1 by (simp add: published_def)
    next
      case 2
      then have "r = Inl (IndeterminateManifestPublication ?v PublicationIndeterminate)"
          "eg' = eg\<lparr> eg_store := s, eg_log := push ?v (tx_write_set tx) (eg_log eg), eg_leases := reg,
             eg_current := candidate_snapshot eg tx ts new_files seg lease ?v \<rparr>"
        using p cm reg by (auto simp: publish_candidate_def Let_def install_def candidate_snapshot_def)
      then show thesis using visible [OF _ refl v _ _ live _ cm] True 2 by (simp add: published_def)
    next
      case 3
      then have "r = Inl (Storage e)" "eg' = eg\<lparr> eg_store := s \<rparr>"
        using p cm by (auto simp: publish_candidate_def Let_def split: storage_error.splits)
      moreover have "passes_checks eg tx seg" using True v live by (simp add: passes_checks_def)
      ultimately show thesis using kept [of "eg_insufficient eg" s] 3 cm by (auto simp: published_def)
    qed
  qed
qed

section \<open>Steps keep the invariant\<close>

lemma finish_commit_fields [simp]:
  "eg_store (finish_commit r eg) = eg_store eg" "eg_current (finish_commit r eg) = eg_current eg"
  "eg_log (finish_commit r eg) = eg_log eg" "eg_next_row_id (finish_commit r eg) = eg_next_row_id eg"
  "eg_attempts (finish_commit r eg) = eg_attempts eg"
  by (simp_all add: finish_commit_def record_event_def split: sum.split txn_error.split)

lemma issue_timestamp_fields:
  assumes "issue_timestamp now eg = (r, eg')"
  shows "eg_store eg' = eg_store eg \<and> eg_current eg' = eg_current eg \<and> eg_log eg' = eg_log eg \<and>
    eg_next_row_id eg' = eg_next_row_id eg \<and> eg_attempts eg' = eg_attempts eg"
  using assms by (auto simp: issue_timestamp_def Let_def split: if_splits)

lemma sys_invD:
  assumes "sys_inv content good env sy"
  shows "good (eg_store (sy_engine sy))" "is_u64 (eg_next_row_id (sy_engine sy))" "is_u64 (eg_attempts (sy_engine sy))"
    "snapshot_ok (content (eg_store (sy_engine sy))) env (eg_next_row_id (sy_engine sy)) (eg_attempts (sy_engine sy))
       (eg_current (sy_engine sy))"
    "sy_phase sy i = Some p \<Longrightarrow> phase_ok content env sy p" "reservations_disjoint (sy_phase sy)"
    "length (sy_snapshots sy) = length (sy_writes sy) + 1" "last (sy_snapshots sy) = eg_current (sy_engine sy)"
    "log_of (sn_version (hd (sy_snapshots sy))) (sy_writes sy) (eg_log (sy_engine sy))"
    "j < length (sy_snapshots sy) \<Longrightarrow> sn_version (sy_snapshots sy ! j) = sn_version (hd (sy_snapshots sy)) + j"
    "sn \<in> set (sy_snapshots sy) \<Longrightarrow> older sn (eg_current (sy_engine sy))"
    "sn_version (eg_current (sy_engine sy)) = sn_version (hd (sy_snapshots sy)) + length (sy_writes sy)"
proof -
  note I = assms [unfolded sys_inv_def Let_def]
  show "good (eg_store (sy_engine sy))" "is_u64 (eg_next_row_id (sy_engine sy))" "is_u64 (eg_attempts (sy_engine sy))"
    "snapshot_ok (content (eg_store (sy_engine sy))) env (eg_next_row_id (sy_engine sy)) (eg_attempts (sy_engine sy))
       (eg_current (sy_engine sy))"
    "sy_phase sy i = Some p \<Longrightarrow> phase_ok content env sy p" "reservations_disjoint (sy_phase sy)"
    "length (sy_snapshots sy) = length (sy_writes sy) + 1" "last (sy_snapshots sy) = eg_current (sy_engine sy)"
    "log_of (sn_version (hd (sy_snapshots sy))) (sy_writes sy) (eg_log (sy_engine sy))"
    "j < length (sy_snapshots sy) \<Longrightarrow> sn_version (sy_snapshots sy ! j) = sn_version (hd (sy_snapshots sy)) + j"
    "sn \<in> set (sy_snapshots sy) \<Longrightarrow> older sn (eg_current (sy_engine sy))"
    using I unfolding in_set_conv_nth by blast+
  have "eg_current (sy_engine sy) = sy_snapshots sy ! length (sy_writes sy)"
    using I last_conv_nth [of "sy_snapshots sy"] by fastforce
  then show "sn_version (eg_current (sy_engine sy)) = sn_version (hd (sy_snapshots sy)) + length (sy_writes sy)" using I by simp
qed

text \<open>Steps that touch neither the store nor the counters.\<close>

lemma quiet_step:
  assumes inv: "sys_inv content good env sy"
    and eg: "eg_store eg = eg_store (sy_engine sy)" "eg_current eg = eg_current (sy_engine sy)" "eg_log eg = eg_log (sy_engine sy)"
      "eg_next_row_id eg = eg_next_row_id (sy_engine sy)" "eg_attempts eg = eg_attempts (sy_engine sy)"
    and p: "phase_ok content env (advance i p eg sy) p" and none: "reservation p = None"
  shows "sys_inv content good env (advance i p eg sy)"
proof (rule sys_inv_frame [OF inv eg(2,3), of "{}"])
  show "keeps content good {} (eg_store (sy_engine sy)) (eg_store eg)"
    unfolding eg(1) by (rule keeps_refl) (rule sys_invD(1) [OF inv])
qed (use sys_invD(2,3) [OF inv] eg p none in auto)

lemma txn_ok_advance: "txn_ok (advance i p eg sy) tx = txn_ok sy tx"
  by (simp add: txn_ok_def)

lemma begins_inv:
  assumes inv: "sys_inv content good env sy" and b: "dataset_begin (sy_engine sy) = (tx, eg)"
  shows "sys_inv content good env (advance i (Staging tx) eg sy)"
proof (rule quiet_step [OF inv])
  have tx: "tx = begin_at (eg_current (sy_engine sy))" using b by (simp add: dataset_begin_def)
  have "sy_snapshots sy \<noteq> []" using sys_invD(7) [OF inv] by auto
  then have "\<exists>j<length (sy_snapshots sy). eg_current (sy_engine sy) = sy_snapshots sy ! j"
    using sys_invD(8) [OF inv] by (metis last_in_set in_set_conv_nth)
  then have "txn_ok sy tx" using begin_staged_ok by (simp add: txn_ok_def tx begin_at_def)
  then show "phase_ok content env (advance i (Staging tx) eg sy) (Staging tx)"
    by (simp add: phase_ok_def txn_ok_advance)
qed (use b in \<open>auto simp: dataset_begin_def record_event_def\<close>)

lemma stage_wf:
  assumes "stage oper tx = (r, tx')" "wf_op oper" "\<forall>b\<in>set (tx_pending tx). wf_batch b"
  shows "\<forall>b\<in>set (tx_pending tx'). wf_batch b"
  using assms by (cases oper) (auto simp: txn_insert_def txn_delete_def txn_update_def split: sum.splits if_splits)

lemma stages_inv:
  assumes inv: "sys_inv content good env sy" and ph: "sy_phase sy i = Some (Staging tx)"
    and s: "wf_op oper" "stage oper tx = (r, tx')"
  shows "sys_inv content good env (advance i (Staging tx') (sy_engine sy) sy)"
proof (rule quiet_step [OF inv])
  have "txn_ok sy tx" using sys_invD(5) [OF inv ph] by (simp add: phase_ok_def)
  then have "txn_ok sy tx'"
    using stage_staged_ok [OF s(2)] stage_wf [OF s(2,1)] stage_keeps [OF s(2)] by (simp add: txn_ok_def)
  then show "phase_ok content env (advance i (Staging tx') (sy_engine sy) sy) (Staging tx')"
    by (simp add: phase_ok_def txn_ok_advance)
qed simp_all

lemma finished_ok: "phase_ok content env sy (Finished r)"
  by (simp add: phase_ok_def)

lemma manifest_keys_data: "k \<in> manifest_keys m \<Longrightarrow> \<exists>x. k = ''data/'' @ x"
  by (auto simp: manifest_keys_def)

lemma attempt_keys_data: "k \<in> attempt_keys a \<Longrightarrow> \<exists>x. k = ''data/'' @ x"
  by (auto simp: attempt_keys_def)

lemma catalog_untouched:
  "range record_key \<inter> manifest_keys m = {}" "range record_key \<inter> attempt_keys a = {}"
  "{manifest_object_key v} \<inter> manifest_keys m = {}" "{manifest_object_key v} \<inter> attempt_keys a = {}"
  using manifest_keys_data attempt_keys_data data_key_not_catalog by blast+

lemma reservation_in_flight:
  assumes inv: "sys_inv content good env sy" and ph: "sy_phase sy i = Some p" and r: "reservation p = Some x"
  obtains tx where "phase_txn p = Some tx" "reservation_ok (sy_engine sy) tx x"
proof -
  obtain tx where "phase_txn p = Some tx" using r by (cases p) auto
  then show thesis using that sys_invD(5) [OF inv ph] r unfolding phase_ok_def by blast
qed

text \<open>What another transaction reserved is not what a prepared one wrote.\<close>

lemma other_reservation:
  assumes inv: "sys_inv content good env sy" and ph: "sy_phase sy i = Some (Prepared tx ts res new_files seg)"
    and q: "j \<noteq> i" "sy_phase sy j = Some q" "reservation q = Some x"
  shows "res_keys res \<inter> attempt_keys (fst x) = {}" "res_rows res \<inter> {base (snd x)..<range_end (snd x)} = {}"
proof -
  obtain tx' where rx: "reservation_ok (sy_engine sy) tx' x" using reservation_in_flight [OF inv q(2,3)] by blast
  have "res_keys res \<inter> attempt_keys (fst x) = {} \<and> res_rows res \<inter> {base (snd x)..<range_end (snd x)} = {}"
  proof (cases res)
    case (Some y)
    then have ry: "reservation_ok (sy_engine sy) tx y" using sys_invD(5) [OF inv ph] by (simp add: phase_ok_def)
    have "fst y \<noteq> fst x \<and> {base (snd y)..<range_end (snd y)} \<inter> {base (snd x)..<range_end (snd x)} = {}"
      using sys_invD(6) [OF inv, unfolded reservations_disjoint_def, rule_format, of i j "Prepared tx ts res new_files seg" q y x]
        q ph Some by simp
    then show ?thesis
      using Some rx ry attempt_keys_disjoint [of "fst y" "fst x"]
      by (auto simp: res_keys_def res_rows_def reservation_ok_def Let_def split: prod.splits)
  qed (simp add: res_keys_def res_rows_def)
  then show "res_keys res \<inter> attempt_keys (fst x) = {}" "res_rows res \<inter> {base (snd x)..<range_end (snd x)} = {}" by simp_all
qed

context engine_store
begin

lemma reserves_inv:
  assumes inv: "sys_inv content good env sy" and ph: "sy_phase sy i = Some (Stamped tx ts)"
    and at: "eg_attempts (sy_engine sy) < u64_max" and rp: "reserve_phase env tx (sy_engine sy) = Some (r, eg)"
  shows "sys_inv content good env
    (advance i (case r of Inl e \<Rightarrow> Finished (Inl e) | Inr res \<Rightarrow> Reserved tx ts res)
       (case r of Inl e \<Rightarrow> finish_commit (Inl e) eg | Inr res \<Rightarrow> eg) sy)"
    (is "sys_inv _ _ _ (advance i ?p ?eg sy)")
    and "keeps content good (range record_key) (eg_store (sy_engine sy)) (eg_store eg)"
proof -
  let ?old = "sy_engine sy"
  note R = reserve_phase_post [OF sys_invD(1-3) [OF inv] rp]
  have fa: "fetch_add_u64 (eg_attempts ?old) 1 = eg_attempts ?old + 1"
    using at by (simp add: fetch_add_u64_def u64_max_def)
  have eg: "eg_store ?eg = eg_store eg" "eg_current ?eg = eg_current eg" "eg_log ?eg = eg_log eg"
      "eg_next_row_id ?eg = eg_next_row_id eg" "eg_attempts ?eg = eg_attempts eg"
    by (simp_all split: sum.split)
  have same: "eg_current eg = eg_current ?old" "eg_log eg = eg_log ?old" using R by (simp_all add: same_shared_def)
  have cnt: "is_u64 (eg_next_row_id eg)" "is_u64 (eg_attempts eg)" "eg_next_row_id ?old \<le> eg_next_row_id eg"
      "eg_attempts ?old \<le> eg_attempts eg"
    using R fa at sys_invD(3) [OF inv] by (auto simp: is_u64_def)
  have so: "snapshot_ok (content (eg_store ?old)) env (eg_next_row_id ?old) (eg_attempts ?old) (eg_current ?old)"
    by (rule sys_invD(4) [OF inv])
  have tx: "txn_ok sy tx" using sys_invD(5) [OF inv ph] by (simp add: phase_ok_def)
  have fresh: "fst res = eg_attempts ?old \<and> eg_next_row_id ?old \<le> base (snd res) \<and> reservation_ok eg tx res" if "r = Inr res" for res
  proof -
    obtain a claimed where res: "res = (a, claimed)" by fastforce
    note P = R [THEN conjunct2, THEN conjunct2, THEN conjunct2, THEN conjunct2, THEN conjunct2, THEN conjunct2,
        rule_format, OF that [unfolded res]]
    have "manifest_keys (sn_manifest (eg_current ?old)) \<inter> attempt_keys a = {}"
      using so P sys_invD(3) [OF inv] unfolding snapshot_ok_def Let_def by blast
    moreover have "rows_owned (mf_data_files (sn_manifest (eg_current ?old))) \<inter> {base claimed..<range_end claimed} = {}"
      using so P unfolding snapshot_ok_def Let_def by fastforce
    ultimately show ?thesis
      using P fa sys_invD(3) [OF inv] unfolding res reservation_ok_def Let_def same by simp
  qed
  show "keeps content good (range record_key) (eg_store ?old) (eg_store eg)" using R by blast
  show "sys_inv content good env (advance i ?p ?eg sy)"
  proof (rule sys_inv_frame [OF inv, where touched = "range record_key"])
    show "keeps content good (range record_key) (eg_store ?old) (eg_store ?eg)" using R eg by simp
    show "phase_ok content env (advance i ?p ?eg sy) ?p"
      using fresh tx by (cases r) (simp_all add: phase_ok_def txn_ok_advance)
  next
    fix x j q y assume x: "reservation ?p = Some x" and j: "j \<noteq> i" "sy_phase sy j = Some q" "reservation q = Some y"
    obtain res where res: "r = Inr res" "res = x" using x by (cases r) auto
    obtain tx' where "reservation_ok ?old tx' y" using reservation_in_flight [OF inv j(2,3)] by blast
    then show "fst x \<noteq> fst y \<and> {base (snd x)..<range_end (snd x)} \<inter> {base (snd y)..<range_end (snd y)} = {}"
      using fresh [OF res(1)] res(2) by (auto simp: reservation_ok_def Let_def)
  qed (use eg same cnt catalog_untouched(1,2) in auto)
qed

lemma fills_inv:
  assumes A: "arrow_lib_spec (en_arrow env)"
    and inv: "sys_inv content good env sy" and ph: "sy_phase sy i = Some (Reserved tx ts res)"
    and f: "fill_phase env tx ts res (sy_engine sy) = (r, eg)"
  shows "sys_inv content good env
    (advance i (case r of Inl e \<Rightarrow> Finished (Inl e) | Inr out \<Rightarrow> Prepared tx ts (Some res) (fst out) (snd out))
       (case r of Inl e \<Rightarrow> finish_commit (Inl e) eg | Inr res \<Rightarrow> eg) sy)"
    (is "sys_inv _ _ _ (advance i ?p ?eg sy)")
    and "keeps content good (attempt_keys (fst res)) (eg_store (sy_engine sy)) (eg_store eg)"
    "attempt_keys (fst res) \<inter> manifest_keys (sn_manifest (eg_current (sy_engine sy))) = {}"
proof -
  let ?old = "sy_engine sy"
  obtain a claimed where res: "res = (a, claimed)" by fastforce
  have po: "txn_ok sy tx" "reservation_ok ?old tx res" using sys_invD(5) [OF inv ph] by (simp_all add: phase_ok_def)
  have bs: "\<forall>b\<in>set (tx_pending tx). wf_batch b \<and> no_hidden (rb_schema b)"
    using po by (simp add: txn_ok_def reservation_ok_def Let_def)
  have ids: "is_u64 (range_end claimed)" "row_total (tx_pending tx) = len claimed"
    using po(2) sys_invD(2) [OF inv] by (auto simp: reservation_ok_def Let_def res is_u64_def)
  note F = fill_phase_post [OF A bs ids sys_invD(1) [OF inv] f [unfolded res]]
  have eg: "eg_store ?eg = eg_store eg" "eg_current ?eg = eg_current ?old" "eg_log ?eg = eg_log ?old"
      "eg_next_row_id ?eg = eg_next_row_id ?old" "eg_attempts ?eg = eg_attempts ?old"
  proof -
    have "eg = ?old\<lparr> eg_store := eg_store eg \<rparr>" using F by blast
    then have "eg_current eg = eg_current ?old" "eg_log eg = eg_log ?old"
      "eg_next_row_id eg = eg_next_row_id ?old" "eg_attempts eg = eg_attempts ?old"
      by (metis engine.ext_inject engine.surjective engine.update_convs(1))+
    then show "eg_store ?eg = eg_store eg" "eg_current ?eg = eg_current ?old" "eg_log ?eg = eg_log ?old"
      "eg_next_row_id ?eg = eg_next_row_id ?old" "eg_attempts ?eg = eg_attempts ?old" by (simp_all split: sum.split)
  qed
  have other: "fst res \<noteq> fst y \<and> {base (snd res)..<range_end (snd res)} \<inter> {base (snd y)..<range_end (snd y)} = {}"
    if "j \<noteq> i" "sy_phase sy j = Some q" "reservation q = Some y" for j q y
    using sys_invD(6) [OF inv, unfolded reservations_disjoint_def, rule_format, of i j "Reserved tx ts res" q res y] that ph by simp
  show "keeps content good (attempt_keys (fst res)) (eg_store ?old) (eg_store eg)" using F by (simp add: res)
  show "attempt_keys (fst res) \<inter> manifest_keys (sn_manifest (eg_current ?old)) = {}"
    using po(2) by (simp add: reservation_ok_def Let_def Int_commute)
  show "sys_inv content good env (advance i ?p ?eg sy)"
  proof (rule sys_inv_frame [OF inv, where touched = "attempt_keys a"])
    show "keeps content good (attempt_keys a) (eg_store ?old) (eg_store ?eg)" using F eg(1) by simp
    show "attempt_keys a \<inter> manifest_keys (sn_manifest (eg_current ?old)) = {}"
      using po(2) by (simp add: reservation_ok_def Let_def res Int_commute)
  next
    fix j q x assume j: "j \<noteq> i" "sy_phase sy j = Some q" "reservation q = Some x"
    obtain tx' where "reservation_ok ?old tx' x" using reservation_in_flight [OF inv j(2,3)] by blast
    then have "is_u64 (fst x)" "is_u64 a" "a \<noteq> fst x"
      using po(2) other [OF j] by (simp_all add: reservation_ok_def Let_def res)
    then show "attempt_keys a \<inter> attempt_keys (fst x) = {}" using attempt_keys_disjoint by blast
  next
    have "reservation_ok ?eg tx res" using po(2) eg by (simp add: reservation_ok_def Let_def)
    moreover have "prepared_ok (content (eg_store eg)) env tx ts (Some res) (fst out) (snd out)" if "r = Inr out" for out
      using F that by (cases out) (simp add: prepared_ok_def res)
    ultimately show "phase_ok content env (advance i ?p ?eg sy) ?p"
      using po(1) eg(1) by (cases r) (simp_all add: phase_ok_def txn_ok_advance)
  next
    fix x j q y assume "reservation ?p = Some x" "j \<noteq> i" "sy_phase sy j = Some q" "reservation q = Some y"
    then show "fst x \<noteq> fst y \<and> {base (snd x)..<range_end (snd x)} \<inter> {base (snd y)..<range_end (snd y)} = {}"
      using other by (cases r) auto
  qed (use eg sys_invD(2,3) [OF inv] in auto)
qed

lemma commit_manifest_keeps:
  "good s \<Longrightarrow> commit_manifest_with (en_codecs env) (en_owner env) m s = (ru, t) \<Longrightarrow>
   keeps content good {manifest_object_key (mf_version m)} s t"
  using commit_manifest_effect by (simp add: keeps_def)

lemma rejects_inv:
  fixes i :: nat
  assumes inv: "sys_inv content good env sy" and c: "critical_section env alive tx ts new_files seg (sy_engine sy) = (r, eg)"
    and r: "\<not> published r"
  shows "sys_inv content good env (advance i (Finished r) (finish_commit r eg) sy)"
    and "\<exists>v. keeps content good {manifest_object_key v} (eg_store (sy_engine sy)) (eg_store eg)"
proof -
  let ?old = "sy_engine sy"
  let ?key = "manifest_object_key (sn_version (eg_current ?old) + 1)"
  note g = sys_invD(1) [OF inv]
  obtain s n where s: "eg = ?old\<lparr> eg_store := s, eg_insufficient := n \<rparr>" "s = eg_store ?old \<or>
       (\<exists>ru. commit_manifest_with (en_codecs env) (en_owner env)
          (candidate_manifest ?old tx ts new_files seg (sn_version (eg_current ?old) + 1)) (eg_store ?old) = (ru, s))"
    using c r by (cases rule: critical_section_cases) blast+
  have keep: "keeps content good {?key} (eg_store ?old) s"
    using s(2)
  proof (elim disjE exE conjE)
    fix ru assume "commit_manifest_with (en_codecs env) (en_owner env)
      (candidate_manifest ?old tx ts new_files seg (sn_version (eg_current ?old) + 1)) (eg_store ?old) = (ru, s)"
    from commit_manifest_keeps [OF g this] show ?thesis by simp
  qed (use g in \<open>simp add: keeps_refl\<close>)
  then show "\<exists>v. keeps content good {manifest_object_key v} (eg_store ?old) (eg_store eg)" using s(1) by auto
  show "sys_inv content good env (advance i (Finished r) (finish_commit r eg) sy)"
    by (rule sys_inv_frame [OF inv, where touched = "{?key}"])
      (use keep s(1) sys_invD(2,3) [OF inv] catalog_untouched(3,4) in \<open>auto simp: finished_ok\<close>)
qed

text \<open>The state in which a candidate becomes visible.\<close>

lemma visible_publishable:
  assumes inv: "sys_inv content good env sy" and ph: "sy_phase sy i = Some (Prepared tx ts res new_files seg)"
    and live: "\<forall>row_id\<in>set (tx_write_set tx). owns_live_row (eg_current (sy_engine sy)) row_id"
    and dim: "check_segment_dimension (eg_current (sy_engine sy)) seg = Inr ()"
    and keep: "keeps content good {manifest_object_key v} (eg_store (sy_engine sy)) s"
  shows "publishable (content s) env (sy_engine sy) tx ts res new_files seg"
proof -
  let ?old = "sy_engine sy"
  have po: "txn_ok sy tx" "\<And>x. res = Some x \<Longrightarrow> reservation_ok ?old tx x"
      "prepared_ok (content (eg_store ?old)) env tx ts res new_files seg"
    using sys_invD(5) [OF inv ph] by (simp_all add: phase_ok_def)
  obtain j where j: "j < length (sy_snapshots sy)" "tx_base_snapshot tx = sy_snapshots sy ! j"
    using po(1) by (auto simp: txn_ok_def)
  have "tx_schema tx = sn_schema (eg_current ?old)"
    using sys_invD(11) [OF inv nth_mem [OF j(1)]] po(1) j(2) by (simp add: txn_ok_def staged_ok_def older_def)
  moreover have "prepared_ok (content s) env tx ts res new_files seg"
  proof (rule prepared_ok_cong [OF po(3)], intro allI impI ballI)
    fix x k assume "k \<in> attempt_keys (fst x)" "\<not> temporary k"
    then show "content s k = content (eg_store ?old) k" using keepsD [OF keep, of k] catalog_untouched(4) [of v "fst x"] by blast
  qed
  moreover have "snapshot_ok (content s) env (eg_next_row_id ?old) (eg_attempts ?old) (eg_current ?old)"
  proof (rule snapshot_ok_cong [OF sys_invD(4) [OF inv]])
    show "\<forall>k\<in>manifest_keys (sn_manifest (eg_current ?old)). content s k = content (eg_store ?old) k"
      using keepsD [OF keep] catalog_untouched(3) [of v "sn_manifest (eg_current ?old)"] sys_invD(4) [OF inv]
      unfolding snapshot_ok_def Let_def by blast
  qed simp_all
  ultimately show ?thesis using po(1,2) live dim by (simp add: publishable_def txn_ok_def)
qed

lemma visible_step:
  assumes inv: "sys_inv content good env sy" and ph: "sy_phase sy i = Some (Prepared tx ts res new_files seg)"
    and c: "critical_section env alive tx ts new_files seg (sy_engine sy) = (r, eg)" and r: "published r"
  obtains lease v where "v = sn_version (eg_current (sy_engine sy)) + 1"
    "publishable (content (eg_store eg)) env (sy_engine sy) tx ts res new_files seg"
    "keeps content good {manifest_object_key v} (eg_store (sy_engine sy)) (eg_store eg)"
    "eg_current eg = candidate_snapshot (sy_engine sy) tx ts new_files seg lease v"
    "eg_log eg = push v (tx_write_set tx) (eg_log (sy_engine sy))"
    "eg_next_row_id eg = eg_next_row_id (sy_engine sy)" "eg_attempts eg = eg_attempts (sy_engine sy)"
    "conflicts_with (eg_log (sy_engine sy)) (tx_base_version tx) (sn_version (eg_current (sy_engine sy))) (tx_write_set tx) = Clean"
proof -
  let ?old = "sy_engine sy"
  obtain s ru v reg lease where V: "v = sn_version (eg_current ?old) + 1"
      "\<forall>row_id\<in>set (tx_write_set tx). owns_live_row (eg_current ?old) row_id"
      "check_segment_dimension (eg_current ?old) seg = Inr ()"
      "commit_manifest_with (en_codecs env) (en_owner env) (candidate_manifest ?old tx ts new_files seg v) (eg_store ?old) = (ru, s)"
      "eg = ?old\<lparr> eg_store := s, eg_log := push v (tx_write_set tx) (eg_log ?old), eg_leases := reg,
         eg_current := candidate_snapshot ?old tx ts new_files seg lease v \<rparr>"
      "conflicts_with (eg_log ?old) (tx_base_version tx) (sn_version (eg_current ?old)) (tx_write_set tx) = Clean"
    using c r by (cases rule: critical_section_cases) blast+
  have keep: "keeps content good {manifest_object_key v} (eg_store ?old) s"
    using commit_manifest_keeps [OF sys_invD(1) [OF inv] V(4)] by simp
  show thesis
    by (rule that [OF V(1), of lease])
      (use V(5,6) keep visible_publishable [OF inv ph V(2,3) keep] in simp_all)
qed

lemma publishes_inv:
  assumes inv: "sys_inv content good env sy" and ph: "sy_phase sy i = Some (Prepared tx ts res new_files seg)"
    and c: "critical_section env alive tx ts new_files seg (sy_engine sy) = (r, eg)" and r: "published r"
  shows "sys_inv content good env ((advance i (Finished r) (finish_commit r eg) sy)\<lparr>
       sy_snapshots := sy_snapshots sy @ [eg_current eg], sy_writes := sy_writes sy @ [tx_write_set tx] \<rparr>)"
    (is "sys_inv _ _ _ ?sy")
proof -
  let ?old = "sy_engine sy" and ?v0 = "sn_version (hd (sy_snapshots sy))"
  note D = sys_invD [OF inv]
  obtain lease v where V: "v = sn_version (eg_current ?old) + 1" and
      pub: "publishable (content (eg_store eg)) env ?old tx ts res new_files seg" and
      keep: "keeps content good {manifest_object_key v} (eg_store ?old) (eg_store eg)" and
      eg: "eg_current eg = candidate_snapshot ?old tx ts new_files seg lease v"
        "eg_log eg = push v (tx_write_set tx) (eg_log ?old)"
        "eg_next_row_id eg = eg_next_row_id ?old" "eg_attempts eg = eg_attempts ?old"
    using visible_step [OF inv ph c r] by blast
  let ?new = "candidate_snapshot ?old tx ts new_files seg lease v"
  have older: "older (eg_current ?old) ?new"
    using pub by (simp add: older_def candidate_snapshot_def publishable_def)
  have snaps: "sn_version (sy_snapshots ?sy ! j) = ?v0 + j \<and> older (sy_snapshots ?sy ! j) ?new" if "j < length (sy_snapshots ?sy)" for j
  proof (cases "j < length (sy_snapshots sy)")
    case True
    then show ?thesis using D(10) [OF True] D(11) [OF nth_mem [OF True]] older by (auto simp: nth_append older_def)
  next
    case False
    then have "j = length (sy_snapshots sy)" using that by simp
    then show ?thesis using D(7,12) V by (simp add: nth_append eg(1) candidate_snapshot_def older_def)
  qed
  have phases: "phase_ok content env ?sy q" if q: "sy_phase ?sy j = Some q" for j q
  proof (cases "j = i")
    case True
    then show ?thesis using q by (auto simp: phase_ok_def)
  next
    case False
    then have qj: "sy_phase sy j = Some q" using q by simp
    show ?thesis
    proof (rule phase_ok_transport [OF D(5) [OF qj]])
      fix x k assume "reservation q = Some x" "k \<in> attempt_keys (fst x)" "\<not> temporary k"
      then show "content (eg_store (sy_engine ?sy)) k = content (eg_store ?old) k"
        using keepsD [OF keep, of k] catalog_untouched(4) [of v "fst x"] by auto
    next
      fix x assume x: "reservation q = Some x"
      obtain tx' where rx: "reservation_ok ?old tx' x" using reservation_in_flight [OF inv qj x] by blast
      note di = other_reservation [OF inv ph False qj x]
      have "manifest_keys (sn_manifest ?new) \<inter> attempt_keys (fst x) = {}"
        using candidate_snapshot_ok(2) [OF pub, of lease v] di rx unfolding reservation_ok_def Let_def by blast
      moreover have "rows_owned (mf_data_files (sn_manifest ?new)) \<inter> {base (snd x)..<range_end (snd x)} = {}"
        using candidate_files_ok(2) [OF pub] di rx unfolding reservation_ok_def Let_def by (simp add: candidate_snapshot_def Int_Un_distrib2)
      ultimately show "manifest_keys (sn_manifest (eg_current (sy_engine ?sy))) \<inter> attempt_keys (fst x) = {} \<and>
          rows_owned (mf_data_files (sn_manifest (eg_current (sy_engine ?sy)))) \<inter> {base (snd x)..<range_end (snd x)} = {}"
        by (simp add: eg(1))
    qed (simp_all add: eg)
  qed
  have "log_of ?v0 (sy_writes sy @ [tx_write_set tx]) (push v (tx_write_set tx) (eg_log ?old))"
    using ring_log.record_represents [OF D(9), of "tx_write_set tx"] D(12) V by (simp add: add.commute add.left_commute)
  moreover have "reservations_disjoint (sy_phase ?sy)" using reservations_disjoint_update [OF D(6), of "Finished r" i] by simp
  moreover have "hd (sy_snapshots sy @ [?new]) = hd (sy_snapshots sy)" using D(7) by (cases "sy_snapshots sy") auto
  ultimately show ?thesis
    unfolding sys_inv_def Let_def
    using keeps_good [OF keep] D(2,3,7) snaps phases candidate_snapshot_ok(1) [OF pub, of lease v] by (simp add: eg)
qed

lemma step_inv:
  assumes A: "arrow_lib_spec (en_arrow env)" and inv: "sys_inv content good env sy" and st: "step env sy sy'"
  shows "sys_inv content good env sy'"
  using st inv
proof cases
  case (begins i tx eg)
  then show ?thesis using begins_inv [OF inv] by simp
next
  case (stages i tx oper r tx')
  then show ?thesis using stages_inv [OF inv] by simp
next
  case (stamps i tx now ts eg)
  note t = issue_timestamp_fields [OF stamps(3)]
  have "txn_ok sy tx" using sys_invD(5) [OF inv stamps(2)] by (simp add: phase_ok_def)
  then have "phase_ok content env (advance i (Stamped tx ts) eg sy) (Stamped tx ts)" by (simp add: phase_ok_def txn_ok_advance)
  then show ?thesis unfolding stamps(1) by (intro quiet_step [OF inv]) (use t in simp_all)
next
  case (clock_fails i tx now e eg)
  then show ?thesis using issue_timestamp_fields [OF clock_fails(3)] quiet_step [OF inv] by (simp add: finished_ok)
next
  case (writes_nothing i tx ts)
  have "txn_ok sy tx" using sys_invD(5) [OF inv writes_nothing(2)] by (simp add: phase_ok_def)
  then show ?thesis
    unfolding writes_nothing(1) by (intro quiet_step [OF inv])
      (use writes_nothing in \<open>simp_all add: phase_ok_def txn_ok_advance prepared_ok_def\<close>)
next
  case (reserves i tx ts res eg)
  then show ?thesis using reserves_inv(1) [OF inv reserves(2,4,5)] by simp
next
  case (reservation_fails i tx ts e eg)
  then show ?thesis using reserves_inv(1) [OF inv reservation_fails(2,4,5)] by simp
next
  case (fills i tx ts res new_files seg eg)
  then show ?thesis using fills_inv(1) [OF A inv fills(2,3)] by simp
next
  case (filling_fails i tx ts res e eg)
  then show ?thesis using fills_inv(1) [OF A inv filling_fails(2,3)] by simp
next
  case (publishes i tx ts res new_files seg alive r eg)
  then show ?thesis using publishes_inv [OF inv publishes(2-4)] by simp
next
  case (rejects i tx ts res new_files seg alive r eg)
  then show ?thesis using rejects_inv(1) [OF inv rejects(3,4)] by simp
qed

end

end
