(* ===== verification/SampleDataset.thy ===== *)
theory SampleDataset
  imports Isolation
begin

text \<open>
  A small dataset on which the properties of commits and recovery are evaluated: one row in one
  data file, and a transaction that deletes it.
\<close>

definition sample_logical :: arrow_schema where
  "sample_logical = \<lparr> sch_fields = [field_new ''id'' DTInt64 False], sch_metadata = [] \<rparr>"

definition sample_physical :: record_batch where
  "sample_physical =
     \<lparr> rb_schema = \<lparr> sch_fields = [field_new ''id'' DTInt64 False, field_new ''_row_id'' DTUInt64 False,
                                  field_new ''_timestamp'' DTInt64 False], sch_metadata = [] \<rparr>,
       rb_columns = [PlainArr (Int64Col [Some 7]), PlainArr (UInt64Col [Some 0]), PlainArr (Int64Col [Some 5])],
       rb_num_rows = 1 \<rparr>"

text \<open>An Arrow library that can write and read that batch.\<close>

definition sample_arrow :: arrow_lib where
  "sample_arrow =
     \<lparr> al_row_bytes = (\<lambda>a. None), al_dictionary = (\<lambda>a. None),
       al_try_new = (\<lambda>sch cols. if sch = rb_schema sample_physical \<and> cols = rb_columns sample_physical
                                then Some sample_physical else None),
       al_ipc_write = (\<lambda>b. if b = sample_physical then Some [9] else None),
       al_ipc_read = (\<lambda>bs. if bs = [9] then IpcFirst sample_physical else IpcFailed) \<rparr>"

definition sample_entry :: data_file_entry where
  "sample_entry = \<lparr> df_name = ''00000000000000000000-0.arrow'', df_byte_len = 1, df_crc32c = 8, df_row_count = 1,
     df_row_id_range = Some (0, 0), df_stats = [(''id'', \<lparr> min_v = Int64 7, max_v = Int64 7 \<rparr>)] \<rparr>"

definition sample_base :: manifest where
  "sample_base = \<lparr> mf_version = 1, mf_schema_version = Some 1, mf_schema_ipc = [7], mf_data_files = [sample_entry],
     mf_next_row_id = 1, mf_tombstones = [], mf_next_attempt_id = 1, mf_commit_time_high_water = 5,
     mf_committed_at_us = 5, mf_segments = [] \<rparr>"

definition sample_deleted :: manifest where
  "sample_deleted = sample_base\<lparr> mf_version := 2, mf_tombstones := [0], mf_commit_time_high_water := 6,
     mf_committed_at_us := 6 \<rparr>"

definition dataset_envelope :: manifest_envelope where
  "dataset_envelope = \<lparr> ev_format_version = 1, ev_manifest = sample_deleted, ev_checksum = 8 \<rparr>"

definition dataset_codecs :: codecs where
  "dataset_codecs = \<lparr> cd_json = reference_json (envelope_json dataset_envelope),
     cd_schema = \<lparr> sc_encode = (\<lambda>_. [7]), sc_decode = (\<lambda>_. Some sample_logical) \<rparr>, cd_crc = (\<lambda>_. 8) \<rparr>"

definition sample_build :: "f32 list list \<Rightarrow> (index_error, node_source \<times> segment_params) result" where
  "sample_build vs = Inl SegmentEmpty"

definition sample_env :: "lfs engine_env" where
  "sample_env = local_env dataset_codecs sample_arrow reference_kernels sample_build"

definition dataset_fs :: "(string \<times> bytes) list \<Rightarrow> nat \<Rightarrow> lfs" where
  "dataset_fs versions n =
     \<lparr> root_node = Some (DirN [(''data'', DirN [(''00000000000000000000-0.arrow'', FileN [9])]),
         (''_versions'', DirN (map (\<lambda>(k, b). (k, FileN b)) versions))]),
       tmp_counter = n, pid = 1, faults = [] \<rparr>"

definition sample_snapshot :: snapshot where
  "sample_snapshot = \<lparr> sn_version = 1, sn_lease = \<lparr> ls_id = 0, ls_version = 1 \<rparr>, sn_schema = sample_logical,
     sn_manifest = sample_base, sn_index = [], sn_tombstones = {} \<rparr>"

definition sample_engine :: "lfs engine" where
  "sample_engine = \<lparr> eg_store = dataset_fs [] 0, eg_current = sample_snapshot,
     eg_leases = \<lparr> lr_leases = [\<lparr> ls_id = 0, ls_version = 1 \<rparr>], lr_next_id = 1 \<rparr>, eg_next_row_id = 1, eg_attempts = 1,
     eg_log = new_log 8, eg_insufficient = 0, eg_events = event_log_new 8, eg_last_ts = 5 \<rparr>"

definition sample_delete :: transaction where
  "sample_delete = snd (stage (StageDelete 0) (begin_at sample_snapshot))"

lemma sample_arrow_spec: "arrow_lib_spec sample_arrow"
  by (simp add: arrow_lib_spec_def sample_arrow_def sample_physical_def u64_max_def)

lemma sample_stage:
  "stage (StageDelete 0) (begin_at sample_snapshot) = (Inr (), sample_delete)"
  "sample_delete = (begin_at sample_snapshot)\<lparr> tx_pending_tombstones := [0], tx_write_set := [0] \<rparr>"
  by (simp_all add: sample_delete_def txn_delete_def validate_target_def begin_at_def sample_snapshot_def
      owns_row_def in_row_id_range_def sample_base_def sample_entry_def is_visible_def)

text \<open>Deleting the row publishes \<open>sample_deleted\<close>.\<close>

lemma dataset_encoded: "encode_manifest dataset_codecs sample_deleted = [1]"
proof -
  have "envelope_new dataset_codecs sample_deleted = dataset_envelope"
    by (simp add: envelope_new_def Let_def canonical_checksum_def dataset_codecs_def dataset_envelope_def
        MANIFEST_FORMAT_VERSION_def)
  then show ?thesis by (simp add: encode_manifest_def) (simp add: dataset_codecs_def reference_json_def)
qed

lemma sample_deleted_ok: "manifest_ok sample_deleted" "manifest_exact exact sample_deleted"
  by (simp_all add: manifest_ok_def sample_deleted_def sample_base_def sample_entry_def data_file_ok_def
      stats_list_ok_def is_i64_def manifest_exact_def stats_exact_def)

lemma sample_deleted_limits: "Manifest.manifest_fits dataset_codecs sample_deleted"
proof -
  have ev: "envelope_new dataset_codecs sample_deleted = dataset_envelope"
    by (simp add: envelope_new_def Let_def canonical_checksum_def dataset_codecs_def dataset_envelope_def
        MANIFEST_FORMAT_VERSION_def)
  note d = envelope_json_def dataset_envelope_def sample_deleted_def sample_base_def sample_entry_def manifest_json_def
    data_file_json_def range_json_def stats_json_def column_stats_json_def json_u_def json_i_def
  have limits: "json_within_limits 0 MAX_MANIFEST_ARRAY_ITEMS (envelope_json dataset_envelope)"
    by (simp add: d json_within_limits.simps
        child_array_limit_def MAX_MANIFEST_JSON_DEPTH_def MAX_MANIFEST_OBJECT_FIELDS_def
        MAX_MANIFEST_STRING_BYTES_def MAX_MANIFEST_ARRAY_ITEMS_def MAX_MANIFEST_DATA_FILES_def
        MAX_MANIFEST_SEGMENTS_def MAX_MANIFEST_TOMBSTONES_def MAX_MANIFEST_SCHEMA_IPC_BYTES_def)
  have "json_nodes (envelope_json dataset_envelope) \<le> MAX_MANIFEST_PRE_PARSE_NODES"
    by (simp add: d MAX_MANIFEST_PRE_PARSE_NODES_def)
  then show ?thesis using limits
    by (simp add: Manifest.manifest_fits_def ev dataset_encoded MAX_MANIFEST_BYTES_def)
qed

lemma dataset_json_spec: "json_spec (cd_json dataset_codecs) exact"
  by (simp add: dataset_codecs_def reference_json_spec)

lemma dataset_decodes: "decode_manifest_with_byte_count dataset_codecs 2 [1] = Inr (sample_deleted, 1)"
proof -
  have v: "mf_version sample_deleted = 2" by (simp add: sample_deleted_def)
  have sch: "manifest_schema (cd_schema dataset_codecs) sample_deleted = Inr sample_logical"
    by (simp add: manifest_schema_def sample_deleted_def sample_base_def dataset_codecs_def schema_version_def
        validate_schema_version_def INITIAL_SCHEMA_VERSION_def ADD_NULLABLE_COLUMN_SCHEMA_VERSION_def)
  have "json_spec (cd_json dataset_codecs) (\<lambda>_. True)" by (rule dataset_json_spec)
  from decode_encode_manifest [OF envelope_parses [OF this sample_deleted_ok] sample_deleted_ok(1) sample_deleted_limits sch]
  show ?thesis by (simp add: dataset_encoded v)
qed

lemma dataset_keys:
  "manifest_object_key 2 = ''_versions/00000000000000000002.manifest''" "dec 0 = ''0''" "dec 1 = ''1''"
  by code_simp+

lemma dataset_publication:
  "commit_manifest_with dataset_codecs local_owner sample_deleted (dataset_fs [] 0) =
     (Inr (), dataset_fs [(''00000000000000000002.manifest'', [1])] 1)"
proof -
  have v: "mf_version sample_deleted = 2" by (simp add: sample_deleted_def)
  show ?thesis
    unfolding commit_manifest_with_def Let_def v dataset_encoded dataset_decodes dataset_keys
    by (simp add: local_fs_def owned_def prefixed_def validate_key_components_def dataset_key_new_def
        dataset_keys dataset_fs_def fs_eval AList.delete_eq)
qed

lemma sample_candidate: "candidate_manifest sample_engine sample_delete 6 [] None 2 = sample_deleted"
  by (simp add: candidate_manifest_def sample_engine_def sample_stage(2) begin_at_def sample_snapshot_def
      sample_base_def sample_deleted_def)

end
