(* ===== verification/SnapshotIsolation.thy ===== *)
theory SnapshotIsolation
  imports SampleDataset
begin

text \<open>
  Commits refine first-committer-wins snapshot isolation: the abstract state is the list of the
  versions of a table, each the rows it shows, and a commit appends a version.  Also: a rejected
  commit names exactly the contested rows, a commit always returns, and what staging keeps.
\<close>

section \<open>Specification\<close>

record si_state =
  si_versions :: "(nat \<times> row) list list"
  si_writes :: "nat set list"

text \<open>A commit of a transaction that started from version \<open>b\<close>, removes the rows \<open>W\<close> and adds the
  rows \<open>added\<close>: no version after \<open>b\<close> wrote a row of \<open>W\<close>, the rows of \<open>W\<close> are shown by the base and
  by the newest version, and the new rows have ids no version has.\<close>

definition si_commit :: "nat \<Rightarrow> nat set \<Rightarrow> (nat \<times> row) list \<Rightarrow> si_state \<Rightarrow> si_state \<Rightarrow> bool" where
  "si_commit b W added st st' \<longleftrightarrow>
     b < length (si_versions st) \<and>
     (\<forall>j. b \<le> j \<longrightarrow> j < length (si_writes st) \<longrightarrow> si_writes st ! j \<inter> W = {}) \<and>
     W \<subseteq> fst ` set (si_versions st ! b) \<and> W \<subseteq> fst ` set (last (si_versions st)) \<and>
     distinct (map fst added) \<and> (\<forall>rows\<in>set (si_versions st). fst ` set added \<inter> fst ` set rows = {}) \<and>
     st' = \<lparr> si_versions = si_versions st @ [filter (\<lambda>(r, _). r \<notin> W) (last (si_versions st)) @ added],
             si_writes = si_writes st @ [W] \<rparr>"

definition si_abs :: "('s \<Rightarrow> string \<Rightarrow> bytes option) \<Rightarrow> 's engine_env \<Rightarrow> 's system \<Rightarrow> si_state" where
  "si_abs content env sy =
     \<lparr> si_versions = map (visible_rows (content (eg_store (sy_engine sy))) (en_arrow env)) (sy_snapshots sy),
       si_writes = map set (sy_writes sy) \<rparr>"

section \<open>Versions never change\<close>

lemma visible_rows_cong:
  assumes "\<forall>f\<in>set (mf_data_files (sn_manifest sn)). t (''data/'' @ df_name f) = s (''data/'' @ df_name f)"
  shows "visible_rows t A sn = visible_rows s A sn"
proof -
  have "map (file_rows t A) (mf_data_files (sn_manifest sn)) = map (file_rows s A) (mf_data_files (sn_manifest sn))"
    by (rule map_cong [OF refl], rule file_rows_cong) (use assms in blast)
  then show ?thesis by (simp only: visible_rows_def)
qed

lemma older_rows_stable:
  assumes inv: "sys_inv content good env sy" and sn: "sn \<in> set (sy_snapshots sy)"
    and keep: "keeps content good touched (eg_store (sy_engine sy)) s"
    and cat: "touched \<inter> manifest_keys (sn_manifest (eg_current (sy_engine sy))) = {}"
  shows "visible_rows (content s) A sn = visible_rows (content (eg_store (sy_engine sy))) A sn"
proof (rule visible_rows_cong, intro ballI)
  fix f assume "f \<in> set (mf_data_files (sn_manifest sn))"
  then have "''data/'' @ df_name f \<in> manifest_keys (sn_manifest (eg_current (sy_engine sy)))"
    using sys_invD(11) [OF inv sn] unfolding older_def manifest_keys_def by blast
  then show "content s (''data/'' @ df_name f) = content (eg_store (sy_engine sy)) (''data/'' @ df_name f)"
    using keepsD [OF keep] cat sys_invD(4) [OF inv] unfolding snapshot_ok_def Let_def by blast
qed

lemma si_abs_advance:
  assumes inv: "sys_inv content good env sy" and keep: "keeps content good touched (eg_store (sy_engine sy)) (eg_store eg)"
    and cat: "touched \<inter> manifest_keys (sn_manifest (eg_current (sy_engine sy))) = {}"
  shows "si_abs content env (advance i p eg sy) = si_abs content env sy"
  using older_rows_stable [OF inv _ keep cat] by (simp add: si_abs_def)

lemma older_ids:
  assumes so: "snapshot_ok objects env n a cur" and older: "older sn cur"
  shows "fst ` set (visible_rows objects (en_arrow env) sn) = {r. owns_live_row sn r}"
proof -
  let ?fs = "mf_data_files (sn_manifest sn)"
  have "\<forall>f\<in>set ?fs. map fst (file_rows objects (en_arrow env) f) = entry_ids f"
    using so older unfolding snapshot_ok_def Let_def older_def by blast
  then have "map (map fst) (map (file_rows objects (en_arrow env)) ?fs) = map entry_ids ?fs" by simp
  then have "map fst (concat (map (file_rows objects (en_arrow env)) ?fs)) = concat (map entry_ids ?fs)"
    by (simp only: map_concat)
  then have "fst ` set (concat (map (file_rows objects (en_arrow env)) ?fs)) = rows_owned ?fs"
    unfolding rows_owned_def by (metis list.set_map)
  then have ids: "fst ` set (concat (map (file_rows objects (en_arrow env)) ?fs)) = rows_owned ?fs" .
  have "fst ` set (filter (\<lambda>(r, _). is_visible sn r) xs) = {r \<in> fst ` set xs. is_visible sn r}" for xs :: "(nat \<times> row) list"
    by (auto simp: image_iff)
  then have "fst ` set (visible_rows objects (en_arrow env) sn) = {r \<in> rows_owned ?fs. is_visible sn r}"
    unfolding visible_rows_def ids [symmetric] by blast
  then show ?thesis by (simp add: owns_live_row_def owns_row_iff)
qed

lemma new_row_ids:
  assumes pub: "publishable objects env eg tx ts res new_files seg"
  shows "fst ` set (enumerated_from (res_base res) (tx_pending tx)) = res_rows res"
proof -
  have p: "prepared_ok objects env tx ts res new_files seg" using pub by (simp add: publishable_def)
  have "fst ` set (enumerated_from (res_base res) (tx_pending tx)) = {res_base res..<res_base res + row_total (tx_pending tx)}"
    using arg_cong [OF enumerated_from_ids, of set] by simp
  then show ?thesis using p publishableD(7) [OF pub]
    by (cases res) (auto simp: res_base_def res_rows_def prepared_ok_def range_end_def)
qed

section \<open>Refinement\<close>

context engine_store
begin

lemma candidate_commit:
  assumes inv: "sys_inv content good env sy" and ph: "sy_phase sy i = Some (Prepared tx ts res new_files seg)"
    and pub: "publishable (content s) env (sy_engine sy) tx ts res new_files seg"
    and keep: "keeps content good {manifest_object_key v} (eg_store (sy_engine sy)) s"
    and clean: "conflicts_with (eg_log (sy_engine sy)) (tx_base_version tx) (sn_version (eg_current (sy_engine sy))) (tx_write_set tx) = Clean"
  shows "si_commit (tx_base_version tx - sn_version (hd (sy_snapshots sy))) (set (tx_write_set tx))
    (enumerated_from (res_base res) (tx_pending tx)) (si_abs content env sy)
    \<lparr> si_versions = map (visible_rows (content s) (en_arrow env)) (sy_snapshots sy) @
        [visible_rows (content s) (en_arrow env) (candidate_snapshot (sy_engine sy) tx ts new_files seg lease v)],
      si_writes = map set (sy_writes sy) @ [set (tx_write_set tx)] \<rparr>"
proof -
  let ?old = "sy_engine sy" and ?A = "en_arrow env" and ?v0 = "sn_version (hd (sy_snapshots sy))" and ?W = "tx_write_set tx"
  let ?objs = "content s" and ?new = "enumerated_from (res_base res) (tx_pending tx)"
  note D = sys_invD [OF inv]
  have tx: "txn_ok sy tx" using D(5) [OF ph] by (simp add: phase_ok_def)
  then obtain j where j: "j < length (sy_snapshots sy)" "tx_base_snapshot tx = sy_snapshots sy ! j" by (auto simp: txn_ok_def)
  have bv: "tx_base_version tx = ?v0 + j" using tx D(10) [OF j(1)] j(2) by (simp add: txn_ok_def staged_ok_def)
  have stable: "visible_rows ?objs ?A sn = visible_rows (content (eg_store ?old)) ?A sn" if "sn \<in> set (sy_snapshots sy)" for sn
    by (rule older_rows_stable [OF inv that keep catalog_untouched(3)])
  have ids: "fst ` set (visible_rows ?objs ?A sn) = {r. owns_live_row sn r}" if "sn \<in> set (sy_snapshots sy)" for sn
    using older_ids [OF _ D(11) [OF that]] pub unfolding publishable_def by blast
  have ne: "sy_snapshots sy \<noteq> []" using j(1) by auto
  have versions: "si_versions (si_abs content env sy) = map (visible_rows ?objs ?A) (sy_snapshots sy)"
    using stable by (simp add: si_abs_def)
  have last: "last (si_versions (si_abs content env sy)) = visible_rows ?objs ?A (eg_current ?old)"
    unfolding versions using ne D(8) by (simp add: last_map)
  have cur: "eg_current ?old \<in> set (sy_snapshots sy)" using last_in_set [OF ne] D(8) by simp
  have "si_writes (si_abs content env sy) ! k \<inter> set ?W = {}" if "j \<le> k" "k < length (si_writes (si_abs content env sy))" for k
  proof -
    have "set (sy_writes sy ! (?v0 + k + 1 - ?v0 - 1)) \<inter> set ?W = {}"
      by (rule ring_log.check_clean [OF D(9), of "?v0 + j"]) (use clean D(12) bv that in \<open>simp_all add: si_abs_def\<close>)
    then show ?thesis using that by (simp add: si_abs_def)
  qed
  moreover have "set ?W \<subseteq> fst ` set (si_versions (si_abs content env sy) ! j)"
    using tx j ids [OF nth_mem [OF j(1)]] unfolding versions by (auto simp: txn_ok_def staged_ok_def)
  moreover have "set ?W \<subseteq> fst ` set (last (si_versions (si_abs content env sy)))"
    unfolding last ids [OF cur] using pub by (auto simp: publishable_def)
  moreover have "distinct (map fst ?new)" by (simp add: enumerated_from_ids)
  moreover have "fst ` set ?new \<inter> fst ` set rows = {}" if rows: "rows \<in> set (si_versions (si_abs content env sy))" for rows
  proof -
    obtain sn where sn: "sn \<in> set (sy_snapshots sy)" "rows = visible_rows ?objs ?A sn" using rows unfolding versions by auto
    have "fst ` set rows \<subseteq> rows_owned (mf_data_files (sn_manifest (eg_current ?old)))"
      using ids [OF sn(1)] D(11) [OF sn(1)] unfolding sn(2) older_def owns_live_row_def owns_row_iff rows_owned_def by auto
    then show ?thesis using publishableD(1) [OF pub] new_row_ids [OF pub] by blast
  qed
  moreover have "\<lparr> si_versions = map (visible_rows ?objs ?A) (sy_snapshots sy) @
        [visible_rows ?objs ?A (candidate_snapshot ?old tx ts new_files seg lease v)],
      si_writes = map set (sy_writes sy) @ [set ?W] \<rparr> =
      \<lparr> si_versions = si_versions (si_abs content env sy) @
          [filter (\<lambda>(r, _). r \<notin> set ?W) (last (si_versions (si_abs content env sy))) @ ?new],
        si_writes = si_writes (si_abs content env sy) @ [set ?W] \<rparr>"
  proof -
    have "si_writes (si_abs content env sy) = map set (sy_writes sy)" by (simp add: si_abs_def)
    then show ?thesis by (simp only: versions [symmetric] last candidate_visible_rows [OF pub])
  qed
  ultimately show ?thesis
    unfolding si_commit_def bv using j(1) by (simp add: versions)
qed

lemma publish_refines:
  assumes inv: "sys_inv content good env sy" and ph: "sy_phase sy i = Some (Prepared tx ts res new_files seg)"
    and c: "critical_section env alive tx ts new_files seg (sy_engine sy) = (r, eg)" and r: "published r"
    and sy': "sy' = (advance i (Finished r) (finish_commit r eg) sy)\<lparr>
       sy_snapshots := sy_snapshots sy @ [eg_current eg], sy_writes := sy_writes sy @ [tx_write_set tx] \<rparr>"
  shows "si_commit (tx_base_version tx - sn_version (hd (sy_snapshots sy))) (set (tx_write_set tx))
    (enumerated_from (res_base res) (tx_pending tx)) (si_abs content env sy) (si_abs content env sy')"
proof -
  obtain lease v where pub: "publishable (content (eg_store eg)) env (sy_engine sy) tx ts res new_files seg" and
      keep: "keeps content good {manifest_object_key v} (eg_store (sy_engine sy)) (eg_store eg)" and
      eg: "eg_current eg = candidate_snapshot (sy_engine sy) tx ts new_files seg lease v" and
      clean: "conflicts_with (eg_log (sy_engine sy)) (tx_base_version tx) (sn_version (eg_current (sy_engine sy))) (tx_write_set tx) = Clean"
    using visible_step [OF inv ph c r] by blast
  from candidate_commit [OF inv ph pub keep clean, of lease] show ?thesis
    by (simp add: sy' si_abs_def eg)
qed

lemma step_store_frame:
  assumes A: "arrow_lib_spec (en_arrow env)" and inv: "sys_inv content good env sy" and st: "step env sy sy'"
    and same: "sy_snapshots sy' = sy_snapshots sy"
  shows "si_abs content env sy' = si_abs content env sy"
  using st
proof cases
  case (stamps i tx now ts eg)
  then show ?thesis using issue_timestamp_fields [OF stamps(3)] by (simp add: si_abs_def)
next
  case (clock_fails i tx now e eg)
  then show ?thesis using issue_timestamp_fields [OF clock_fails(3)] by (simp add: si_abs_def)
next
  case (reserves i tx ts res eg)
  then show ?thesis using si_abs_advance [OF inv reserves_inv(2) [OF inv reserves(2,4,5)] catalog_untouched(1)] by simp
next
  case (reservation_fails i tx ts e eg)
  then show ?thesis
    using si_abs_advance [OF inv _ catalog_untouched(1), of "finish_commit (Inl e) eg"]
      reserves_inv(2) [OF inv reservation_fails(2,4,5)] by simp
next
  case (fills i tx ts res new_files seg eg)
  then show ?thesis using si_abs_advance [OF inv fills_inv(2,3) [OF A inv fills(2,3)]] by simp
next
  case (filling_fails i tx ts res e eg)
  then show ?thesis
    using si_abs_advance [OF inv _ fills_inv(3) [OF A inv filling_fails(2,3)], of "finish_commit (Inl e) eg"]
      fills_inv(2) [OF A inv filling_fails(2,3)] by simp
next
  case (publishes i tx ts res new_files seg alive r eg)
  then show ?thesis using same by simp
next
  case (rejects i tx ts res new_files seg alive r eg)
  obtain v where "keeps content good {manifest_object_key v} (eg_store (sy_engine sy)) (eg_store (finish_commit r eg))"
    using rejects_inv(2) [OF inv rejects(3,4)] by auto
  from si_abs_advance [OF inv this catalog_untouched(3)] show ?thesis unfolding rejects(1) .
qed (auto simp: si_abs_def dataset_begin_def record_event_def)

end

lemma writes_after:
  "(\<Union>v\<in>{b + j<..b + length h}. set (h ! (v - b - 1))) = \<Union> (set ` set (drop j h))" (is "?L = ?R")
proof (intro equalityI subsetI)
  fix x assume "x \<in> ?L"
  then obtain v where v: "b + j < v" "v \<le> b + length h" "x \<in> set (h ! (v - b - 1))" by auto
  then have "h ! (v - b - 1) = drop j h ! (v - b - 1 - j)" by simp
  moreover have "drop j h ! (v - b - 1 - j) \<in> set (drop j h)" using v by (intro nth_mem) simp
  ultimately show "x \<in> ?R" using v(3) by auto
next
  fix x assume "x \<in> ?R"
  then obtain ws where "ws \<in> set (drop j h)" "x \<in> set ws" by auto
  then obtain k where k: "k < length (drop j h)" "x \<in> set (drop j h ! k)" by (metis in_set_conv_nth)
  then show "x \<in> ?L" by (intro UN_I [of "b + j + k + 1"]) (simp_all add: less_diff_conv add.commute)
qed

section \<open>Runs from an open dataset\<close>

definition opened :: "('s \<Rightarrow> string \<Rightarrow> bytes option) \<Rightarrow> ('s \<Rightarrow> bool) \<Rightarrow> 's engine_env \<Rightarrow> 's engine \<Rightarrow> bool" where
  "opened content good env eg \<longleftrightarrow>
     good (eg_store eg) \<and> is_u64 (eg_next_row_id eg) \<and> is_u64 (eg_attempts eg) \<and>
     log_of (sn_version (eg_current eg)) [] (eg_log eg) \<and>
     snapshot_ok (content (eg_store eg)) env (eg_next_row_id eg) (eg_attempts eg) (eg_current eg)"

definition start :: "'s engine \<Rightarrow> 's system" where
  "start eg = \<lparr> sy_engine = eg, sy_phase = Map.empty, sy_snapshots = [eg_current eg], sy_writes = [] \<rparr>"

text \<open>Tombstones come from write sets only.\<close>

definition tombs_inv :: "'s system \<Rightarrow> bool" where
  "tombs_inv sy \<longleftrightarrow> (\<forall>j<length (sy_snapshots sy).
     sn_tombstones (sy_snapshots sy ! j) = sn_tombstones (hd (sy_snapshots sy)) \<union> \<Union> (set ` set (take j (sy_writes sy))))"

lemma start_inv: "opened content good env eg \<Longrightarrow> sys_inv content good env (start eg) \<and> tombs_inv (start eg)"
  by (simp add: opened_def start_def sys_inv_def tombs_inv_def older_def reservations_disjoint_def)

lemma older_mono: "older sn cur \<Longrightarrow> owns_row sn r \<Longrightarrow> owns_row cur r"
  by (auto simp: older_def owns_row_iff rows_owned_def)

context engine_store
begin

lemma publish_tombs:
  assumes inv: "sys_inv content good env sy" and ti: "tombs_inv sy"
    and ph: "sy_phase sy i = Some (Prepared tx ts res new_files seg)"
    and c: "critical_section env alive tx ts new_files seg (sy_engine sy) = (r, eg)" and r: "published r"
  shows "tombs_inv ((advance i (Finished r) (finish_commit r eg) sy)\<lparr>
       sy_snapshots := sy_snapshots sy @ [eg_current eg], sy_writes := sy_writes sy @ [tx_write_set tx] \<rparr>)"
    (is "tombs_inv ?sy")
proof -
  note D = sys_invD [OF inv]
  obtain lease v where pub: "publishable (content (eg_store eg)) env (sy_engine sy) tx ts res new_files seg" and
      eg: "eg_current eg = candidate_snapshot (sy_engine sy) tx ts new_files seg lease v"
    using visible_step [OF inv ph c r] by blast
  have ne: "sy_snapshots sy \<noteq> []" using D(7) by auto
  have "eg_current (sy_engine sy) = sy_snapshots sy ! length (sy_writes sy)"
    using D(7,8) last_conv_nth [OF ne] by simp
  then have "sn_tombstones (eg_current (sy_engine sy)) = sn_tombstones (hd (sy_snapshots sy)) \<union> \<Union> (set ` set (sy_writes sy))"
    using ti D(7) by (simp add: tombs_inv_def)
  then have new: "sn_tombstones (eg_current eg) = sn_tombstones (hd (sy_snapshots sy)) \<union>
      \<Union> (set ` set (take (length (sy_snapshots sy)) (sy_writes sy @ [tx_write_set tx])))"
    using candidate_tombstones(1) [OF pub, of lease v] D(7) by (auto simp: eg)
  show ?thesis
    unfolding tombs_inv_def
  proof (intro allI impI)
    fix j assume "j < length (sy_snapshots ?sy)"
    then have "j < length (sy_snapshots sy) \<or> j = length (sy_snapshots sy)" by auto
    then show "sn_tombstones (sy_snapshots ?sy ! j) =
      sn_tombstones (hd (sy_snapshots ?sy)) \<union> \<Union> (set ` set (take j (sy_writes ?sy)))"
      using ti ne new D(7) by (auto simp: tombs_inv_def nth_append)
  qed
qed

lemma run_inv:
  assumes A: "arrow_lib_spec (en_arrow env)" and o: "opened content good env eg" and run: "(step env)\<^sup>*\<^sup>* (start eg) sy"
  shows "sys_inv content good env sy \<and> tombs_inv sy \<and> hd (sy_snapshots sy) = eg_current eg"
  using run
proof (induction rule: rtranclp_induct)
  case base
  then show ?case using start_inv [OF o] by (simp add: start_def)
next
  case (step sy sy')
  note inv = step.IH [THEN conjunct1] and ti = step.IH [THEN conjunct2, THEN conjunct1]
  have ne: "sy_snapshots sy \<noteq> []" using sys_invD(7) [OF inv] by auto
  have "tombs_inv sy' \<and> hd (sy_snapshots sy') = hd (sy_snapshots sy)"
    using step(2)
  proof cases
    case (publishes i tx ts res new_files seg alive r eg)
    then show ?thesis using publish_tombs [OF inv ti publishes(2-4)] ne by simp
  qed (use ti in \<open>simp_all add: tombs_inv_def\<close>)
  then show ?case using step_inv [OF A inv step(2)] step.IH by simp
qed

text \<open>The check that the rows are still live never fires after a clean answer of the commit log.\<close>

lemma clean_rows_live:
  assumes inv: "sys_inv content good env sy" and ti: "tombs_inv sy"
    and ph: "sy_phase sy i = Some (Prepared tx ts res new_files seg)"
    and clean: "conflicts_with (eg_log (sy_engine sy)) (tx_base_version tx) (sn_version (eg_current (sy_engine sy))) (tx_write_set tx) = Clean"
    and r: "r \<in> set (tx_write_set tx)"
  shows "owns_live_row (eg_current (sy_engine sy)) r"
proof -
  let ?v0 = "sn_version (hd (sy_snapshots sy))"
  note D = sys_invD [OF inv]
  have tx: "txn_ok sy tx" using D(5) [OF ph] by (simp add: phase_ok_def)
  then obtain j where j: "j < length (sy_snapshots sy)" "tx_base_snapshot tx = sy_snapshots sy ! j" by (auto simp: txn_ok_def)
  have bv: "tx_base_version tx = ?v0 + j" using tx D(10) [OF j(1)] j(2) by (simp add: txn_ok_def staged_ok_def)
  have base: "owns_live_row (sy_snapshots sy ! j) r" using tx r j(2) by (auto simp: txn_ok_def staged_ok_def)
  have "eg_current (sy_engine sy) = sy_snapshots sy ! length (sy_writes sy)"
    using D(7,8) last_conv_nth [of "sy_snapshots sy"] by fastforce
  then have cur: "sn_tombstones (eg_current (sy_engine sy)) = sn_tombstones (hd (sy_snapshots sy)) \<union> \<Union> (set ` set (sy_writes sy))"
    using ti D(7) by (simp add: tombs_inv_def)
  have "r \<notin> set ws" if "ws \<in> set (drop j (sy_writes sy))" for ws
  proof -
    obtain k where "k < length (drop j (sy_writes sy))" "ws = drop j (sy_writes sy) ! k"
      using \<open>ws \<in> set (drop j (sy_writes sy))\<close> by (metis in_set_conv_nth)
    then have k: "j + k < length (sy_writes sy)" "ws = sy_writes sy ! (j + k)" by (simp_all add: less_diff_conv add.commute)
    have "set (sy_writes sy ! (?v0 + (j + k) + 1 - ?v0 - 1)) \<inter> set (tx_write_set tx) = {}"
      by (rule ring_log.check_clean [OF D(9), of "?v0 + j"]) (use clean D(12) bv k(1) in simp_all)
    then show ?thesis using r k(2) by auto
  qed
  moreover have "r \<notin> set ws" if "ws \<in> set (take j (sy_writes sy))" for ws
    using base ti j(1) that by (auto simp: tombs_inv_def owns_live_row_def is_visible_def)
  moreover have "r \<notin> sn_tombstones (hd (sy_snapshots sy))"
    using base ti j(1) by (auto simp: tombs_inv_def owns_live_row_def is_visible_def)
  moreover have "set (sy_writes sy) = set (take j (sy_writes sy)) \<union> set (drop j (sy_writes sy))"
    by (metis append_take_drop_id set_append)
  ultimately have "is_visible (eg_current (sy_engine sy)) r" unfolding is_visible_def cur by auto
  then show ?thesis
    using older_mono [OF D(11) [OF nth_mem [OF j(1)]]] base by (simp add: owns_live_row_def)
qed

lemma run_step_refines:
  assumes A: "arrow_lib_spec (en_arrow env)" and o: "opened content good env eg"
    and run: "(step env)\<^sup>*\<^sup>* (start eg) sy" and st: "step env sy sy'"
  shows "(\<forall>i r. sy_phase sy' i = Some (Finished r) \<longrightarrow> sy_phase sy i \<noteq> sy_phase sy' i \<longrightarrow>
      (case sy_phase sy i of
         Some (Prepared tx ts res new_files seg) \<Rightarrow>
           if published r
           then si_commit (tx_base_version tx - sn_version (eg_current eg)) (set (tx_write_set tx))
             (enumerated_from (res_base res) (tx_pending tx)) (si_abs content env sy) (si_abs content env sy')
           else si_abs content env sy' = si_abs content env sy
       | _ \<Rightarrow> r \<noteq> Inr () \<and> si_abs content env sy' = si_abs content env sy)) \<and>
    ((\<forall>i r. sy_phase sy' i = Some (Finished r) \<longrightarrow> sy_phase sy i = sy_phase sy' i) \<longrightarrow>
       si_abs content env sy' = si_abs content env sy)"
proof -
  note I = run_inv [OF A o run]
  note inv = I [THEN conjunct1]
  have quiet: "sy_snapshots sy' = sy_snapshots sy \<Longrightarrow> si_abs content env sy' = si_abs content env sy"
    by (rule step_store_frame [OF A inv st])
  show ?thesis
    using st
  proof cases
    case (publishes i tx ts res new_files seg alive r eg')
    from publish_refines [OF inv publishes(2-4,1)] show ?thesis
      using publishes I by auto
  next
    case (rejects i tx ts res new_files seg alive r eg')
    then show ?thesis using quiet by auto
  qed (use quiet in \<open>auto split: option.split phase.split\<close>)
qed

lemma conflict_rows:
  assumes inv: "sys_inv content good env sy" and ti: "tombs_inv sy"
    and ph: "sy_phase sy i = Some (Prepared tx ts res new_files seg)"
    and c: "critical_section env alive tx ts new_files seg (sy_engine sy) = (Inl (TxnConflict rows), eg')"
  shows "rows \<noteq> [] \<and> distinct rows \<and> set rows = set (tx_write_set tx) \<inter>
    \<Union> (set ` set (drop (tx_base_version tx - sn_version (hd (sy_snapshots sy))) (sy_writes sy)))"
proof -
  let ?old = "sy_engine sy" and ?v0 = "sn_version (hd (sy_snapshots sy))"
  note D = sys_invD [OF inv]
  have tx: "txn_ok sy tx" using D(5) [OF ph] by (simp add: phase_ok_def)
  then obtain j where j: "j < length (sy_snapshots sy)" "tx_base_snapshot tx = sy_snapshots sy ! j" by (auto simp: txn_ok_def)
  have bv: "tx_base_version tx = ?v0 + j" using tx D(10) [OF j(1)] j(2) by (simp add: txn_ok_def staged_ok_def)
  let ?check = "conflicts_with (eg_log ?old) (tx_base_version tx) (sn_version (eg_current ?old)) (tx_write_set tx)"
  have "find (\<lambda>row_id. \<not> owns_live_row (eg_current ?old) row_id) (tx_write_set tx) = None" if "?check = Clean"
    using clean_rows_live [OF inv ti ph that] by (auto simp: find_None_iff)
  then have chk: "?check = Conflict rows"
    using c by (auto simp: critical_section_def Let_def check_segment_dimension_def publish_candidate_def
        split: if_splits conflict_check.splits option.splits sum.splits prod.splits storage_error.splits)
  have up: "sn_version (eg_current ?old) = ?v0 + length (sy_writes sy)" by (rule D(12))
  note cc = ring_log.check_conflict [OF D(9), of "?v0 + j" "tx_write_set tx" rows]
  show ?thesis using cc chk up bv writes_after [where b = ?v0 and j = j and h = "sy_writes sy"] by simp
qed

end

section \<open>A sample run\<close>

text \<open>Two transactions delete the same row; the first one is about to publish.\<close>

definition sample_events :: event_log where
  "sample_events = event_record TransactionBegan EvSucceeded (event_record TransactionBegan EvSucceeded (event_log_new 8))"

definition sample_staged :: "lfs system" where
  "sample_staged = \<lparr> sy_engine = sample_engine\<lparr> eg_events := sample_events \<rparr>,
     sy_phase = [0 \<mapsto> Staging sample_delete, 1 \<mapsto> Staging sample_delete],
     sy_snapshots = [sample_snapshot], sy_writes = [] \<rparr>"

definition sample_prepared :: "lfs system" where
  "sample_prepared = \<lparr> sy_engine = sample_engine\<lparr> eg_events := sample_events, eg_last_ts := 6 \<rparr>,
     sy_phase = [0 \<mapsto> Prepared sample_delete 6 None [] None, 1 \<mapsto> Prepared sample_delete 6 None [] None],
     sy_snapshots = [sample_snapshot], sy_writes = [] \<rparr>"

definition sample_next :: snapshot where
  "sample_next = \<lparr> sn_version = 2, sn_lease = \<lparr> ls_id = 1, ls_version = 2 \<rparr>, sn_schema = sample_logical,
     sn_manifest = sample_deleted, sn_index = [], sn_tombstones = {0} \<rparr>"

definition sample_after :: "lfs engine" where
  "sample_after = sample_engine\<lparr> eg_store := dataset_fs [(''00000000000000000002.manifest'', [1])] 1,
     eg_events := sample_events, eg_last_ts := 6, eg_log := push 2 [0] (new_log 8),
     eg_leases := \<lparr> lr_leases = [\<lparr> ls_id = 0, ls_version = 1 \<rparr>, \<lparr> ls_id = 1, ls_version = 2 \<rparr>], lr_next_id = 2 \<rparr>,
     eg_current := sample_next \<rparr>"

definition sample_published :: "lfs system" where
  "sample_published = (advance 0 (Finished (Inr ())) (finish_commit (Inr ()) sample_after) sample_prepared)\<lparr>
     sy_snapshots := [sample_snapshot, sample_next], sy_writes := [[0]] \<rparr>"

lemma sample_path:
  "path_of ''data/00000000000000000000-0.arrow'' = [''data'', ''00000000000000000000-0.arrow'']"
  "validate_key ''data/00000000000000000000-0.arrow'' = Inr ()"
  by code_simp+

lemma sample_object: "owner_content (dataset_fs vs n) ''data/00000000000000000000-0.arrow'' = Some [9]"
  using sample_path by (simp add: owned_content_def prefixed_def lfs_content_def files_def file_at_def dataset_fs_def)

lemma sample_good: "lfs_good (dataset_fs [] n)"
  by (simp add: lfs_good_def dataset_fs_def wf_node.simps(3) good_name_def unsafe_segment_def)

lemma sample_name: "data_file_name 0 0 = ''00000000000000000000-0.arrow''"
  by code_simp

lemma sample_listed: "listed_name ''00000000000000000000-0.arrow''" "\<not> temporary ''data/00000000000000000000-0.arrow''"
  using attempt_name_ok(1,2) [of 0 0] unfolding sample_name by simp_all

lemmas sample_schema_eval = sample_logical_def sample_physical_def field_new_def HIDDEN_COLUMNS_def ROW_ID_COLUMN_def
  TIMESTAMP_COLUMN_def schema_index_of_def

lemma sample_file_ok:
  "file_ok (owner_content (dataset_fs vs n)) sample_arrow (\<lambda>_. 8) sample_logical sample_entry"
  "file_rows (owner_content (dataset_fs vs n)) sample_arrow sample_entry = [(0, [(''id'', CInt (Some 7))])]"
proof -
  have "check_data_file sample_arrow (\<lambda>_. 8) sample_logical sample_entry [9] {} = Inr {0}"
    by (simp add: check_data_file_def sample_entry_def read_batch_from_bytes_def sample_arrow_def guardE_def
        validate_physical_batch_schema_def sample_schema_eval expected_hidden_def hidden_field_ok_def stored_field_matches_def
        stored_type_matches_owned_schema_def catalog_row_id_range_def checked_add_def u64_max_def
        validate_data_file_row_ids_def row_id_values_def)
  then show "file_ok (owner_content (dataset_fs vs n)) sample_arrow (\<lambda>_. 8) sample_logical sample_entry"
    using sample_listed sample_object [of vs n] by (simp add: file_ok_def sample_entry_def entry_ids_def)
  show "file_rows (owner_content (dataset_fs vs n)) sample_arrow sample_entry = [(0, [(''id'', CInt (Some 7))])]"
    using sample_object [of vs n]
    by (simp add: file_rows_def sample_entry_def sample_arrow_def stored_rows_def row_id_values_def logical_row_def
        logical_columns_def sample_schema_eval)
qed

lemma sample_opened: "opened owner_content lfs_good sample_env sample_engine"
proof -
  have keys: "k = ''data/00000000000000000000-0.arrow''" if "k \<in> manifest_keys sample_base" for k
    using that by (simp add: manifest_keys_def sample_base_def sample_entry_def)
  have "''data/00000000000000000000-0.arrow'' \<in> attempt_keys 0"
    using attempt_names(1) [of 0 0] unfolding sample_name by simp
  then have fresh: "a < 1" if "is_u64 a" "''data/00000000000000000000-0.arrow'' \<in> attempt_keys a" for a
    using attempt_keys_disjoint [OF that(1) _ that(2), of 0] by (simp add: is_u64_def)
  have "snapshot_ok (owner_content (dataset_fs [] 0)) sample_env 1 1 sample_snapshot"
    unfolding snapshot_ok_def Let_def
    using sample_file_ok [of "[]" 0] sample_listed keys fresh
    by (auto simp: sample_snapshot_def sample_base_def files_ok_def sample_env_def local_env_def dataset_codecs_def
        segments_loaded_def rows_owned_def entry_ids_def sample_entry_def)
  then show ?thesis
    by (simp add: opened_def sample_engine_def sample_good is_u64_def u64_max_def log_of_new sample_snapshot_def)
qed

lemma four_steps: "R a b \<Longrightarrow> R b c \<Longrightarrow> R c d \<Longrightarrow> R d e \<Longrightarrow> R\<^sup>*\<^sup>* a e"
  by (meson converse_rtranclp_into_rtranclp rtranclp.rtrancl_refl)

lemma sample_staging_run: "(step sample_env)\<^sup>*\<^sup>* (start sample_engine) sample_staged"
proof -
  let ?eg1 = "sample_engine\<lparr> eg_events := event_record TransactionBegan EvSucceeded (event_log_new 8) \<rparr>"
  let ?eg2 = "sample_engine\<lparr> eg_events := sample_events \<rparr>" and ?tx = "begin_at sample_snapshot"
  let ?s1 = "advance 0 (Staging ?tx) ?eg1 (start sample_engine)"
  let ?s2 = "advance 1 (Staging ?tx) ?eg2 ?s1"
  let ?s3 = "advance 0 (Staging sample_delete) ?eg2 ?s2"
  have cur: "eg_current sample_engine = sample_snapshot" "eg_events sample_engine = event_log_new 8" by (simp_all add: sample_engine_def)
  have "step sample_env (start sample_engine) ?s1"
    by (rule begins) (simp_all add: start_def dataset_begin_def record_event_def cur)
  moreover have "step sample_env ?s1 ?s2"
    by (rule begins) (simp_all add: start_def dataset_begin_def record_event_def cur sample_events_def)
  moreover have "step sample_env ?s2 ?s3"
    using stages [of ?s2 0 ?tx "StageDelete 0" "Inr ()" sample_delete sample_env] sample_stage(1) by simp
  moreover have "step sample_env ?s3 (advance 1 (Staging sample_delete) ?eg2 ?s3)"
    using stages [of ?s3 1 ?tx "StageDelete 0" "Inr ()" sample_delete sample_env] sample_stage(1) by simp
  moreover have "advance 1 (Staging sample_delete) ?eg2 ?s3 = sample_staged"
    by (simp add: advance_def sample_staged_def start_def cur fun_upd_twist)
  ultimately show ?thesis using four_steps [of "step sample_env" "start sample_engine" ?s1 ?s2 ?s3] by metis
qed

lemma sample_prepared_run: "(step sample_env)\<^sup>*\<^sup>* (start sample_engine) sample_prepared"
proof -
  let ?eg = "sample_engine\<lparr> eg_events := sample_events, eg_last_ts := 6 \<rparr>"
  let ?s1 = "advance 0 (Stamped sample_delete 6) ?eg sample_staged"
  let ?s2 = "advance 1 (Stamped sample_delete 6) ?eg ?s1"
  let ?s3 = "advance 0 (Prepared sample_delete 6 None [] None) ?eg ?s2"
  have p: "tx_pending sample_delete = []" by (simp add: sample_stage(2) begin_at_def)
  have "step sample_env sample_staged ?s1"
    by (rule stamps [where now = 6]) (simp_all add: sample_staged_def issue_timestamp_def i64_max_def sample_engine_def)
  moreover have "step sample_env ?s1 ?s2"
    by (rule stamps [where now = 6]) (simp_all add: sample_staged_def issue_timestamp_def i64_max_def sample_engine_def)
  moreover have "step sample_env ?s2 ?s3" using writes_nothing [of ?s2 0 sample_delete 6 sample_env] p by simp
  moreover have "step sample_env ?s3 (advance 1 (Prepared sample_delete 6 None [] None) ?eg ?s3)"
    using writes_nothing [of ?s3 1 sample_delete 6 sample_env] p by simp
  moreover have "advance 1 (Prepared sample_delete 6 None [] None) ?eg ?s3 = sample_prepared"
    by (simp add: advance_def sample_staged_def sample_prepared_def fun_upd_twist)
  ultimately have "(step sample_env)\<^sup>*\<^sup>* sample_staged sample_prepared"
    using four_steps [of "step sample_env" sample_staged ?s1 ?s2 ?s3] by metis
  then show ?thesis using sample_staging_run by (rule rtranclp_trans [rotated])
qed

lemma sample_critical:
  "critical_section sample_env (\<lambda>_. True) sample_delete 6 [] None (sy_engine sample_prepared) = (Inr (), sample_after)"
proof -
  let ?eg = "sy_engine sample_prepared"
  have eg: "?eg = sample_engine\<lparr> eg_events := sample_events, eg_last_ts := 6 \<rparr>" by (simp add: sample_prepared_def)
  have m: "candidate_manifest ?eg sample_delete 6 [] None 2 = sample_deleted"
    using sample_candidate by (simp add: eg candidate_manifest_def)
  have cur: "eg_current ?eg = sample_snapshot" by (simp add: eg sample_engine_def)
  have env: "en_codecs sample_env = dataset_codecs" "en_owner sample_env = local_owner" by (simp_all add: sample_env_def local_env_def)
  have "publish_candidate sample_env (\<lambda>_. True) sample_delete 6 [] None 2 ?eg = (Inr (), sample_after)"
    using dataset_publication
    by (simp add: publish_candidate_def Let_def m env cur)
      (simp add: eg sample_engine_def install_def register_def Let_def sample_after_def sample_next_def
        candidate_index_def sample_stage(2) begin_at_def sample_snapshot_def sample_base_def)
  moreover have "checked_add (sn_version sample_snapshot) 1 = Some 2"
    by (simp add: checked_add_def sample_snapshot_def u64_max_def)
  moreover have "conflicts_with (eg_log ?eg) (tx_base_version sample_delete) (sn_version sample_snapshot) (tx_write_set sample_delete) = Clean"
      "schema_version (sn_manifest (tx_base_snapshot sample_delete)) = schema_version (sn_manifest sample_snapshot)"
      "find (\<lambda>row_id. \<not> owns_live_row sample_snapshot row_id) (tx_write_set sample_delete) = None"
    by (simp_all add: sample_stage(2) begin_at_def sample_snapshot_def sample_base_def conflicts_with_def owns_live_row_def
        owns_row_def in_row_id_range_def sample_entry_def is_visible_def)
  ultimately show ?thesis by (simp add: critical_section_def Let_def cur check_segment_dimension_def)
qed

lemma sample_publish_step: "step sample_env sample_prepared sample_published"
proof -
  have "sy_phase sample_prepared 0 = Some (Prepared sample_delete 6 None [] None)" by (simp add: sample_prepared_def)
  from publishes [OF this sample_critical] show ?thesis
    by (simp add: published_def sample_published_def sample_prepared_def sample_after_def sample_stage(2) begin_at_def)
qed

section \<open>Properties\<close>

text \<open>C1: Commits refine first-committer-wins snapshot isolation.  In every interleaving of any number of
  transactions on one open dataset over the local filesystem, with any system call failing at
  any time: a step in which a transaction's candidate becomes visible appends exactly one version, the
  newest version without the rows the transaction deleted or replaced and with its new rows under fresh
  ids, and no version after the transaction's base wrote one of its rows; every other step, failed and
  rejected commits included, leaves the rows of every version ever published as they were.\<close>

theorem commits_refine_snapshot_isolation:
  fixes cd A K build
  defines "env \<equiv> local_env cd A K build"
  assumes "arrow_lib_spec A" and "opened owner_content lfs_good env eg"
    and "(step env)\<^sup>*\<^sup>* (start eg) sy" and "step env sy sy'"
  shows "(\<forall>i r. sy_phase sy' i = Some (Finished r) \<longrightarrow> sy_phase sy i \<noteq> sy_phase sy' i \<longrightarrow>
      (case sy_phase sy i of
         Some (Prepared tx ts res new_files seg) \<Rightarrow>
           if published r
           then si_commit (tx_base_version tx - sn_version (eg_current eg)) (set (tx_write_set tx))
             (enumerated_from (res_base res) (tx_pending tx)) (si_abs owner_content env sy) (si_abs owner_content env sy')
           else si_abs owner_content env sy' = si_abs owner_content env sy
       | _ \<Rightarrow> r \<noteq> Inr () \<and> si_abs owner_content env sy' = si_abs owner_content env sy)) \<and>
    ((\<forall>i r. sy_phase sy' i = Some (Finished r) \<longrightarrow> sy_phase sy i = sy_phase sy' i) \<longrightarrow>
       si_abs owner_content env sy' = si_abs owner_content env sy)"
proof -
  have "en_arrow env = A" by (simp add: env_def local_env_def)
  then show ?thesis
    using local_engine.run_step_refines [of cd A K build eg sy sy'] assms(2-5) unfolding env_def by simp
qed

theorem commits_refine_snapshot_isolation_witness:
  "si_versions (si_abs owner_content sample_env sample_prepared) = [[(0, [(''id'', CInt (Some 7))])]] \<and>
   si_versions (si_abs owner_content sample_env sample_published) = [[(0, [(''id'', CInt (Some 7))])], []] \<and>
   si_writes (si_abs owner_content sample_env sample_published) = [{0}]"
proof -
  have fin: "sy_phase sample_published 0 = Some (Finished (Inr ()))" "sy_phase sample_prepared 0 \<noteq> sy_phase sample_published 0"
      and ph: "sy_phase sample_prepared 0 = Some (Prepared sample_delete 6 None [] None)"
    by (simp_all add: sample_published_def sample_prepared_def)
  have env: "sample_env = local_env dataset_codecs sample_arrow reference_kernels sample_build" by (simp add: sample_env_def)
  have before: "si_versions (si_abs owner_content sample_env sample_prepared) = [[(0, [(''id'', CInt (Some 7))])]]"
      "si_writes (si_abs owner_content sample_env sample_prepared) = []"
    using sample_file_ok(2) [of "[]" 0]
    by (simp_all add: si_abs_def sample_prepared_def sample_engine_def visible_rows_def sample_snapshot_def sample_base_def
        is_visible_def sample_env_def local_env_def)
  have "si_commit (tx_base_version sample_delete - sn_version (eg_current sample_engine)) (set (tx_write_set sample_delete))
      (enumerated_from (res_base None) (tx_pending sample_delete))
      (si_abs owner_content sample_env sample_prepared) (si_abs owner_content sample_env sample_published)"
    using commits_refine_snapshot_isolation [OF sample_arrow_spec sample_opened [unfolded env] sample_prepared_run [unfolded env]
        sample_publish_step [unfolded env], THEN conjunct1, rule_format, OF fin] ph
    unfolding env [symmetric] by (simp add: published_def)
  then have "si_commit 0 {0} [] (si_abs owner_content sample_env sample_prepared) (si_abs owner_content sample_env sample_published)"
    by (simp add: sample_stage(2) begin_at_def sample_engine_def sample_snapshot_def)
  then show ?thesis using before by (simp add: si_commit_def)
qed

text \<open>C4: A commit rejected with a conflict names exactly the contested rows: the rows of its write set that
  some version committed after its base wrote, each once, and there is at least one.\<close>

theorem conflict_names_contested_rows:
  fixes cd A K build
  defines "env \<equiv> local_env cd A K build"
  assumes "arrow_lib_spec A" and "opened owner_content lfs_good env eg" and "(step env)\<^sup>*\<^sup>* (start eg) sy"
    and "sy_phase sy i = Some (Prepared tx ts res new_files seg)"
    and "critical_section env alive tx ts new_files seg (sy_engine sy) = (Inl (TxnConflict rows), eg')"
  shows "rows \<noteq> [] \<and> distinct rows \<and> set rows = set (tx_write_set tx) \<inter>
    \<Union> (set ` set (drop (tx_base_version tx - sn_version (eg_current eg)) (sy_writes sy)))"
proof -
  have "en_arrow env = A" by (simp add: env_def local_env_def)
  then have "sys_inv owner_content lfs_good env sy \<and> tombs_inv sy \<and> hd (sy_snapshots sy) = eg_current eg"
    using local_engine.run_inv [of cd A K build eg sy] assms(2-4) unfolding env_def by simp
  then show ?thesis
    using local_engine.conflict_rows [of cd A K build sy i tx ts res new_files seg alive rows eg'] assms(5,6)
    unfolding env_def by simp
qed

lemma sample_versions:
  "tx_base_version sample_delete = 1" "sn_version sample_next = 2" "tx_write_set sample_delete = [0]"
  "schema_version (sn_manifest sample_next) = 1" "schema_version (sn_manifest (tx_base_snapshot sample_delete)) = 1"
  "conflicts_with (push 2 [0] (new_log 8)) 1 2 [0] = Conflict [0]"
  "conflicts_with (push 2 [0] (new_log 8)) (Suc 0) 2 [0] = Conflict [0]"
proof -
  show "tx_base_version sample_delete = 1" "sn_version sample_next = 2" "tx_write_set sample_delete = [0]"
    "schema_version (sn_manifest sample_next) = 1" "schema_version (sn_manifest (tx_base_snapshot sample_delete)) = 1"
    by (simp_all add: sample_stage(2) begin_at_def sample_snapshot_def sample_next_def sample_deleted_def sample_base_def
        schema_version_def)
  show "conflicts_with (push 2 [0] (new_log 8)) 1 2 [0] = Conflict [0]" by code_simp
  then show "conflicts_with (push 2 [0] (new_log 8)) (Suc 0) 2 [0] = Conflict [0]" by simp
qed

theorem conflict_names_contested_rows_witness:
  "(\<exists>eg'. critical_section sample_env (\<lambda>_. True) sample_delete 6 [] None (sy_engine sample_published) =
      (Inl (TxnConflict [0]), eg')) \<and>
   set (tx_write_set sample_delete) \<inter> \<Union> (set ` set (drop 0 (sy_writes sample_published))) = {0}"
proof -
  have env: "sample_env = local_env dataset_codecs sample_arrow reference_kernels sample_build" by (simp add: sample_env_def)
  have run: "(step sample_env)\<^sup>*\<^sup>* (start sample_engine) sample_published"
    using sample_prepared_run sample_publish_step by (rule rtranclp.rtrancl_into_rtrancl)
  have ph: "sy_phase sample_published 1 = Some (Prepared sample_delete 6 None [] None)"
    by (simp add: sample_published_def sample_prepared_def)
  have "eg_current (sy_engine sample_published) = sample_next" "eg_log (sy_engine sample_published) = push 2 [0] (new_log 8)"
    by (simp_all add: sample_published_def sample_after_def)
  then have c: "\<exists>eg'. critical_section sample_env (\<lambda>_. True) sample_delete 6 [] None (sy_engine sample_published) =
      (Inl (TxnConflict [0]), eg')"
    by (simp add: critical_section_def Let_def sample_versions)
  then obtain eg' where eg': "critical_section sample_env (\<lambda>_. True) sample_delete 6 [] None (sy_engine sample_published) =
      (Inl (TxnConflict [0]), eg')" by blast
  have "set [0] = set (tx_write_set sample_delete) \<inter>
      \<Union> (set ` set (drop (tx_base_version sample_delete - sn_version (eg_current sample_engine)) (sy_writes sample_published)))"
    using conflict_names_contested_rows [OF sample_arrow_spec sample_opened [unfolded env] run [unfolded env] ph eg' [unfolded env]]
    by blast
  moreover have "tx_base_version sample_delete - sn_version (eg_current sample_engine) = 0"
    by (simp add: sample_stage(2) begin_at_def sample_engine_def sample_snapshot_def)
  ultimately show ?thesis using c by simp
qed



end
