(* ===== verification/Recovery.thy ===== *)
theory Recovery
  imports SnapshotIsolation
begin

text \<open>
  Creating and opening a dataset (\<open>create_with_storage\<close>, \<open>open_with_storage\<close> and what they call in
  \<open>crates/txn/src/dataset.rs\<close>), and crash recovery: what a new handle finds after any run of
  commits on an old one.
\<close>

section \<open>Model\<close>

definition COMMIT_LOG_CAPACITY :: nat where
  "COMMIT_LOG_CAPACITY = 2048"

definition OPERATIONAL_EVENT_CAPACITY :: nat where
  "OPERATIONAL_EVENT_CAPACITY = 1024"

definition MAX_REASONABLE_ROW_ID_CAPACITY :: nat where
  "MAX_REASONABLE_ROW_ID_CAPACITY = 1000000000"

fun validate_fields :: "field list \<Rightarrow> string set \<Rightarrow> (txn_error, unit) result" where
  "validate_fields [] names = Inr ()"
| "validate_fields (f # fs) names =
     (if fd_name f \<in> set HIDDEN_COLUMNS then Inl (ReservedColumnName (fd_name f))
      else if fd_name f \<in> names then Inl BatchSchemaMismatch
      else validate_fields fs (insert (fd_name f) names))"

definition validate_dataset_schema :: "arrow_schema \<Rightarrow> (txn_error, unit) result" where
  "validate_dataset_schema sch = validate_fields (sch_fields sch) {}"

definition parse_attempt_id_prefix :: "string \<Rightarrow> nat option" where
  "parse_attempt_id_prefix file_name = parse_u64 (hd (split_on (CHR ''-'') file_name))"

definition seed_write_attempt_counter :: "manifest \<Rightarrow> (txn_error, nat) result" where
  "seed_write_attempt_counter m =
     (if mf_next_attempt_id m \<noteq> 0 \<or> mf_data_files m = [] then Inr (mf_next_attempt_id m)
      else case List.map_filter (\<lambda>entry. parse_attempt_id_prefix (df_name entry)) (mf_data_files m) of
        [] \<Rightarrow> Inr 0
      | x # xs \<Rightarrow> of_option ManifestOverflow (checked_add (foldl max x xs) 1))"

text \<open>A new handle on a dataset.  A new registry holds no lease yet.\<close>

definition new_handle ::
  "operational_event_kind \<Rightarrow> manifest \<Rightarrow> arrow_schema \<Rightarrow> segment_set \<Rightarrow> nat \<Rightarrow> nat \<Rightarrow> int \<Rightarrow> 's \<Rightarrow> 's engine" where
  "new_handle kind m sch index next_row_id attempts last_ts s =
     (case register (\<lambda>_. False) (mf_version m) \<lparr> lr_leases = [], lr_next_id = 0 \<rparr> of (lease, reg) \<Rightarrow>
        \<lparr> eg_store = s,
          eg_current = \<lparr> sn_version = mf_version m, sn_lease = lease, sn_schema = sch, sn_manifest = m,
                         sn_index = index, sn_tombstones = set (mf_tombstones m) \<rparr>,
          eg_leases = reg, eg_next_row_id = next_row_id, eg_attempts = attempts,
          eg_log = new_log COMMIT_LOG_CAPACITY, eg_insufficient = 0,
          eg_events = event_record kind EvSucceeded (event_log_new OPERATIONAL_EVENT_CAPACITY),
          eg_last_ts = last_ts \<rparr>)"

definition open_with_storage :: "'s engine_env \<Rightarrow> ('s, txn_error, 's engine) effect" where
  "open_with_storage env =
     (let cd = en_codecs env; be = en_owner env; crc = cd_crc cd in
      bindSE (map_errSE Storage (read_current_with cd be)) (\<lambda>found.
      bindSE (liftSE (of_option DatasetNotFound found)) (\<lambda>m.
      bindSE (liftSE (map_errE Storage (manifest_schema (cd_schema cd) m))) (\<lambda>sch.
      bindSE (liftSE (validate_dataset_schema sch)) (\<lambda>_.
      bindSE (map_errSE Storage (read_row_id_high_water_with crc be)) (\<lambda>high_water.
      bindSE (liftSE (of_option (Storage MissingRowIdHighWater) high_water)) (\<lambda>durable_high_water.
      let allocation_floor = max (mf_next_row_id m) durable_high_water in
      bindSE (liftSE (guardE (allocation_floor \<le> MAX_REASONABLE_ROW_ID_CAPACITY)
                        (UnreasonableCapacity allocation_floor MAX_REASONABLE_ROW_ID_CAPACITY))) (\<lambda>_.
      bindSE (validate_data_files_with_owner be (en_arrow env) crc m sch) (\<lambda>owned_rows.
      bindSE (liftSE (validate_tombstones m owned_rows)) (\<lambda>_.
      bindSE (load_segments_with_owner be crc m owned_rows) (\<lambda>index.
      bindSE (liftSE (seed_write_attempt_counter m)) (\<lambda>attempts s.
        (Inr (new_handle DatasetOpened m sch index allocation_floor attempts (mf_commit_time_high_water m) s), s)))))))))))))"

text \<open>
  The parent directory lies outside the dataset's tree, so whether it exists is an argument; asking
  is a call that may fail, as are the syncs of the dataset directory and of its parent.
\<close>

definition sync_dataset_directory_anchor :: "bool \<Rightarrow> (lfs, txn_error, unit) effect" where
  "sync_dataset_directory_anchor parent_exists =
     bindSE (map_errSE (\<lambda>e. case e of Io k \<Rightarrow> TxnIo k | _ \<Rightarrow> Storage e) may_fail) (\<lambda>_.
     bindSE (liftSE (guardE parent_exists DatasetNotFound)) (\<lambda>_.
     bindSE (map_errSE TxnIo create_data_dir) (\<lambda>_.
     bindSE (map_errSE Storage sync_dir) (\<lambda>_.
     map_errSE Storage sync_dir))))"

text \<open>The clock is read once; \<open>anchor\<close> is \<open>sync_dataset_directory_anchor\<close> for a local dataset.\<close>

definition create_with_storage ::
  "'s engine_env \<Rightarrow> ('s, txn_error, unit) effect \<Rightarrow> int \<Rightarrow> arrow_schema \<Rightarrow> ('s, txn_error, 's engine) effect" where
  "create_with_storage env anchor now sch =
     (let cd = en_codecs env; be = en_owner env; crc = cd_crc cd in
      bindSE (liftSE (validate_dataset_schema sch)) (\<lambda>_.
      bindSE (map_errSE Storage (read_current_with cd be)) (\<lambda>found.
      bindSE (liftSE (guardE (found = None) DatasetExists)) (\<lambda>_.
      bindSE (if en_is_local env then anchor else returnSE ()) (\<lambda>_.
      let empty = empty_with_schema (cd_schema cd) sch in
      bindSE (liftSE (if now < 0 then Inl Clock else if now > i64_max then Inl TryFromInt
                      else Inr (max (mf_commit_time_high_water empty) now))) (\<lambda>ts.
      let m = empty\<lparr> mf_committed_at_us := ts \<rparr> in
      bindSE (map_errSE Storage (initialize_row_id_high_water_with crc be)) (\<lambda>_.
      bindSE (map_errSE (\<lambda>e. if e = PublicationIndeterminate
                             then IndeterminateManifestPublication (mf_version m) PublicationIndeterminate else Storage e)
                (commit_manifest_with cd be m)) (\<lambda>_.
      bindSE (map_errSE Storage (read_row_id_high_water_with crc be)) (\<lambda>high_water s.
        (Inr (new_handle DatasetCreated m sch [] (max (mf_next_row_id m) (case high_water of None \<Rightarrow> 0 | Some n \<Rightarrow> n))
                (mf_next_attempt_id m) ts s), s))))))))))"

section \<open>Manifests that commits write fit their format\<close>

text \<open>The floats of a batch that the JSON library must read back, should they become bounds.\<close>

definition exact_column :: "(f64 \<Rightarrow> bool) \<Rightarrow> column \<Rightarrow> bool" where
  "exact_column exact c =
     (case c of Float64Col xs \<Rightarrow> \<forall>(valid, f)\<in>set xs. f64_is_finite f \<longrightarrow> exact f | _ \<Rightarrow> True)"

definition exact_batch :: "(f64 \<Rightarrow> bool) \<Rightarrow> record_batch \<Rightarrow> bool" where
  "exact_batch exact b \<longleftrightarrow> (\<forall>a\<in>set (rb_columns b). exact_column exact (arr_values a))"

lemma bounds_from_values:
  "float64_bounds_ignoring_nan xs = Some (a, b) \<Longrightarrow> a \<in> set xs \<and> b \<in> set xs"
proof -
  have "foldl bound_step r xs = Some (a, b) \<Longrightarrow> (\<forall>c d. r = Some (c, d) \<longrightarrow> c \<in> S \<and> d \<in> S) \<Longrightarrow> a \<in> S \<union> set xs \<and> b \<in> S \<union> set xs" for r S
  proof (induction xs arbitrary: r S)
    case (Cons x xs)
    have "\<forall>c d. bound_step r x = Some (c, d) \<longrightarrow> c \<in> insert x S \<and> d \<in> insert x S"
      using Cons.prems(2) by (auto simp: bound_step_def split: if_splits option.splits)
    from Cons.IH [OF _ this] Cons.prems(1) show ?case by simp
  qed auto
  from this [of None "{}"] show "float64_bounds_ignoring_nan xs = Some (a, b) \<Longrightarrow> ?thesis"
    by (simp add: float64_bounds_ignoring_nan_def)
qed

lemma column_entry_fits:
  assumes K: "arrow_spec K" and c: "column_fits c" "exact_column exact c" and e: "column_entry K c = Some e"
  shows "val_fits exact (min_v e) \<and> val_fits exact (max_v e)"
proof (cases c)
  case (Int64Col xs)
  then obtain a b where ab: "k_min_i64 K xs = Some a" "k_max_i64 K xs = Some b" "e = \<lparr> min_v = Int64 a, max_v = Int64 b \<rparr>"
    using e by (auto simp: pair_stats_def split: option.splits)
  have "is_least (\<le>) xs (k_min_i64 K xs)" "is_least (\<ge>) xs (k_max_i64 K xs)" using K by (simp_all add: arrow_spec_def)
  then have "Some a \<in> set xs" "Some b \<in> set xs" using ab by (simp_all add: is_least_def)
  then show ?thesis using ab(3) c(1) Int64Col by (simp add: column_fits_def)
next
  case (Float64Col xs)
  have buffer: "f64_is_finite f \<longrightarrow> exact f" if "f \<in> set (map snd xs)" for f
    using c(2) that Float64Col by (auto simp: exact_column_def)
  obtain a b where ab: "e = \<lparr> min_v = Float64 a, max_v = Float64 b \<rparr>" "a \<in> set (map snd xs)" "b \<in> set (map snd xs)"
  proof (cases "float64_bounds_ignoring_nan (map snd xs) = Some (case (min_v e, max_v e) of (Float64 a, Float64 b) \<Rightarrow> (a, b)) \<and>
      (\<exists>a b. e = \<lparr> min_v = Float64 a, max_v = Float64 b \<rparr>)")
    case True
    then show thesis using that bounds_from_values [of "map snd xs"] by auto
  next
    case False
    then obtain mn mx where m: "k_min_f64 K (valid_f64 xs) = Some mn" "k_max_f64 K (valid_f64 xs) = Some mx"
        "e = \<lparr> min_v = Float64 mn, max_v = Float64 mx \<rparr>"
      using e Float64Col by (auto split: option.splits if_splits)
    have "is_least f64_nan_high_le (valid_f64 xs) (k_min_f64 K (valid_f64 xs))"
        "is_least (\<lambda>a b. f64_nan_high_le b a) (valid_f64 xs) (k_max_f64 K (valid_f64 xs))"
      using K by (simp_all add: arrow_spec_def)
    then have "Some mn \<in> set (valid_f64 xs)" "Some mx \<in> set (valid_f64 xs)" using m by (simp_all add: is_least_def)
    then show thesis using that m(3) valid_f64_buffer by blast
  qed
  then show ?thesis using buffer by simp
qed (use e in \<open>auto simp: pair_stats_def split: option.splits if_splits\<close>)

lemma put_stat_fits:
  assumes st: "stats_fit exact st" and e: "val_fits exact (min_v e) \<and> val_fits exact (max_v e)"
  shows "stats_fit exact (put_stat k e st)"
proof -
  have "set (put_stat k e st) \<subseteq> insert (k, e) (set st)" by (induction k e st rule: put_stat.induct) auto
  moreover have "sorted_wrt (<) (map fst (put_stat k e st))"
    by (rule put_stat_sorted) (use st in \<open>simp add: stats_fit_def strict_sorted_iff\<close>)
  ultimately show ?thesis using st e unfolding stats_fit_def strict_sorted_iff by blast
qed

lemma batch_stats_fit:
  assumes K: "arrow_spec K" and b: "wf_batch b" "exact_batch exact b" and ts: "is_i64 ts"
  shows "stats_fit exact (batch_stats K b ts)"
proof -
  have cols: "column_fits c \<and> exact_column exact c" if nc: "(n, c) \<in> set (batch_of b)" for n c
  proof -
    obtain a where a: "a \<in> set (rb_columns b)" "c = plain_column a"
      using set_zip_rightD [OF nc [unfolded batch_of_def]] by auto
    then have "column_fits (arr_values a) \<and> exact_column exact (arr_values a)"
      using b unfolding wf_batch_def exact_batch_def by blast
    moreover have "plain_column a = arr_values a \<or> (\<exists>n. plain_column a = OtherCol n)" by (cases a) auto
    ultimately show ?thesis using a(2) by (auto simp: column_fits_def exact_column_def)
  qed
  have "stats_fit exact st \<Longrightarrow> \<forall>(n, c)\<in>set cs. column_fits c \<and> exact_column exact c \<Longrightarrow> stats_fit exact
      (foldl (\<lambda>st (name, col). case column_entry K col of None \<Rightarrow> st | Some e \<Rightarrow> put_stat name e st) st cs)" for cs st
    by (induction cs arbitrary: st) (auto simp: put_stat_fits column_entry_fits [OF K] split: option.splits)
  from this [of "[]" "batch_of b"] have "stats_fit exact (stats_of K (batch_of b))"
    using cols by (auto simp: stats_of_def stats_fit_def)
  then show ?thesis using ts by (simp add: batch_stats_def put_stat_fits)
qed

lemma merge_entry_fits:
  assumes "merge_entry e other = Some e'" "val_fits exact (min_v e) \<and> val_fits exact (max_v e)"
    "val_fits exact (min_v other) \<and> val_fits exact (max_v other)"
  shows "val_fits exact (min_v e') \<and> val_fits exact (max_v e')"
  using assms
  by (auto simp: merge_entry_def f64_min_def f64_max_def min_def max_def split: val.splits prod.splits if_splits)

lemma merge_fits:
  assumes "stats_fit exact z" "stats_fit exact st"
  shows "stats_fit exact (merge_zone_map_stats z st is_first)"
proof (cases is_first)
  case False
  let ?f = "\<lambda>(name, e). case map_of st name of None \<Rightarrow> None | Some other \<Rightarrow> map_option (Pair name) (merge_entry e other)"
  have keys: "sorted_wrt (<) (map fst (List.map_filter ?f xs))" if "sorted_wrt (<) (map fst xs)" for xs :: stats_table
  proof -
    have sub: "fst x \<in> fst ` set xs" if "x \<in> set (List.map_filter ?f xs)" for x and xs :: stats_table
      using that by (induction xs) (auto simp: List.map_filter_simps split: option.splits)
    show ?thesis using that
      by (induction xs) (auto simp: List.map_filter_simps split: option.splits dest!: sub)
  qed
  have "val_fits exact (min_v e') \<and> val_fits exact (max_v e')" if ne: "(n, e') \<in> set (List.map_filter ?f z)" for n e'
  proof -
    obtain k e where "(k, e) \<in> set z" "?f (k, e) = Some (n, e')"
      using ne unfolding List.map_filter_def by (auto split: option.splits)
    then obtain other where "(n, e) \<in> set z" "map_of st n = Some other" "merge_entry e other = Some e'"
      by (auto split: option.splits)
    then show ?thesis using merge_entry_fits assms unfolding stats_fit_def by (fastforce dest: map_of_SomeD)
  qed
  moreover have "sorted_wrt (<) (map fst z)" using assms(1) by (simp add: stats_fit_def strict_sorted_iff)
  ultimately show ?thesis
    using keys [of z] False by (auto simp: merge_zone_map_stats_def stats_fit_def strict_sorted_iff)
qed (use assms in \<open>simp add: merge_zone_map_stats_def\<close>)

lemma merge_all_fits: "stats_fit exact z \<Longrightarrow> \<forall>st\<in>set sts. stats_fit exact st \<Longrightarrow> stats_fit exact (merge_all z i sts)"
  by (induction sts arbitrary: z i) (auto simp: merge_fits)

lemma file_fits:
  assumes f: "file_ok objects A crc sch f" and l: "df_byte_len f \<le> u64_max" "df_row_count f \<le> u64_max"
    "stats_fit exact (df_stats f)"
  shows "data_file_fits exact f"
proof -
  obtain b where c: "check_data_file A crc sch f b {} = Inr (set (entry_ids f))" using f by (auto simp: file_ok_def)
  then obtain r where u: "unat (crc b) = df_crc32c f" and r: "catalog_row_id_range f = Inr r"
    by (auto simp: check_data_file_def bindE_Inr_iff)
  have "df_crc32c f < 2 ^ 32" using u unat_crc_less [of "crc b"] by simp
  moreover have "case df_row_id_range f of None \<Rightarrow> True | Some (a, b) \<Rightarrow> a \<le> u64_max \<and> b \<le> u64_max"
    using r by (auto simp: catalog_row_id_range_def bindE_Inr_iff checked_add_Some_iff is_u64_def split: if_splits option.splits)
  ultimately show ?thesis using l by (auto simp: data_file_fits_def u64_max_def split: option.splits)
qed

lemma written_all_each:
  "written_all objects env ts fs n bs \<Longrightarrow> f \<in> set fs \<Longrightarrow> \<exists>k. \<exists>b\<in>set bs. written objects env ts f k b"
  by (induction objects env ts fs n bs rule: written_all.induct) auto

lemma row_total_member: "b \<in> set bs \<Longrightarrow> rb_num_rows b \<le> row_total bs"
  by (induction bs) auto

lemma new_files_fit:
  assumes pub: "publishable objects env eg tx ts res new_files seg" and K: "arrow_spec (en_kernels env)"
    and bs: "\<forall>b\<in>set (tx_pending tx). wf_batch b \<and> exact_batch exact b" and ts: "is_i64 ts" and n: "is_u64 (eg_next_row_id eg)"
  shows "\<forall>f\<in>set new_files. data_file_fits exact f" "seg = Some ps \<Longrightarrow> segment_fits exact (ps_entry ps)"
proof -
  have p: "prepared_ok objects env tx ts res new_files seg" using pub by (simp add: publishable_def)
  have st: "stats_fit exact (batch_stats (en_kernels env) b ts)" if "b \<in> set (tx_pending tx)" for b
    using batch_stats_fit [OF K _ _ ts] bs that by blast
  have range: "range_end c \<le> u64_max" "row_total (tx_pending tx) \<le> u64_max" if "res = Some (a, c)" for a c
    using pub that n publishableD(7) [OF pub]
    by (auto simp: publishable_def reservation_ok_def Let_def is_u64_def range_end_def)
  show "\<forall>f\<in>set new_files. data_file_fits exact f"
  proof
    fix f assume f: "f \<in> set new_files"
    then obtain a c where res: "res = Some (a, c)" using p by (cases res) (auto simp: prepared_ok_def)
    then have "written_all objects env ts new_files (base c) (tx_pending tx)" using p by (simp add: prepared_ok_def)
    from written_all_each [OF this f] obtain k b where b: "b \<in> set (tx_pending tx)" "written objects env ts f k b" by blast
    have "df_row_count f \<le> u64_max" using b row_total_member [OF b(1)] range(2) [OF res] by (simp add: written_def)
    then show "data_file_fits exact f" using b st by (auto simp: written_def intro: file_fits)
  qed
  show "segment_fits exact (ps_entry ps)" if seg: "seg = Some ps"
  proof -
    obtain a c where res: "res = Some (a, c)" using p seg by (cases res) (auto simp: prepared_ok_def)
    have w: "segment_written objects (cd_crc (en_codecs env)) a {base c..<range_end c} ps"
        and z: "sg_zone_map (ps_entry ps) = merge_all [] 0 (map (\<lambda>b. batch_stats (en_kernels env) b ts) (tx_pending tx))"
      using p seg res by (simp_all add: prepared_ok_def)
    have "stats_fit exact (sg_zone_map (ps_entry ps))"
      unfolding z by (rule merge_all_fits) (use st in \<open>auto simp: stats_fit_def\<close>)
    moreover have "sg_row_id_min (ps_entry ps) < 2 ^ 64" "sg_row_id_max (ps_entry ps) < 2 ^ 64"
      using w range(1) [OF res] by (auto simp: segment_written_def u64_max_def)
    ultimately show ?thesis
      using w by (auto simp: segment_written_def segment_fits_def u64_max_def u32_max_def SEGMENT_FORMAT_VERSION_def)
  qed
qed

lemma candidate_fits:
  assumes pub: "publishable objects env eg tx ts res new_files seg" and K: "arrow_spec (en_kernels env)"
    and m: "image_fits exact (sn_manifest (eg_current eg))" and ts: "is_i64 ts" and v: "is_u64 v"
    and n: "is_u64 (eg_next_row_id eg)" "is_u64 (eg_attempts eg)"
    and bs: "\<forall>b\<in>set (tx_pending tx). wf_batch b \<and> exact_batch exact b"
  shows "image_fits exact (candidate_manifest eg tx ts new_files seg v)"
proof -
  note new = new_files_fit [OF pub K bs ts n(1)]
  let ?c = "candidate_manifest eg tx ts new_files seg v"
  have t: "set (mf_tombstones ?c) \<subseteq> {..<eg_next_row_id eg}"
  proof -
    have "set (mf_tombstones ?c) \<subseteq> rows_owned (mf_data_files (sn_manifest (eg_current eg)))"
      using candidate_tombstones(2,4) [OF pub] by (simp add: candidate_snapshot_def)
    then show ?thesis using pub unfolding publishable_def snapshot_ok_def Let_def by blast
  qed
  have f: "mf_schema_version ?c = mf_schema_version (sn_manifest (eg_current eg))" "mf_next_row_id ?c = eg_next_row_id eg"
    "mf_next_attempt_id ?c = eg_attempts eg" "mf_committed_at_us ?c = ts"
    "mf_commit_time_high_water ?c = max (mf_commit_time_high_water (sn_manifest (eg_current eg))) ts"
    by (simp_all add: candidate_manifest_def Let_def)
  have "\<forall>r\<in>set (mf_tombstones ?c). r < 2 ^ 64" using t n(1) by (auto simp: is_u64_def u64_max_def)
  moreover have "\<forall>g\<in>set (mf_segments ?c). segment_fits exact g"
    using m new(2) by (cases seg) (auto simp: image_fits_def)
  moreover have "is_i64 (max (mf_commit_time_high_water (sn_manifest (eg_current eg))) ts)"
    using m ts by (auto simp: image_fits_def max_def)
  ultimately show ?thesis
    using m ts v n new(1) unfolding image_fits_def f by (auto simp: is_u64_def u64_max_def)
qed

section \<open>What a store must hold for a snapshot to be opened\<close>

text \<open>Every object with the version's number is the snapshot's manifest, and the checks of an open
  pass with the counters that the manifest itself carries.\<close>

definition durable ::
  "(f64 \<Rightarrow> bool) \<Rightarrow> ('s \<Rightarrow> string \<Rightarrow> bytes option) \<Rightarrow> 's engine_env \<Rightarrow> 's \<Rightarrow> snapshot \<Rightarrow> bool" where
  "durable exact content env s sn \<longleftrightarrow>
     (let m = sn_manifest sn; cd = en_codecs env in
      snapshot_ok (content s) env (mf_next_row_id m) (mf_next_attempt_id m) sn \<and> image_fits exact m \<and>
      manifest_schema (cd_schema cd) m = Inr (sn_schema sn) \<and> validate_dataset_schema (sn_schema sn) = Inr () \<and>
      (mf_next_attempt_id m \<noteq> 0 \<or> mf_data_files m = []) \<and>
      (\<exists>k b. manifest_object content s k (mf_version m) b) \<and>
      (\<forall>k b. manifest_object content s k (mf_version m) b \<longrightarrow>
         (\<exists>n. decode_manifest_with_byte_count cd (mf_version m) b = Inr (m, n))))"

definition recoverable ::
  "(f64 \<Rightarrow> bool) \<Rightarrow> ('s \<Rightarrow> string \<Rightarrow> bytes option) \<Rightarrow> 's engine_env \<Rightarrow> 's \<Rightarrow> snapshot \<Rightarrow> bool" where
  "recoverable exact content env s sn \<longleftrightarrow> durable exact content env s sn \<and>
     (\<forall>k v b. manifest_object content s k v b \<longrightarrow> v \<le> sn_version sn) \<and> (\<exists>n. reserved content s n)"

text \<open>A handle as \<open>create\<close> and \<open>open\<close> return it, on a store that can be opened again.\<close>

definition fresh_handle ::
  "(f64 \<Rightarrow> bool) \<Rightarrow> ('s \<Rightarrow> string \<Rightarrow> bytes option) \<Rightarrow> ('s \<Rightarrow> bool) \<Rightarrow> 's engine_env \<Rightarrow> 's engine \<Rightarrow> bool" where
  "fresh_handle exact content good env eg \<longleftrightarrow>
     opened content good env eg \<and> recoverable exact content env (eg_store eg) (eg_current eg) \<and> is_i64 (eg_last_ts eg) \<and>
     mf_next_attempt_id (sn_manifest (eg_current eg)) \<le> eg_attempts eg"

text \<open>A read of the store failed.  Reading the reservations includes decoding them.\<close>

definition store_read_failed :: "'s engine_env \<Rightarrow> txn_error \<Rightarrow> 's \<Rightarrow> bool" where
  "store_read_failed env e t \<longleftrightarrow>
     (\<exists>u e'. e = Storage e' \<and>
        ((\<exists>p. be_list (en_owner env) p u = (Inl e', t)) \<or>
         (\<exists>k i j. be_get_range (en_owner env) k i j u = (Inl e', t)) \<or>
         (\<exists>k. be_get (en_owner env) k u = (Inl e', t)) \<or>
         read_row_id_high_water_with (cd_crc (en_codecs env)) (en_owner env) u = (Inl e', t)))"

lemma store_read_failedI:
  "be_list (en_owner env) p u = (Inl e, t) \<Longrightarrow> store_read_failed env (Storage e) t"
  "be_get_range (en_owner env) k i j u = (Inl e, t) \<Longrightarrow> store_read_failed env (Storage e) t"
  "read_row_id_high_water_with (cd_crc (en_codecs env)) (en_owner env) u = (Inl e, t) \<Longrightarrow> store_read_failed env (Storage e) t"
  "read_failed (en_owner env) x t \<Longrightarrow> store_read_failed env x t"
  unfolding store_read_failed_def read_failed_def by blast+

lemma lease_irrelevant [simp]:
  "recoverable exact content env s (sn\<lparr> sn_lease := l \<rparr>) = recoverable exact content env s sn"
  "snapshot_ok objects env n a (sn\<lparr> sn_lease := l \<rparr>) = snapshot_ok objects env n a sn"
  "visible_rows objects A (sn\<lparr> sn_lease := l \<rparr>) = visible_rows objects A sn"
  by (simp_all add: recoverable_def durable_def snapshot_ok_def visible_rows_def is_visible_def Let_def)

lemma durable_cong: "content t = content s \<Longrightarrow> durable exact content env t sn = durable exact content env s sn"
  by (simp add: durable_def manifest_object_def)

lemma recoverable_cong: "content t = content s \<Longrightarrow> recoverable exact content env t sn = recoverable exact content env s sn"
  by (simp add: recoverable_def durable_cong [of content t s] manifest_object_def reserved_cong [of content t s])

lemma validate_tombstones_ok:
  assumes "distinct (mf_tombstones m)" "set (mf_tombstones m) \<subseteq> owned_rows"
  shows "validate_tombstones m owned_rows = Inr ()"
proof -
  have "distinct xs \<Longrightarrow> set xs \<subseteq> owned_rows \<Longrightarrow> set xs \<inter> seen = {} \<Longrightarrow> validate_tombstones_loop xs owned_rows seen = Inr ()" for xs seen
    by (induction xs arbitrary: seen) auto
  then show ?thesis using assms by (simp add: validate_tombstones_def)
qed

context engine_store
begin

lemma read_current_recovers:
  assumes rec: "recoverable exact content env s sn" and g: "good s"
    and r: "read_current_with (en_codecs env) (en_owner env) s = (r, t)"
  shows "good t \<and> content t = content s \<and>
    (r = Inr (Some (sn_manifest sn)) \<or> (\<exists>e. r = Inl e \<and> store_read_failed env (Storage e) t))"
proof -
  let ?cd = "en_codecs env" and ?be = "en_owner env" and ?m = "sn_manifest sn"
  have v: "mf_version ?m = sn_version sn" using rec by (simp add: recoverable_def durable_def snapshot_ok_def Let_def)
  obtain ko bo where some: "manifest_object content s ko (sn_version sn) bo"
      and dec: "\<And>k b. manifest_object content s k (sn_version sn) b \<Longrightarrow>
        \<exists>n. decode_manifest_with_byte_count ?cd (sn_version sn) b = Inr (?m, n)"
    using rec v unfolding recoverable_def durable_def Let_def by metis
  have top: "w \<le> sn_version sn" if "manifest_object content s k w b" for k w b using rec that unfolding recoverable_def by blast
  obtain rr u where rr: "read_current_with_byte_count_with ?cd ?be s = (rr, u)" by fastforce
  have rt: "t = u" "r = map_sum id (map_option fst) rr"
    using r rr by (cases rr; simp add: read_current_with_def bindSE_def)+
  from rr have "bindSE (be_list ?be ''_versions'') (\<lambda>ms.
       case newest_manifest ms None of
         None \<Rightarrow> returnSE None
       | Some (filename_version, key, sz) \<Rightarrow>
           bindSE (liftSE (dataset_key_new key)) (\<lambda>k.
             bindSE (read_bounded_manifest_bytes ?be k (Some sz)) (\<lambda>b.
               bindSE (liftSE (decode_manifest_with_byte_count ?cd filename_version b)) (\<lambda>r. returnSE (Some r))))) s = (rr, u)"
    by (simp add: read_current_with_byte_count_with_def)
  then show ?thesis
  proof (cases rule: bindSE_cases)
    case (failed e)
    then show ?thesis using list_frame [OF g failed(1)] rt store_read_failedI(1) [OF failed(1)] by simp
  next
    case (passed ms w)
    note lf = list_frame [OF g passed(1)] and le = list_exact [OF g passed(1)]
    have "(ko, length bo) \<in> set ms"
      using some le version_of_key_prefix [of ko] by (auto simp: manifest_object_def)
    then obtain best where "newest_manifest ms None = Some best"
      using some newest_manifest_None [of ms] by (cases "newest_manifest ms None") (fastforce simp: manifest_object_def)+
    then obtain x k n where best: "newest_manifest ms None = Some (x, k, n)" by (cases best) auto
    note spec = newest_manifest_spec [OF best]
    obtain b where b: "content s k = Some b" "n = length b" "version_of_key k = Some x"
      using spec le by blast
    have x: "x = sn_version sn"
    proof -
      have "x \<le> sn_version sn" using top [of k x b] b by (simp add: manifest_object_def)
      moreover have "sn_version sn \<le> x"
        using spec \<open>(ko, length bo) \<in> set ms\<close> some unfolding manifest_object_def by blast
      ultimately show ?thesis by simp
    qed
    obtain n' where d: "decode_manifest_with_byte_count ?cd x b = Inr (?m, n')"
      using dec [of k b] b x by (auto simp: manifest_object_def)
    have small: "length b \<le> MAX_MANIFEST_BYTES" and vk: "valid_key k"
      using d content_valid [OF g] b(1) by (auto simp: decode_manifest_with_byte_count_def Let_def split: if_splits)
    have key: "dataset_key_new k = Inr k" using vk by (simp add: dataset_key_new_def valid_key_def bindE_def guardE_def)
    have "bindSE (be_get_range ?be k 0 n) (\<lambda>b.
        bindSE (liftSE (decode_manifest_with_byte_count ?cd x b)) (\<lambda>r. returnSE (Some r))) w = (rr, u)"
      using passed(2) best key small b(2) by (simp add: read_bounded_manifest_bytes_def bindSE_def)
    then show ?thesis
    proof (cases rule: bindSE_cases)
      case (failed e)
      then show ?thesis using get_range_frame [OF conjunct1 [OF lf] failed(1)] lf rt store_read_failedI(2) [OF failed(1)] by simp
    next
      case (passed b' y)
      have "b' = b" using get_range_ok [OF conjunct1 [OF lf] vk passed(1)] b lf by auto
      then have "rr = Inr (Some (?m, n'))" "u = y" using passed(2) d by (simp_all add: bindSE_def)
      then show ?thesis using get_range_frame [OF conjunct1 [OF lf] passed(1)] lf rt by simp
    qed
  qed
qed

lemma open_checks:
  assumes rec: "recoverable exact content env s sn" and w: "good w" "content w = content s"
    and o: "bindSE (validate_data_files_with_owner (en_owner env) (en_arrow env) (cd_crc (en_codecs env)) (sn_manifest sn) (sn_schema sn))
      (\<lambda>owned_rows. bindSE (liftSE (validate_tombstones (sn_manifest sn) owned_rows)) (\<lambda>_.
       bindSE (load_segments_with_owner (en_owner env) (cd_crc (en_codecs env)) (sn_manifest sn) owned_rows) (\<lambda>index s.
        (Inr (new_handle DatasetOpened (sn_manifest sn) (sn_schema sn) index next_row_id (mf_next_attempt_id (sn_manifest sn))
           (mf_commit_time_high_water (sn_manifest sn)) s), s)))) w = (r, t)"
    and n: "mf_next_row_id (sn_manifest sn) \<le> next_row_id" "is_u64 next_row_id"
  shows "good t \<and> content t = content s \<and>
    (case r of
       Inl e \<Rightarrow> store_read_failed env e t
     | Inr eg \<Rightarrow> eg_store eg = t \<and> fresh_handle exact content good env eg \<and> (\<exists>l. eg_current eg = sn\<lparr> sn_lease := l \<rparr>))"
proof -
  let ?be = "en_owner env" and ?m = "sn_manifest sn" and ?crc = "cd_crc (en_codecs env)"
  let ?own = "rows_owned (mf_data_files ?m)"
  have sok: "snapshot_ok (content w) env (mf_next_row_id ?m) (mf_next_attempt_id ?m) sn" and fits: "image_fits exact ?m"
    using rec unfolding recoverable_def durable_def Let_def w(2) by blast+
  note S = sok [unfolded snapshot_ok_def Let_def]
  obtain rf x where rf: "validate_data_files_with_owner ?be (en_arrow env) ?crc ?m (sn_schema sn) w = (rf, x)" by fastforce
  have X: "good x \<and> content x = content w \<and> (rf = Inr ?own \<or> (\<exists>e. rf = Inl e \<and> read_failed ?be e x))"
    using validate_data_files_accepts [OF w(1), of "en_arrow env" ?crc "sn_schema sn" "mf_data_files ?m" "{}" "{}" rf x]
      S rf by (simp add: files_ok_def validate_data_files_with_owner_def)
  show ?thesis
  proof (cases rf)
    case (Inl e)
    then show ?thesis using o rf X w(2) store_read_failedI(4) by (auto simp: bindSE_def)
  next
    case (Inr owned)
    then have owned: "rf = Inr ?own" using X by simp
    obtain rl y where rl: "load_segments_with_owner ?be ?crc ?m ?own x = (rl, y)" by fastforce
    have Y: "good y \<and> content y = content x \<and> (rl = Inr (sn_index sn) \<or> (\<exists>e. rl = Inl e \<and> read_failed ?be e y))"
      by (rule load_segments_accepts [of x ?crc ?own "mf_segments ?m" "sn_index sn" "{}" None
          "sg_dimension (hd (mf_segments ?m))" "{}"])
        (use S X rl in \<open>simp_all add: segments_loaded_def load_segments_with_owner_def\<close>)
    have tombs: "validate_tombstones ?m ?own = Inr ()" using validate_tombstones_ok S by metis
    show ?thesis
    proof (cases rl)
      case (Inl e)
      then show ?thesis using o rf owned rl tombs X Y w(2) store_read_failedI(4) by (auto simp: bindSE_def)
    next
      case (Inr index)
      then have index: "index = sn_index sn" using Y by simp
      let ?eg = "new_handle DatasetOpened ?m (sn_schema sn) index next_row_id (mf_next_attempt_id ?m) (mf_commit_time_high_water ?m) y"
      have r: "r = Inr ?eg" "t = y" using o rf owned rl tombs Inr by (auto simp: bindSE_def)
      have eg: "eg_store ?eg = y" "\<exists>l. eg_current ?eg = sn\<lparr> sn_lease := l \<rparr>" "eg_next_row_id ?eg = next_row_id"
          "eg_attempts ?eg = mf_next_attempt_id ?m" "eg_log ?eg = new_log COMMIT_LOG_CAPACITY"
          "eg_last_ts ?eg = mf_commit_time_high_water ?m"
        using S index by (auto simp: new_handle_def register_def Let_def intro!: exI [of _ "\<lparr> ls_id = 0, ls_version = mf_version ?m \<rparr>"])
      obtain l where cur: "eg_current ?eg = sn\<lparr> sn_lease := l \<rparr>" using eg(2) by blast
      have cy: "content y = content s" using X Y w(2) by simp
      have "snapshot_ok (content y) env next_row_id (mf_next_attempt_id ?m) sn"
        by (rule snapshot_ok_cong [OF sok]) (use X Y n in simp_all)
      then have "opened content good env ?eg"
        using Y n fits log_of_new [of COMMIT_LOG_CAPACITY]
        by (simp add: opened_def eg cur COMMIT_LOG_CAPACITY_def image_fits_def is_u64_def u64_max_def)
      moreover have "recoverable exact content env y sn" using rec recoverable_cong [OF cy] by simp
      ultimately have "fresh_handle exact content good env ?eg"
        using fits by (simp add: fresh_handle_def eg cur image_fits_def)
      then show ?thesis using r eg(1) cur Y cy by auto
    qed
  qed
qed

lemma open_recovers:
  assumes rec: "recoverable exact content env s sn" and g: "good s" and o: "open_with_storage env s = (r, t)"
  shows "good t \<and> content t = content s \<and>
    (case r of
       Inl e \<Rightarrow> store_read_failed env e t \<or>
         (\<exists>n>MAX_REASONABLE_ROW_ID_CAPACITY. e = UnreasonableCapacity n MAX_REASONABLE_ROW_ID_CAPACITY \<and>
            (n = mf_next_row_id (sn_manifest sn) \<or> reserved content s n))
     | Inr eg \<Rightarrow> eg_store eg = t \<and> fresh_handle exact content good env eg \<and> (\<exists>l. eg_current eg = sn\<lparr> sn_lease := l \<rparr>))"
proof -
  let ?cd = "en_codecs env" and ?be = "en_owner env" and ?m = "sn_manifest sn" and ?crc = "cd_crc (en_codecs env)"
  have sok: "snapshot_ok (content s) env (mf_next_row_id ?m) (mf_next_attempt_id ?m) sn" and fits: "image_fits exact ?m"
      and sch: "manifest_schema (cd_schema ?cd) ?m = Inr (sn_schema sn)" "validate_dataset_schema (sn_schema sn) = Inr ()"
      and seed: "seed_write_attempt_counter ?m = Inr (mf_next_attempt_id ?m)"
    using rec unfolding recoverable_def durable_def Let_def seed_write_attempt_counter_def by auto
  note S = sok [unfolded snapshot_ok_def Let_def]
  let ?own = "rows_owned (mf_data_files ?m)"
  define rest where "rest = (\<lambda>floor. bindSE (validate_data_files_with_owner ?be (en_arrow env) ?crc ?m (sn_schema sn)) (\<lambda>owned_rows.
      bindSE (liftSE (validate_tombstones ?m owned_rows)) (\<lambda>_.
      bindSE (load_segments_with_owner ?be ?crc ?m owned_rows) (\<lambda>index.
      bindSE (liftSE (seed_write_attempt_counter ?m)) (\<lambda>attempts s.
        (Inr (new_handle DatasetOpened ?m (sn_schema sn) index floor attempts (mf_commit_time_high_water ?m) s), s))))))"
  have bound: "bindSE (liftSE (Inr a)) f = f a" for a :: 'a and f :: "'a \<Rightarrow> ('b, 'c, 'd) effect" by (simp add: bindSE_def fun_eq_iff)
  obtain rc u where rc: "read_current_with ?cd ?be s = (rc, u)" by fastforce
  note C = read_current_recovers [OF rec g rc]
  show ?thesis
  proof (cases rc)
    case (Inl e)
    then have "r = Inl (Storage e)" "t = u" using o rc by (simp_all add: open_with_storage_def Let_def bindSE_def map_errSE_def)
    then show ?thesis using C Inl by auto
  next
    case (Inr found)
    then have found: "rc = Inr (Some ?m)" using C by simp
    obtain rh w where rh: "read_row_id_high_water_with ?crc ?be u = (rh, w)" by fastforce
    have gu: "good u" "content u = content s" using C by simp_all
    have W: "good w" "content w = content s" using read_high_water_frame [OF gu(1) rh] gu(2) by simp_all
    show ?thesis
    proof (cases rh)
      case (Inl e)
      then have "r = Inl (Storage e)" "t = w"
        using o rc rh found sch by (simp_all add: open_with_storage_def Let_def bindSE_def map_errSE_def)
      then show ?thesis using W store_read_failedI(3) [OF rh [unfolded Inl]] by simp
    next
      case (Inr hw)
      have fl: "floor_is content s hw"
        using read_high_water_ok [OF gu(1)] rh Inr gu(2) floor_is_cong [of content u s] by simp
      obtain n where n: "hw = Some n" "reserved content s n"
        using fl rec by (cases hw) (auto simp: floor_is_def recoverable_def)
      let ?floor = "max (mf_next_row_id ?m) n"
      show ?thesis
      proof (cases "?floor \<le> MAX_REASONABLE_ROW_ID_CAPACITY")
        case False
        then have "r = Inl (UnreasonableCapacity ?floor MAX_REASONABLE_ROW_ID_CAPACITY)" "t = w"
          using o rc rh found sch Inr n
          by (auto simp: open_with_storage_def Let_def bindSE_def map_errSE_def guardE_def split: if_splits)
        then show ?thesis using W False n by (auto simp: max_def)
      next
        case True
        have "rest ?floor w = (r, t)"
          using o rc rh found sch Inr n True
          by (simp add: open_with_storage_def rest_def Let_def bindSE_def map_errSE_def guardE_def)
        from open_checks [OF rec W this [unfolded rest_def seed bound]] True show ?thesis
          by (auto simp: MAX_REASONABLE_ROW_ID_CAPACITY_def is_u64_def u64_max_def split: sum.splits)
      qed
    qed
  qed
qed

end

end
