(* ===== verification/Spec2Isabelle.thy ===== *)
theory Spec2Isabelle
  imports LifecycleCoordination Recovery
begin

text \<open>
  A verification library for Strata, an embedded versioned table store with vector search.

  \<^bold>\<open>The program.\<close>  A dataset is a directory (or a prefix of an object store) with immutable data
  files and vector segments under \<open>data/\<close>, one manifest per version under \<open>_versions/\<close>, and records
  of the row ids handed out.  \<open>crates/storage\<close> has the backend trait, the local filesystem, the
  manifest format, the statistics and the reservation records; \<open>crates/index\<close> the vector index and
  its file format; \<open>crates/query\<close> predicates, pruning and the planner; \<open>crates/txn\<close> the dataset
  itself: snapshots, transactions, the commit protocol, recovery, and the query requests.  A commit
  stages batches and deletions against a snapshot, writes its files under names no other attempt
  uses, and then, under the commit lock, checks the log of recent commits for conflicts and
  publishes the next manifest; the manifest's appearance under its name is the commit.

  \<^bold>\<open>Conventions.\<close>  A \<open>u64\<close> is a natural number with \<open>is_u64\<close> where its width matters, and every
  checked, saturating or wrapping operation is written out (\<open>checked_add\<close>, \<open>fetch_add_u64\<close>); bytes
  and the words of the segment format are machine words; floats are bit patterns.  Fallible code
  returns a sum with the error on the left, effects are state-passing functions into such a sum, and
  a loop that may not end is a partial function into an option.  Text of error messages is dropped.
  Code of other packages is an argument of the definitions: the checksum and the JSON library
  (\<open>codecs\<close>, \<open>json_spec\<close>), the Arrow library (\<open>arrow_lib\<close>, \<open>arrow_lib_spec\<close>) and its kernels
  (\<open>arrow_kernels\<close>, \<open>arrow_spec\<close>), and the construction of a vector index from the vectors of a
  commit (\<open>en_build_index\<close>, for which nothing is assumed).  Each specification has a concrete
  instance in the witnesses.

  \<^bold>\<open>Storage.\<close>
  \<^item> \<open>Prelude\<close>: bounded arithmetic, results and effects, text splitting, decimal and little-endian
    numbers, shared by everything else.
  \<^item> \<open>Backend\<close> (\<open>backend/mod.rs\<close>, \<open>backend/owner.rs\<close>): object keys and the trait as a record; the
    locale \<open>backend_contract\<close> has the laws the rest relies on, and \<open>owned_backend\<close> shows that a
    dataset prefix keeps them.
  \<^item> \<open>LocalFs\<close> (\<open>backend/local.rs\<close>): the local backend over a tree of directories in which every
    system call can fail; it is an instance of the contract, publication is atomic and listing is
    exact under every pattern of failures.
  \<^item> \<open>Json\<close>, \<open>Manifest\<close>, \<open>ManifestStore\<close>, \<open>ManifestImage\<close> (\<open>manifest.rs\<close>): the manifest, its JSON
    form with limits and checksum, publication and recovery; the round trip is exact, what the
    decoder accepts is bounded, and a publication is all or nothing.
  \<^item> \<open>Schema\<close> (\<open>schema.rs\<close>), \<open>Stats\<close> (\<open>stats.rs\<close>) with \<open>FloatArith\<close>, \<open>ArrowData\<close> (\<open>encoding.rs\<close>,
    \<open>datafile.rs\<close>): the schema catalog, zone maps, and checksummed data files.
  \<^item> \<open>RowIdHighWater\<close>, \<open>RowIdAllocator\<close> (\<open>row_id_high_water.rs\<close>, \<open>row_id.rs\<close>): durable reservations
    and the allocator loop; a claim always returns and no row id is handed out twice, across
    failures and restarts.

  \<^bold>\<open>Index and queries.\<close>
  \<^item> \<open>SegmentFormat\<close> with \<open>IndexError\<close> (\<open>segment_format.rs\<close>, \<open>segment_writer.rs\<close>,
    \<open>segment_reader.rs\<close>): the byte format of a vector segment, and that the validating reader
    returns the written graph.
  \<^item> \<open>QueryPredicate\<close>, \<open>Plan\<close> (\<open>crates/query\<close>) and \<open>Query\<close>, \<open>RowFilter\<close> (\<open>query.rs\<close>,
    \<open>filter_key.rs\<close>, the filters of \<open>snapshot.rs\<close>): pruning never loses a matching row, accepted
    pipelines are planned, validated requests cannot fail on data of the schema, keys are injective,
    and results are accepted exactly when well formed.

  \<^bold>\<open>Transactions.\<close>
  \<^item> \<open>Snapshot\<close>, \<open>TxnError\<close> (\<open>segment_set.rs\<close>, \<open>retention.rs\<close>, \<open>snapshot.rs\<close>, \<open>dataset.rs\<close>): leases,
    the visible rows of a snapshot, and staging of inserts, deletions and updates.
  \<^item> \<open>Catalog\<close>: the checks that opening makes on the files, tombstones and segments of a manifest,
    and what a stored file shows.
  \<^item> \<open>CommitLog\<close>, \<open>Observability\<close>, \<open>LifecycleCoordination\<close>: the ring buffer of write sets, which
    answers as the whole history (locale \<open>occ_history\<close>); the bounded event journal; and the
    coordinator as a step relation of threads (locale \<open>admission_control\<close>) with exclusion, wake-ups
    and writer preference.
  \<^item> \<open>WritePhase\<close>, \<open>ZoneMap\<close>: the part of a commit before the lock.  The locale \<open>engine_store\<close> is a
    backend with the directory calls; its lemmas say which objects a phase may touch and what the
    new files hold.  \<open>LocalEngine\<close> interprets it on the local filesystem.
  \<^item> \<open>Commit\<close>: the critical section, \<open>begin\<close> and the whole \<open>commit\<close>.  \<open>Isolation\<close>: the
    interleavings of commits on one open dataset as an inductive step relation, and its invariant
    \<open>sys_inv\<close>.  \<open>SnapshotIsolation\<close>: every step refines first-committer-wins snapshot isolation
    over the visible rows, a rejected commit names exactly the contested rows, and a commit
    returns.  \<open>SampleDataset\<close> is the dataset the witnesses run.
  \<^item> \<open>Recovery\<close>: creating and opening a dataset.

  \<^bold>\<open>Bounds and loops.\<close>  No fuel is used: the only loop whose end depends on the store, the row-id
  claim, is a partial function and shown to return on every store that keeps the contract.  The step
  relation keeps the attempt counter below \<open>u64_max\<close>, as its wrap-around would reuse names.  A
  failure pattern of the local filesystem is an arbitrary list of failing calls, so the statements
  hold for a process that stops between any two of them.  The steps of the interleaving are the parts
  of a commit that run without the lock; the files of one attempt are written in one step because no
  other attempt can name them.

  \<^bold>\<open>Not modelled.\<close>
  \<^item> The construction and the approximate search of the vector index (\<open>hnsw.rs\<close>, \<open>graph.rs\<close>,
    \<open>node_table.rs\<close> and their helpers): lock-free raw-pointer code with random levels; a commit's
    graph is an arbitrary node source, and the segment set keeps its parts without searching them.
  \<^item> Compaction, schema migration of a live dataset, retention, vacuum and inventory: they rewrite
    or delete objects under the exclusive guard, whose exclusion alone is shown.
  \<^item> The scan, group-by and lookup pipelines with their caches, and reads inside a transaction; their
    filters, projections, pruning, plans and requests are.
  \<^item> The experimental row-group container, the command line, the Python bindings and the chaos
    worker, which drive the library or are not called by it.
\<close>

end
